(* ===== verification/Prelude.thy ===== *)
theory Prelude
  imports Complex_Main "HOL-Library.AList" "HOL-Library.Sublist" "HOL-Library.List_Lexorder"
    "HOL-Library.Char_ord" "HOL-Library.Word" "HOL-Library.Multiset"
begin

text \<open>
  Shared vocabulary of the development: the Go primitives every component uses
  (maps, optional pointers, clocks, identifiers), the lemma collections the
  component proofs draw on, and the generic facts on association lists.

  A Go map is an association list. Its order stands for the iteration order of
  \<open>for k, v := range m\<close>, which the language leaves open: the theorems quantify over
  every well-formed list, hence over every order. A nil map and an empty map are
  both the empty list, except where the code tells them apart.
\<close>

named_theorems go_defs "definitions of the Go standard-library fragments"
named_theorems wf_intros "preservation rules for the components' invariants"

section \<open>Types\<close>

text \<open>
  A \<open>time.Time\<close> is the number of nanoseconds since Go's zero time, so \<open>IsZero\<close> is
  equality with 0. A \<open>uuid.UUID\<close> is an opaque comparable value; 0 is the zero UUID.
\<close>

type_synonym time = int
type_synonym duration = int
type_synonym uuid = nat
type_synonym ('k, 'v) gomap = "('k \<times> 'v) list"

abbreviation (input) IsZero :: "time \<Rightarrow> bool" where
  "IsZero t \<equiv> t = 0"

section \<open>Go maps\<close>

abbreviation map_get :: "('k, 'v) gomap \<Rightarrow> 'k \<Rightarrow> 'v option" where
  "map_get m k \<equiv> map_of m k"

abbreviation map_put :: "'k \<Rightarrow> 'v \<Rightarrow> ('k, 'v) gomap \<Rightarrow> ('k, 'v) gomap" where
  "map_put k v m \<equiv> AList.update k v m"

abbreviation map_del :: "'k \<Rightarrow> ('k, 'v) gomap \<Rightarrow> ('k, 'v) gomap" where
  "map_del k m \<equiv> AList.delete k m"

abbreviation wf_map :: "('k, 'v) gomap \<Rightarrow> bool" where
  "wf_map m \<equiv> distinct (map fst m)"

text \<open>\<open>m[k]\<close> used as a value: the zero value when the key is absent.\<close>

definition map_at :: "'v \<Rightarrow> ('k, 'v) gomap \<Rightarrow> 'k \<Rightarrow> 'v" where
  "map_at z m k = (case map_get m k of None \<Rightarrow> z | Some v \<Rightarrow> v)"

text \<open>Lookups are reasoned about as such, not as membership in the list.\<close>

declare map_of_eq_Some_iff [simp del] Some_eq_map_of_iff [simp del]

lemma map_get_put [simp]:
  "map_get (map_put k v m) k' = (if k' = k then Some v else map_get m k')"
  by (simp add: AList.update_conv')

lemma map_get_del [simp]:
  "map_get (map_del k m) k' = (if k' = k then None else map_get m k')"
  by (simp add: AList.delete_conv')

lemma wf_map_put [simp, wf_intros]: "wf_map m \<Longrightarrow> wf_map (map_put k v m)"
  by (rule AList.distinct_update)

lemma wf_map_del [simp, wf_intros]: "wf_map m \<Longrightarrow> wf_map (map_del k m)"
  by (rule AList.distinct_delete)

lemma map_at_put [simp]: "map_at z (map_put k v m) k' = (if k' = k then v else map_at z m k')"
  by (simp add: map_at_def)

lemma map_at_del [simp]: "map_at z (map_del k m) k' = (if k' = k then z else map_at z m k')"
  by (simp add: map_at_def)

lemma map_at_Nil [simp]: "map_at z [] k = z"
  by (simp add: map_at_def)

lemma wf_map_get_iff: "wf_map m \<Longrightarrow> map_get m k = Some v \<longleftrightarrow> (k, v) \<in> set m"
  by (rule map_of_eq_Some_iff)

lemma in_keys_iff: "k \<in> fst ` set m \<longleftrightarrow> map_get m k \<noteq> None"
  by (simp add: map_of_eq_None_iff)

lemma keys_put [simp]: "fst ` set (map_put k v m) = insert k (fst ` set m)"
  by (simp add: AList.dom_update)

lemma keys_del [simp]: "fst ` set (map_del k m) = fst ` set m - {k}"
  by (auto simp: AList.delete_eq)

lemma set_put_wf:
  assumes "wf_map m"
  shows "set (map_put k v m) = insert (k, v) {p \<in> set m. fst p \<noteq> k}"
proof -
  have "(k', v') \<in> set (map_put k v m) \<longleftrightarrow> (k', v') \<in> insert (k, v) {p \<in> set m. fst p \<noteq> k}" for k' v'
  proof -
    have "(k', v') \<in> set (map_put k v m) \<longleftrightarrow> map_get (map_put k v m) k' = Some v'"
      using assms by (simp only: wf_map_get_iff wf_map_put)
    moreover have "(k', v') \<in> set m \<longleftrightarrow> map_get m k' = Some v'"
      using assms by (simp only: wf_map_get_iff)
    ultimately show ?thesis by auto
  qed
  then show ?thesis by auto
qed

lemma set_del: "set (map_del k m) = {p \<in> set m. fst p \<noteq> k}"
  by (auto simp: AList.delete_eq)

section \<open>Fallible computations\<close>

text \<open>
  An operation that may fail returns a sum: \<open>Inl\<close> is the Go error, \<open>Inr\<close> the result. A
  method that mutates its receiver returns the new receiver beside it, since Go keeps
  the mutations made before an error is returned.
\<close>

definition is_ok :: "'e + 'a \<Rightarrow> bool" where
  "is_ok r = (case r of Inl _ \<Rightarrow> False | Inr _ \<Rightarrow> True)"

lemma is_ok_simps [simp]: "is_ok (Inr a)" "\<not> is_ok (Inl e)"
  by (simp_all add: is_ok_def)

section \<open>Lists\<close>

lemma sorted_wrt_take_drop:
  "sorted_wrt P xs \<Longrightarrow> sorted_wrt P (take n xs) \<and> sorted_wrt P (drop n xs)"
  by (simp add: sorted_wrt_take sorted_wrt_drop)

lemma last_filter_in: "filter P xs \<noteq> [] \<Longrightarrow> last (filter P xs) \<in> set xs"
  using last_in_set by fastforce

lemma map_put_fresh: "k \<notin> fst ` set m \<Longrightarrow> map_put k v m = m @ [(k, v)]"
  by (induction m) auto

lemma map_put_same: "map_get m k = Some v \<Longrightarrow> map_put k v m = m"
  by (induction m) auto

end
