(* ===== verification/Statemachine.thy ===== *)
theory Statemachine
  imports Prelude
begin

text \<open>
  The generic state machine of \<open>internal/pkg/statemachine/statemachine.go\<close>: a map from a
  state to the states reachable from it. A missing key reads as the nil slice.
\<close>

datatype 's transition_error = ErrInvalidTransition 's 's

record 's Machine =
  transitions :: "('s, 's list) gomap"

definition New :: "('s, 's list) gomap \<Rightarrow> 's Machine" where
  "New ts = \<lparr>transitions = ts\<rparr>"

definition Allowed :: "'s Machine \<Rightarrow> 's \<Rightarrow> 's list" where
  "Allowed m from = map_at [] (transitions m) from"

definition Validate :: "'s Machine \<Rightarrow> 's \<Rightarrow> 's \<Rightarrow> 's transition_error + unit" where
  "Validate m from to =
     (if to \<in> set (map_at [] (transitions m) from) then Inr ()
      else Inl (ErrInvalidTransition from to))"

definition CanTransition :: "'s Machine \<Rightarrow> 's \<Rightarrow> 's \<Rightarrow> bool" where
  "CanTransition m from to \<longleftrightarrow> Validate m from to = Inr ()"

lemma Validate_ok_iff: "Validate m from to = Inr () \<longleftrightarrow> to \<in> set (Allowed m from)"
  by (simp add: Validate_def Allowed_def)

lemma CanTransition_iff: "CanTransition m from to \<longleftrightarrow> to \<in> set (Allowed m from)"
  by (simp add: CanTransition_def Validate_ok_iff)

lemma Validate_cases:
  "Validate m from to = (if to \<in> set (Allowed m from) then Inr () else Inl (ErrInvalidTransition from to))"
  by (simp add: Validate_def Allowed_def)

text \<open>The states a machine can visit from a start state.\<close>

inductive visits :: "'s Machine \<Rightarrow> 's \<Rightarrow> 's \<Rightarrow> bool" for m :: "'s Machine" and start :: 's where
  visits_start: "visits m start start"
| visits_step: "visits m start s \<Longrightarrow> CanTransition m s s' \<Longrightarrow> visits m start s'"

lemma visits_closed:
  assumes "visits m start s" "start \<in> S" "\<And>s s'. s \<in> S \<Longrightarrow> s' \<in> set (Allowed m s) \<Longrightarrow> s' \<in> S"
  shows "s \<in> S"
  using assms by (induction rule: visits.induct) (auto simp: CanTransition_iff)

end
