(* ===== verification/Go_Strings.thy ===== *)
theory Go_Strings
  imports Prelude
begin

text \<open>
  The fragment of Go's string library the program uses. A Go string is a byte
  sequence, here a list of 8-bit characters. \<open>range\<close> over a string and \<open>[]rune(s)\<close>
  decode UTF-8 one code point at a time, yielding U+FFFD with width 1 on an invalid
  byte; \<open>runes\<close> pairs each code point with the bytes it was read from. The Unicode
  simple case mapping above ASCII is table data of the runtime and enters as the
  parameter \<open>ul\<close>.
\<close>

type_synonym rune = nat

abbreviation RuneError :: rune where
  "RuneError \<equiv> 65533"

section \<open>UTF-8\<close>

text \<open>
  The accepted ranges of the second byte (\<open>acceptRanges\<close> of the runtime) exclude
  overlong encodings, surrogates and values above U+10FFFF.
\<close>

definition is_cont :: "nat \<Rightarrow> nat \<Rightarrow> nat \<Rightarrow> bool" where
  "is_cont lo hi b \<longleftrightarrow> lo \<le> b \<and> b \<le> hi"

definition accept2 :: "nat \<Rightarrow> nat \<Rightarrow> bool" where
  "accept2 b0 b1 \<longleftrightarrow> 194 \<le> b0 \<and> b0 \<le> 223 \<and> is_cont 128 191 b1"

definition accept3 :: "nat \<Rightarrow> nat \<Rightarrow> nat \<Rightarrow> bool" where
  "accept3 b0 b1 b2 \<longleftrightarrow> 224 \<le> b0 \<and> b0 \<le> 239
     \<and> is_cont (if b0 = 224 then 160 else 128) (if b0 = 237 then 159 else 191) b1
     \<and> is_cont 128 191 b2"

definition accept4 :: "nat \<Rightarrow> nat \<Rightarrow> nat \<Rightarrow> nat \<Rightarrow> bool" where
  "accept4 b0 b1 b2 b3 \<longleftrightarrow> 240 \<le> b0 \<and> b0 \<le> 244
     \<and> is_cont (if b0 = 240 then 144 else 128) (if b0 = 244 then 143 else 191) b1
     \<and> is_cont 128 191 b2 \<and> is_cont 128 191 b3"

definition rune2 :: "nat \<Rightarrow> nat \<Rightarrow> rune" where
  "rune2 b0 b1 = (b0 - 192) * 64 + (b1 - 128)"

definition rune3 :: "nat \<Rightarrow> nat \<Rightarrow> nat \<Rightarrow> rune" where
  "rune3 b0 b1 b2 = (b0 - 224) * 4096 + (b1 - 128) * 64 + (b2 - 128)"

definition rune4 :: "nat \<Rightarrow> nat \<Rightarrow> nat \<Rightarrow> nat \<Rightarrow> rune" where
  "rune4 b0 b1 b2 b3 =
     (b0 - 240) * 262144 + (b1 - 128) * 4096 + (b2 - 128) * 64 + (b3 - 128)"

text \<open>\<open>utf8.DecodeRuneInString\<close>: the code point and its width.\<close>

fun decode_bytes :: "nat list \<Rightarrow> rune \<times> nat" where
  "decode_bytes [] = (RuneError, 0)"
| "decode_bytes (b0 # bs) =
     (if b0 < 128 then (b0, 1)
      else case bs of
        [] \<Rightarrow> (RuneError, 1)
      | b1 # bs1 \<Rightarrow>
          if accept2 b0 b1 then (rune2 b0 b1, 2)
          else (case bs1 of
            [] \<Rightarrow> (RuneError, 1)
          | b2 # bs2 \<Rightarrow>
              if accept3 b0 b1 b2 then (rune3 b0 b1 b2, 3)
              else (case bs2 of
                [] \<Rightarrow> (RuneError, 1)
              | b3 # _ \<Rightarrow>
                  if accept4 b0 b1 b2 b3 then (rune4 b0 b1 b2 b3, 4) else (RuneError, 1))))"

definition byte :: "char \<Rightarrow> nat" where
  "byte c = of_char c"

text \<open>The longest encoding has four bytes, so four bytes of lookahead suffice.\<close>

definition decode_rune :: "string \<Rightarrow> rune \<times> nat" where
  "decode_rune s = decode_bytes (map byte (take 4 s))"

fun runes :: "string \<Rightarrow> (rune \<times> string) list" where
  "runes [] = []"
| "runes (c # cs) =
     (let w = snd (decode_rune (c # cs)) - 1
      in (fst (decode_rune (c # cs)), c # take w cs) # runes (drop w cs))"

definition char_of_byte :: "nat \<Rightarrow> char" where
  "char_of_byte n = char_of n"

definition encode_rune :: "rune \<Rightarrow> string" where
  "encode_rune r = map char_of_byte
     (if r < 128 then [r]
      else if r < 2048 then [192 + r div 64, 128 + r mod 64]
      else if r > 1114111 \<or> (55296 \<le> r \<and> r \<le> 57343) then [239, 191, 189]
      else if r < 65536 then [224 + r div 4096, 128 + (r div 64) mod 64, 128 + r mod 64]
      else [240 + r div 262144, 128 + (r div 4096) mod 64, 128 + (r div 64) mod 64, 128 + r mod 64])"

abbreviation rune_count :: "string \<Rightarrow> nat" where
  "rune_count s \<equiv> length (runes s)"

text \<open>\<open>utf8.RuneStart\<close>: the byte is not a continuation byte.\<close>

definition RuneStart :: "char \<Rightarrow> bool" where
  "RuneStart c \<longleftrightarrow> \<not> (128 \<le> byte c \<and> byte c < 192)"

lemma runes_concat [simp]: "concat (map snd (runes s)) = s"
  by (induction s rule: runes.induct) (simp_all add: Let_def)

definition is_ascii :: "string \<Rightarrow> bool" where
  "is_ascii s \<longleftrightarrow> list_all (\<lambda>c. byte c < 128) s"

lemma decode_rune_ascii: "byte c < 128 \<Longrightarrow> decode_rune (c # cs) = (byte c, 1)"
  by (simp add: decode_rune_def)

lemma runes_ascii: "is_ascii s \<Longrightarrow> runes s = map (\<lambda>c. (byte c, [c])) s"
  by (induction s) (simp_all add: is_ascii_def decode_rune_ascii)

lemma rune2_ge: "accept2 b0 b1 \<Longrightarrow> 128 \<le> rune2 b0 b1"
  by (auto simp: accept2_def rune2_def)

lemma rune3_ge: "accept3 b0 b1 b2 \<Longrightarrow> 128 \<le> rune3 b0 b1 b2"
  by (cases "b0 = 224") (auto simp: accept3_def is_cont_def rune3_def)

lemma rune4_ge: "accept4 b0 b1 b2 b3 \<Longrightarrow> 128 \<le> rune4 b0 b1 b2 b3"
  by (cases "b0 = 240") (auto simp: accept4_def is_cont_def rune4_def)

lemma decode_bytes_nonascii: "\<not> b < 128 \<Longrightarrow> 128 \<le> fst (decode_bytes (b # bs))"
  by (simp add: rune2_ge rune3_ge rune4_ge split: list.split)

lemma decode_rune_nonascii: "\<not> byte c < 128 \<Longrightarrow> 128 \<le> fst (decode_rune (c # cs))"
  using decode_bytes_nonascii by (simp add: decode_rune_def)

lemma runes_eq_Nil_iff [simp]: "runes s = [] \<longleftrightarrow> s = []"
  by (cases s) (simp_all add: Let_def)

lemma rune_bytes_nonempty: "p \<in> set (runes s) \<Longrightarrow> snd p \<noteq> []"
  by (induction s rule: runes.induct) (auto simp: Let_def)

lemma rune_count_le: "rune_count s \<le> length s"
proof (induction s rule: runes.induct)
  case (2 c cs)
  then show ?case by (simp add: Let_def le_diff_conv)
qed simp

section \<open>Case mapping and trimming\<close>

definition lower_byte :: "nat \<Rightarrow> nat" where
  "lower_byte b = (if 65 \<le> b \<and> b \<le> 90 then b + 32 else b)"

text \<open>\<open>unicode.ToLower\<close>: fixed on ASCII, the Unicode tables above it.\<close>

definition lower_rune :: "(rune \<Rightarrow> rune) \<Rightarrow> rune \<Rightarrow> rune" where
  "lower_rune ul r = (if r < 128 then lower_byte r else ul r)"

text \<open>\<open>strings.ToLower\<close>: a bytewise path for ASCII strings, \<open>strings.Map\<close> otherwise.\<close>

definition ToLower :: "(rune \<Rightarrow> rune) \<Rightarrow> string \<Rightarrow> string" where
  "ToLower ul s =
     (if is_ascii s then map (char_of_byte \<circ> lower_byte \<circ> byte) s
      else concat (map (\<lambda>p. encode_rune (lower_rune ul (fst p))) (runes s)))"

text \<open>\<open>unicode.IsSpace\<close>.\<close>

definition is_space :: "rune \<Rightarrow> bool" where
  "is_space r \<longleftrightarrow> (9 \<le> r \<and> r \<le> 13) \<or> r \<in> {32, 133, 160, 5760, 8232, 8233, 8239, 8287, 12288}
     \<or> (8192 \<le> r \<and> r \<le> 8202)"

text \<open>\<open>strings.TrimSpace\<close>: drop the white-space code points at both ends.\<close>

definition TrimSpace :: "string \<Rightarrow> string" where
  "TrimSpace s =
     concat (map snd (rev (dropWhile (is_space \<circ> fst)
       (rev (dropWhile (is_space \<circ> fst) (runes s))))))"

lemma length_ToLower_ascii: "is_ascii s \<Longrightarrow> length (ToLower ul s) = length s"
  by (simp add: ToLower_def)

lemma ToLower_Nil [simp]: "ToLower ul [] = []"
  by (simp add: ToLower_def is_ascii_def)

lemma TrimSpace_Nil [simp]: "TrimSpace [] = []"
  by (simp add: TrimSpace_def)

section \<open>Searching and joining\<close>

fun HasPrefix :: "string \<Rightarrow> string \<Rightarrow> bool" where
  "HasPrefix s [] = True"
| "HasPrefix [] (p # ps) = False"
| "HasPrefix (c # cs) (p # ps) = (c = p \<and> HasPrefix cs ps)"

definition HasSuffix :: "string \<Rightarrow> string \<Rightarrow> bool" where
  "HasSuffix s p = HasPrefix (rev s) (rev p)"

text \<open>\<open>strings.Index\<close>: the offset of the first occurrence, if any.\<close>

fun Index :: "string \<Rightarrow> string \<Rightarrow> nat option" where
  "Index s q =
     (if HasPrefix s q then Some 0
      else case s of [] \<Rightarrow> None | c # cs \<Rightarrow> map_option Suc (Index cs q))"

declare Index.simps [simp del]

fun Join :: "string list \<Rightarrow> string \<Rightarrow> string" where
  "Join [] sep = []"
| "Join [x] sep = x"
| "Join (x # y # xs) sep = x @ sep @ Join (y # xs) sep"

lemma HasPrefix_iff: "HasPrefix s p \<longleftrightarrow> (\<exists>r. s = p @ r)"
  by (induction s p rule: HasPrefix.induct) auto

lemma HasPrefix_length: "HasPrefix s p \<Longrightarrow> length p \<le> length s"
  by (auto simp: HasPrefix_iff)

lemma Index_SomeD:
  assumes "Index s q = Some i"
  shows "i + length q \<le> length s \<and> HasPrefix (drop i s) q"
  using assms
proof (induction s arbitrary: i)
  case Nil
  then show ?case
    by (cases q) (simp_all add: Index.simps split: if_splits)
next
  case (Cons c cs)
  show ?case
  proof (cases "HasPrefix (c # cs) q")
    case True
    with Cons.prems have "i = 0" by (simp add: Index.simps)
    with HasPrefix_length[OF True] True show ?thesis by simp
  next
    case False
    with Cons.prems obtain j where "Index cs q = Some j" "i = Suc j"
      by (auto simp: Index.simps[of "c # cs"])
    with Cons.IH show ?thesis by auto
  qed
qed

lemma Index_None_iff: "Index s q = None \<longleftrightarrow> (\<forall>i \<le> length s. \<not> HasPrefix (drop i s) q)"
proof (induction s)
  case Nil
  then show ?case by (simp add: Index.simps)
next
  case (Cons c cs)
  have "(\<forall>i \<le> Suc (length cs). P i) \<longleftrightarrow> P 0 \<and> (\<forall>i \<le> length cs. P (Suc i))" for P
    by (metis Suc_le_mono not0_implies_Suc zero_le)
  from this[of "\<lambda>i. \<not> HasPrefix (drop i (c # cs)) q"] Cons.IH show ?case
    by (simp add: Index.simps[of "c # cs"])
qed

end
