(* ===== verification/Task_Model.thy ===== *)
theory Task_Model
  imports Statemachine Go_Strings
begin

text \<open>
  The data of \<open>internal/store/models.go\<close>: the task, its parts, the event trail and the task
  state machine. Go string enumerations are datatypes with one constructor per named
  constant and one for any other string. Pointers are options, maps are association lists,
  \<open>float64\<close> is \<open>real\<close> (rounding is not modelled). \<open>AutoRetryBudget\<close> is an option because the
  code distinguishes a nil map from an empty one.
\<close>

section \<open>Enumerations\<close>

datatype TaskStatus =
    TaskStatusBacklog
  | TaskStatusInProgress
  | TaskStatusWaiting
  | TaskStatusCommitting
  | TaskStatusDone
  | TaskStatusFailed
  | TaskStatusCancelled
  | TaskStatusOther string

fun TaskStatus_string :: "TaskStatus \<Rightarrow> string" where
  "TaskStatus_string TaskStatusBacklog = ''backlog''"
| "TaskStatus_string TaskStatusInProgress = ''in_progress''"
| "TaskStatus_string TaskStatusWaiting = ''waiting''"
| "TaskStatus_string TaskStatusCommitting = ''committing''"
| "TaskStatus_string TaskStatusDone = ''done''"
| "TaskStatus_string TaskStatusFailed = ''failed''"
| "TaskStatus_string TaskStatusCancelled = ''cancelled''"
| "TaskStatus_string (TaskStatusOther s) = s"

datatype FailureCategory =
    FailureCategoryTimeout
  | FailureCategoryBudget
  | FailureCategoryWorktree
  | FailureCategoryContainerCrash
  | FailureCategoryAgentError
  | FailureCategorySyncError
  | FailureCategoryUnknown
  | FailureCategoryNone
  | FailureCategoryOther string

fun FailureCategory_string :: "FailureCategory \<Rightarrow> string" where
  "FailureCategory_string FailureCategoryTimeout = ''timeout''"
| "FailureCategory_string FailureCategoryBudget = ''budget_exceeded''"
| "FailureCategory_string FailureCategoryWorktree = ''worktree_setup''"
| "FailureCategory_string FailureCategoryContainerCrash = ''container_crash''"
| "FailureCategory_string FailureCategoryAgentError = ''agent_error''"
| "FailureCategory_string FailureCategorySyncError = ''sync_error''"
| "FailureCategory_string FailureCategoryUnknown = ''unknown''"
| "FailureCategory_string FailureCategoryNone = ''''"
| "FailureCategory_string (FailureCategoryOther s) = s"

definition failure_categories :: "FailureCategory list" where
  "failure_categories =
     [FailureCategoryTimeout, FailureCategoryBudget, FailureCategoryWorktree,
      FailureCategoryContainerCrash, FailureCategoryAgentError, FailureCategorySyncError,
      FailureCategoryUnknown]"

definition ParseFailureCategory :: "string \<Rightarrow> FailureCategory \<times> bool" where
  "ParseFailureCategory raw =
     (case find (\<lambda>c. FailureCategory_string c = TrimSpace raw) failure_categories of
        Some category \<Rightarrow> (category, True)
      | None \<Rightarrow> (FailureCategoryNone, False))"

datatype TaskKind = TaskKindTask | TaskKindPlanning | TaskKindRoutine | TaskKindOther string

datatype RefinementJobStatus =
    RefinementJobStatusRunning | RefinementJobStatusDone | RefinementJobStatusFailed
  | RefinementJobStatusOther string

type_synonym SandboxActivity = string
type_synonym harness_ID = string

definition SandboxActivities :: "SandboxActivity list" where
  "SandboxActivities = [''implementation'', ''testing'', ''refinement'', ''title'', ''oversight'',
     ''commit_message'', ''agent-session'']"

section \<open>Parts of a task\<close>

record TaskUsage =
  InputTokens :: int
  OutputTokens :: int
  CacheReadInputTokens :: int
  CacheCreationTokens :: int
  CostUSD :: real

definition zero_usage :: TaskUsage where
  "zero_usage = \<lparr>InputTokens = 0, OutputTokens = 0, CacheReadInputTokens = 0,
     CacheCreationTokens = 0, CostUSD = 0\<rparr>"

definition usage_add :: "TaskUsage \<Rightarrow> TaskUsage \<Rightarrow> TaskUsage" where
  "usage_add u other =
     \<lparr>InputTokens = InputTokens u + InputTokens other,
      OutputTokens = OutputTokens u + OutputTokens other,
      CacheReadInputTokens = CacheReadInputTokens u + CacheReadInputTokens other,
      CacheCreationTokens = CacheCreationTokens u + CacheCreationTokens other,
      CostUSD = CostUSD u + CostUSD other\<rparr>"

record ExecutionEnvironment =
  ContainerImage :: string
  ContainerDigest :: string
  ModelName :: string
  APIBaseURL :: string
  env_Sandbox :: harness_ID
  RecordedAt :: time

record TurnUsageRecord =
  Turn :: int
  tu_Timestamp :: time
  tu_Usage :: TaskUsage
  tu_StopReason :: string
  tu_Sandbox :: harness_ID
  SubAgent :: SandboxActivity

record RefinementMessage =
  Role :: string
  rm_Content :: string
  rm_CreatedAt :: time

record RefinementSession =
  rs_ID :: string
  rs_CreatedAt :: time
  StartPrompt :: string
  Messages :: "RefinementMessage list"
  rs_Result :: string
  ResultPrompt :: string

record RetryRecord =
  RetiredAt :: time
  rr_Prompt :: string
  rr_Status :: TaskStatus
  rr_Result :: string
  rr_SessionID :: string
  rr_Turns :: int
  rr_CostUSD :: real
  rr_FailureCategory :: FailureCategory

record RefinementJob =
  rj_ID :: string
  rj_CreatedAt :: time
  rj_Status :: RefinementJobStatus
  rj_Result :: string
  rj_Error :: string
  rj_Source :: string

section \<open>Task\<close>

record Task =
  SchemaVersion :: int
  ID :: uuid
  Title :: string
  Prompt :: string
  Criteria :: string
  PromptHistory :: "string list"
  RetryHistory :: "RetryRecord list"
  RefineSessions :: "RefinementSession list"
  CurrentRefinement :: "RefinementJob option"
  Status :: TaskStatus
  Archived :: bool
  SessionID :: "string option"
  FreshStart :: bool
  Result :: "string option"
  Lineage :: "string option"
  StopReason :: "string option"
  Turns :: int
  Timeout :: int
  MaxCostUSD :: real
  MaxInputTokens :: int
  Usage :: TaskUsage
  Sandbox :: harness_ID
  SandboxByActivity :: "(SandboxActivity, harness_ID) gomap"
  UsageBreakdown :: "(SandboxActivity, TaskUsage) gomap"
  Environment :: "ExecutionEnvironment option"
  Position :: int
  CreatedAt :: time
  StartedAt :: "time option"
  UpdatedAt :: time
  CreatedBy :: string
  OrgID :: string
  WorktreePaths :: "(string, string) gomap"
  BranchName :: string
  CommitHashes :: "(string, string) gomap"
  BaseCommitHashes :: "(string, string) gomap"
  SnapshotDiffs :: "(string, string) gomap"
  CommitMessage :: string
  MountWorktrees :: bool
  Model :: string
  ModelOverride :: "string option"
  IsTestRun :: bool
  LastTestResult :: string
  TestRunStartTurn :: int
  PendingTestFeedback :: string
  CustomPassPatterns :: "string list"
  CustomFailPatterns :: "string list"
  Kind :: TaskKind
  FlowID :: string
  Tags :: "string list"
  SpecSourcePath :: string
  ExecutionPrompt :: string
  DependsOn :: "string list"
  ScheduledAt :: "time option"
  FailureCategory :: FailureCategory
  TruncatedTurns :: "int list"
  AutoRetryBudget :: "(FailureCategory, int) gomap option"
  AutoRetryCount :: int
  TestFailCount :: int
  LastFetchError :: string
  LastFetchErrorAt :: "time option"
  RoutineIntervalSeconds :: int
  RoutineEnabled :: bool
  RoutineNextRun :: "time option"
  RoutineLastFiredAt :: "time option"
  RoutineSpawnKind :: TaskKind
  RoutineSpawnFlow :: string
  ReviewUnresolved :: "int option"
  ReviewHeadline :: string
  ReviewSessionDir :: string

section \<open>State machine and predicates\<close>

definition TaskMachine :: "TaskStatus Machine" where
  "TaskMachine = New
     [(TaskStatusBacklog, [TaskStatusInProgress]),
      (TaskStatusInProgress, [TaskStatusBacklog, TaskStatusWaiting, TaskStatusFailed, TaskStatusCancelled]),
      (TaskStatusCommitting, [TaskStatusDone, TaskStatusFailed]),
      (TaskStatusWaiting, [TaskStatusInProgress, TaskStatusCommitting, TaskStatusCancelled]),
      (TaskStatusFailed, [TaskStatusBacklog, TaskStatusCancelled]),
      (TaskStatusDone, [TaskStatusCancelled]),
      (TaskStatusCancelled, [TaskStatusBacklog])]"

definition CanTransitionTo :: "TaskStatus \<Rightarrow> TaskStatus \<Rightarrow> bool" where
  "CanTransitionTo s next = CanTransition TaskMachine s next"

definition AllowedTransitions :: "TaskStatus \<Rightarrow> TaskStatus list" where
  "AllowedTransitions s = Allowed TaskMachine s"

abbreviation MaxAutoRetries :: int where
  "MaxAutoRetries \<equiv> 3"

definition budget_at :: "(FailureCategory, int) gomap option \<Rightarrow> FailureCategory \<Rightarrow> int" where
  "budget_at b c = (case b of None \<Rightarrow> 0 | Some m \<Rightarrow> map_at 0 m c)"

definition IsAutoRetryEligible :: "Task \<Rightarrow> FailureCategory \<Rightarrow> bool" where
  "IsAutoRetryEligible t category \<longleftrightarrow>
     budget_at (AutoRetryBudget t) category > 0 \<and> AutoRetryCount t < MaxAutoRetries"

definition HasTag :: "Task \<Rightarrow> string \<Rightarrow> bool" where
  "HasTag t tag \<longleftrightarrow> tag \<in> set (Tags t)"

definition IsRoutine :: "Task \<Rightarrow> bool" where
  "IsRoutine t \<longleftrightarrow> Kind t = TaskKindRoutine"

section \<open>Tombstones, summaries, events\<close>

record Tombstone =
  DeletedAt :: time
  Reason :: string

record TaskSummary =
  sum_TaskID :: uuid
  sum_Title :: string
  sum_Status :: TaskStatus
  CompletedAt :: time
  sum_CreatedAt :: time
  DurationSeconds :: real
  ExecutionDurationSeconds :: real
  TotalTurns :: int
  TotalCostUSD :: real
  ByActivity :: "(SandboxActivity, TaskUsage) gomap"
  TestResult :: string
  PhaseCount :: int
  sum_FailureCategory :: FailureCategory

datatype OversightStatus =
    OversightStatusPending | OversightStatusGenerating | OversightStatusReady | OversightStatusFailed
  | OversightStatusOther string

record OversightPhase =
  op_Timestamp :: time
  op_Title :: string
  Summary :: string
  ToolsUsed :: "string list"
  Commands :: "string list"
  Actions :: "string list"

record TaskOversight =
  ov_Status :: OversightStatus
  GeneratedAt :: time
  ov_Error :: string
  Phases :: "OversightPhase list"

datatype EventType =
    EventTypeStateChange | EventTypeOutput | EventTypeFeedback | EventTypeError | EventTypeSystem
  | EventTypeSpanStart | EventTypeSpanEnd | EventTypePromptRound | EventTypePromptRoundRevert
  | EventTypeOther string

datatype Trigger =
    TriggerUser | TriggerAutoPromote | TriggerAutoRetry | TriggerAutoTest | TriggerAutoSubmit
  | TriggerFeedback | TriggerSync | TriggerRecovery | TriggerSystem

fun Trigger_string :: "Trigger \<Rightarrow> string" where
  "Trigger_string TriggerUser = ''user''"
| "Trigger_string TriggerAutoPromote = ''auto_promote''"
| "Trigger_string TriggerAutoRetry = ''auto_retry''"
| "Trigger_string TriggerAutoTest = ''auto_test''"
| "Trigger_string TriggerAutoSubmit = ''auto_submit''"
| "Trigger_string TriggerFeedback = ''feedback''"
| "Trigger_string TriggerSync = ''sync''"
| "Trigger_string TriggerRecovery = ''recovery''"
| "Trigger_string TriggerSystem = ''system''"

definition NewStateChangeData ::
  "TaskStatus \<Rightarrow> TaskStatus \<Rightarrow> Trigger \<Rightarrow> (string, string) gomap \<Rightarrow> (string, string) gomap" where
  "NewStateChangeData from to trigger extra =
     fold (\<lambda>(k, v) data. map_put k v data) extra
       [(''from'', TaskStatus_string from), (''to'', TaskStatus_string to),
        (''trigger'', Trigger_string trigger)]"

record PromptRoundData =
  ThreadID :: string
  Round :: int
  PrevPrompt :: string
  NewPrompt :: string
  ResumeHint :: bool

definition NewPromptRoundEvent :: "string \<Rightarrow> int \<Rightarrow> string \<Rightarrow> string \<Rightarrow> bool \<Rightarrow> PromptRoundData" where
  "NewPromptRoundEvent threadID rnd prevPrompt newPrompt resumeHint =
     \<lparr>ThreadID = threadID, Round = rnd, PrevPrompt = prevPrompt, NewPrompt = newPrompt,
      ResumeHint = resumeHint\<rparr>"

record PromptRoundRevertData =
  rv_ThreadID :: string
  RevertedRound :: int

definition NewPromptRoundRevertEvent :: "string \<Rightarrow> int \<Rightarrow> PromptRoundRevertData" where
  "NewPromptRoundRevertEvent threadID revertedRound =
     \<lparr>rv_ThreadID = threadID, RevertedRound = revertedRound\<rparr>"

record SpanData =
  Phase :: string
  Label :: string

text \<open>
  The payload of an event is JSON made by \<open>json.Marshal\<close>; the model keeps the marshalled
  value. \<open>DataRaw\<close> is any other JSON document.
\<close>

datatype event_data =
    DataStrings "(string, string) gomap"
  | DataSpan SpanData
  | DataPromptRound PromptRoundData
  | DataPromptRoundRevert PromptRoundRevertData
  | DataRaw string

record TaskEvent =
  ev_ID :: int
  TaskID :: uuid
  EventType :: EventType
  Data :: event_data
  ev_CreatedAt :: time
  ActorSub :: string
  ActorType :: string

section \<open>Lemmas\<close>

lemma AllowedTransitions_simps [simp]:
  "AllowedTransitions TaskStatusBacklog = [TaskStatusInProgress]"
  "AllowedTransitions TaskStatusInProgress =
     [TaskStatusBacklog, TaskStatusWaiting, TaskStatusFailed, TaskStatusCancelled]"
  "AllowedTransitions TaskStatusCommitting = [TaskStatusDone, TaskStatusFailed]"
  "AllowedTransitions TaskStatusWaiting = [TaskStatusInProgress, TaskStatusCommitting, TaskStatusCancelled]"
  "AllowedTransitions TaskStatusFailed = [TaskStatusBacklog, TaskStatusCancelled]"
  "AllowedTransitions TaskStatusDone = [TaskStatusCancelled]"
  "AllowedTransitions TaskStatusCancelled = [TaskStatusBacklog]"
  "AllowedTransitions (TaskStatusOther s) = []"
  by (simp_all add: AllowedTransitions_def Allowed_def TaskMachine_def New_def map_at_def)

lemma CanTransitionTo_iff: "CanTransitionTo s s' \<longleftrightarrow> s' \<in> set (AllowedTransitions s)"
  by (simp add: CanTransitionTo_def AllowedTransitions_def CanTransition_iff)

lemma usage_add_comm: "usage_add a b = usage_add b a"
  by (simp add: usage_add_def)

lemma usage_add_assoc: "usage_add (usage_add a b) c = usage_add a (usage_add b c)"
  by (simp add: usage_add_def)

text \<open>The zero value of the struct.\<close>

definition zero_task :: Task where
  "zero_task =
     \<lparr>SchemaVersion = 0, ID = 0, Title = [], Prompt = [], Criteria = [], PromptHistory = [],
      RetryHistory = [], RefineSessions = [], CurrentRefinement = None,
      Status = TaskStatusOther [], Archived = False, SessionID = None, FreshStart = False,
      Result = None, Lineage = None, StopReason = None, Turns = 0, Timeout = 0, MaxCostUSD = 0,
      MaxInputTokens = 0, Usage = zero_usage, Sandbox = [], SandboxByActivity = [],
      UsageBreakdown = [], Environment = None, Position = 0, CreatedAt = 0, StartedAt = None,
      UpdatedAt = 0, CreatedBy = [], OrgID = [], WorktreePaths = [], BranchName = [],
      CommitHashes = [], BaseCommitHashes = [], SnapshotDiffs = [], CommitMessage = [],
      MountWorktrees = False, Model = [], ModelOverride = None, IsTestRun = False,
      LastTestResult = [], TestRunStartTurn = 0, PendingTestFeedback = [],
      CustomPassPatterns = [], CustomFailPatterns = [], Kind = TaskKindTask, FlowID = [],
      Tags = [], SpecSourcePath = [], ExecutionPrompt = [], DependsOn = [], ScheduledAt = None,
      FailureCategory = FailureCategoryNone, TruncatedTurns = [], AutoRetryBudget = None,
      AutoRetryCount = 0, TestFailCount = 0, LastFetchError = [], LastFetchErrorAt = None,
      RoutineIntervalSeconds = 0, RoutineEnabled = False, RoutineNextRun = None,
      RoutineLastFiredAt = None, RoutineSpawnKind = TaskKindTask, RoutineSpawnFlow = [],
      ReviewUnresolved = None, ReviewHeadline = [], ReviewSessionDir = []\<rparr>"

lemma zero_task_sel [simp]:
  "ID zero_task = 0" "Title zero_task = []" "Prompt zero_task = []" "Status zero_task = TaskStatusOther []"
  "Archived zero_task = False" "Tags zero_task = []" "Timeout zero_task = 0" "CreatedAt zero_task = 0"
  "UpdatedAt zero_task = 0" "StartedAt zero_task = None" "DependsOn zero_task = []" "Sandbox zero_task = []"
  "SandboxByActivity zero_task = []" "AutoRetryBudget zero_task = None" "AutoRetryCount zero_task = 0"
  "SchemaVersion zero_task = 0" "Model zero_task = []" "ModelOverride zero_task = None"
  "Position zero_task = 0" "Kind zero_task = TaskKindTask" "OrgID zero_task = []" "CreatedBy zero_task = []"
  "RetryHistory zero_task = []" "PromptHistory zero_task = []" "RefineSessions zero_task = []"
  "Usage zero_task = zero_usage" "UsageBreakdown zero_task = []" "IsTestRun zero_task = False"
  "SessionID zero_task = None" "Result zero_task = None" "CurrentRefinement zero_task = None"
  "Turns zero_task = 0" "TruncatedTurns zero_task = []" "FailureCategory zero_task = FailureCategoryNone"
  by (simp_all add: zero_task_def)

text \<open>A small task for evaluating the model on concrete inputs.\<close>

definition sample_task :: Task where
  "sample_task = zero_task\<lparr>SchemaVersion := 2, ID := 1, Title := ''Fix'', Prompt := ''Go'',
     Status := TaskStatusBacklog, Timeout := 60, CreatedAt := 5, UpdatedAt := 5, AutoRetryBudget := Some []\<rparr>"

lemma sample_task_sel [simp]:
  "SchemaVersion sample_task = 2" "ID sample_task = 1" "Title sample_task = ''Fix''"
  "Prompt sample_task = ''Go''" "Status sample_task = TaskStatusBacklog" "Timeout sample_task = 60"
  "CreatedAt sample_task = 5" "UpdatedAt sample_task = 5" "AutoRetryBudget sample_task = Some []"
  "Archived sample_task = False" "Tags sample_task = []" "StartedAt sample_task = None"
  "DependsOn sample_task = []" "Sandbox sample_task = []" "SandboxByActivity sample_task = []"
  "AutoRetryCount sample_task = 0" "Model sample_task = []" "ModelOverride sample_task = None"
  "Position sample_task = 0" "Kind sample_task = TaskKindTask" "OrgID sample_task = []"
  "CreatedBy sample_task = []" "RetryHistory sample_task = []" "PromptHistory sample_task = []"
  "RefineSessions sample_task = []" "Usage sample_task = zero_usage" "UsageBreakdown sample_task = []"
  "IsTestRun sample_task = False" "SessionID sample_task = None" "Result sample_task = None"
  "CurrentRefinement sample_task = None" "Turns sample_task = 0" "TruncatedTurns sample_task = []"
  "FailureCategory sample_task = FailureCategoryNone"
  by (simp_all add: sample_task_def)

end
