(* ===== verification/Store_Backend.thy ===== *)
theory Store_Backend
  imports Task_Model
begin

text \<open>
  The storage backend of \<open>internal/store/backend.go\<close> and \<open>backend_fs.go\<close>: one directory per
  task holding \<open>task.json\<close>, named blobs, numbered trace files and \<open>compact.ndjson\<close>. A file
  holds the value it decodes to; \<open>None\<close> stands for bytes that do not decode. An atomic
  write (temp file and rename) that fails leaves the target as it was. Which calls fail is
  part of the state, so a theorem about any state covers any pattern of I/O errors.
  Trace files are keyed by their sequence number.
\<close>

section \<open>Errors\<close>

datatype error =
    ErrTaskNotFound uuid
  | ErrDeletedTaskNotFound uuid
  | ErrNoTombstonedTask uuid
  | ErrNotExist
  | ErrIO
  | ErrCorrupt
  | ErrTransition "TaskStatus transition_error"
  | ErrNotRoutine uuid
  | ErrPromptStatus TaskStatus
  | ErrRefinementAlreadyRunning
  | ErrCursorsExclusive
  | ErrBeforeCursor
  | ErrAfterCursor
  | ErrPanic

section \<open>Files\<close>

datatype blob =
    BTombstone Tombstone
  | BSummary TaskSummary
  | BOversight TaskOversight
  | BBytes string

record taskdir =
  task_file :: "Task option option"
  blobs :: "(string, blob) gomap"
  has_traces :: bool
  trace_files :: "(int, TaskEvent option) gomap"
  compact_file :: "TaskEvent option list option"
  usage_log :: "TurnUsageRecord list"

definition empty_dir :: taskdir where
  "empty_dir = \<lparr>task_file = None, blobs = [], has_traces = False, trace_files = [], compact_file = None,
     usage_log = []\<rparr>"

datatype io_call =
    IOInit uuid
  | IOSaveTask uuid
  | IOReadTask uuid
  | IORemoveTask uuid
  | IOSaveEvent uuid
  | IOReadTraces uuid
  | IOReadCompact uuid
  | IOWriteCompact uuid
  | IORemoveTrace uuid int
  | IOSaveBlob uuid string
  | IOReadBlob uuid string
  | IODeleteBlob uuid string
  | IOReadRoot

record backend =
  dirs :: "(uuid, taskdir) gomap"
  io_fails :: "io_call \<Rightarrow> bool"

definition dir_at :: "backend \<Rightarrow> uuid \<Rightarrow> taskdir" where
  "dir_at b i = map_at empty_dir (dirs b) i"

definition put_dir :: "uuid \<Rightarrow> taskdir \<Rightarrow> backend \<Rightarrow> backend" where
  "put_dir i d b = b\<lparr>dirs := map_put i d (dirs b)\<rparr>"

section \<open>Tasks\<close>

definition Init :: "uuid \<Rightarrow> backend \<Rightarrow> backend \<times> (error + unit)" where
  "Init i b =
     (if io_fails b (IOInit i) then (b, Inl ErrIO)
      else (put_dir i ((dir_at b i)\<lparr>has_traces := True\<rparr>) b, Inr ()))"

definition SaveTask :: "Task \<Rightarrow> backend \<Rightarrow> backend \<times> (error + unit)" where
  "SaveTask t b =
     (case map_get (dirs b) (ID t) of
        None \<Rightarrow> (b, Inl ErrNotExist)
      | Some d \<Rightarrow>
          if io_fails b (IOSaveTask (ID t)) then (b, Inl ErrIO)
          else (put_dir (ID t) (d\<lparr>task_file := Some (Some t)\<rparr>) b, Inr ()))"

definition RemoveTask :: "uuid \<Rightarrow> backend \<Rightarrow> backend \<times> (error + unit)" where
  "RemoveTask i b =
     (if io_fails b (IORemoveTask i) then (b, Inl ErrIO)
      else (b\<lparr>dirs := map_del i (dirs b)\<rparr>, Inr ()))"

section \<open>Blobs\<close>

definition SaveBlob :: "uuid \<Rightarrow> string \<Rightarrow> blob \<Rightarrow> backend \<Rightarrow> backend \<times> (error + unit)" where
  "SaveBlob i key data b =
     (if io_fails b (IOSaveBlob i key) then (b, Inl ErrIO)
      else (put_dir i ((dir_at b i)\<lparr>blobs := map_put key data (blobs (dir_at b i))\<rparr>) b, Inr ()))"

definition ReadBlob :: "uuid \<Rightarrow> string \<Rightarrow> backend \<Rightarrow> error + blob" where
  "ReadBlob i key b =
     (case map_get (blobs (dir_at b i)) key of
        None \<Rightarrow> Inl ErrNotExist
      | Some data \<Rightarrow> if io_fails b (IOReadBlob i key) then Inl ErrIO else Inr data)"

definition DeleteBlob :: "uuid \<Rightarrow> string \<Rightarrow> backend \<Rightarrow> backend \<times> (error + unit)" where
  "DeleteBlob i key b =
     (case map_get (blobs (dir_at b i)) key of
        None \<Rightarrow> (b, Inl ErrNotExist)
      | Some _ \<Rightarrow>
          if io_fails b (IODeleteBlob i key) then (b, Inl ErrIO)
          else (put_dir i ((dir_at b i)\<lparr>blobs := map_del key (blobs (dir_at b i))\<rparr>) b, Inr ()))"

definition ListBlobOwners :: "string \<Rightarrow> backend \<Rightarrow> error + uuid list" where
  "ListBlobOwners key b =
     (if io_fails b IOReadRoot then Inl ErrIO
      else Inr (map fst (filter (\<lambda>(i, d). map_get (blobs d) key \<noteq> None) (dirs b))))"

section \<open>Event traces\<close>

definition SaveEvent :: "uuid \<Rightarrow> int \<Rightarrow> TaskEvent \<Rightarrow> backend \<Rightarrow> backend \<times> (error + unit)" where
  "SaveEvent i seq event b =
     (if io_fails b (IOSaveEvent i) then (b, Inl ErrIO)
      else (put_dir i ((dir_at b i)\<lparr>has_traces := True,
                         trace_files := map_put seq (Some event) (trace_files (dir_at b i))\<rparr>) b, Inr ()))"

definition max_event_ID :: "TaskEvent list \<Rightarrow> int" where
  "max_event_ID events = fold (\<lambda>evt m. if ev_ID evt > m then ev_ID evt else m) events 0"

definition compact_lines :: "taskdir \<Rightarrow> TaskEvent list" where
  "compact_lines d = (case compact_file d of None \<Rightarrow> [] | Some ls \<Rightarrow> List.map_filter (\<lambda>l. l) ls)"

fun merge_traces ::
  "int \<Rightarrow> (int \<times> TaskEvent option) list \<Rightarrow> TaskEvent list \<times> int \<Rightarrow> TaskEvent list \<times> int" where
  "merge_traces compactMaxID [] acc = acc"
| "merge_traces compactMaxID ((seq, file) # rest) (evs, maxSeq) =
     merge_traces compactMaxID rest
       (if seq \<le> compactMaxID then (evs, maxSeq)
        else case file of
               None \<Rightarrow> (evs, maxSeq)
             | Some evt \<Rightarrow> (evs @ [evt], if seq > maxSeq then seq else maxSeq))"

definition LoadEvents :: "uuid \<Rightarrow> backend \<Rightarrow> error + TaskEvent list \<times> int" where
  "LoadEvents i b =
     (if \<not> has_traces (dir_at b i) then Inr ([], 0)
      else if io_fails b (IOReadTraces i) \<or> io_fails b (IOReadCompact i) then Inl ErrIO
      else let compacted = compact_lines (dir_at b i);
               compactMaxID = max_event_ID compacted;
               (evs, maxSeq) = merge_traces compactMaxID (trace_files (dir_at b i)) (compacted, compactMaxID)
           in Inr (sort_key ev_ID evs, maxSeq))"

definition CompactEvents :: "uuid \<Rightarrow> TaskEvent list \<Rightarrow> backend \<Rightarrow> backend \<times> (error + unit)" where
  "CompactEvents i evs b =
     (if \<not> has_traces (dir_at b i) then (b, Inr ())
      else if io_fails b (IOReadTraces i) \<or> io_fails b (IOWriteCompact i) then (b, Inl ErrIO)
      else let maxID = max_event_ID evs
           in (put_dir i ((dir_at b i)\<lparr>compact_file := Some (map Some evs),
                 trace_files := filter (\<lambda>(seq, file). seq > maxID \<or> io_fails b (IORemoveTrace i seq))
                   (trace_files (dir_at b i))\<rparr>) b, Inr ()))"

section \<open>Laws of the blob interface\<close>

text \<open>
  What the store relies on from its blobs: a failed call changes nothing, a written blob is
  found until it is deleted, and no call touches another task's or another key's blob.
  Reads may fail at any time, so the laws speak about presence and about what a successful
  read returns.
\<close>

locale blob_store =
  fixes save :: "uuid \<Rightarrow> string \<Rightarrow> blob \<Rightarrow> 'b \<Rightarrow> 'b \<times> (error + unit)"
    and read :: "uuid \<Rightarrow> string \<Rightarrow> 'b \<Rightarrow> error + blob"
    and del :: "uuid \<Rightarrow> string \<Rightarrow> 'b \<Rightarrow> 'b \<times> (error + unit)"
  assumes save_err: "save i k d b = (b', Inl e) \<Longrightarrow> b' = b"
    and save_ok: "save i k d b = (b', Inr u) \<Longrightarrow> read i k b' = Inr d \<or> read i k b' = Inl ErrIO"
    and save_frame: "save i k d b = (b', Inr u) \<Longrightarrow> (j, k') \<noteq> (i, k) \<Longrightarrow> read j k' b' = read j k' b"
    and del_err: "del i k b = (b', Inl e) \<Longrightarrow> b' = b"
    and del_missing: "del i k b = (b', Inl ErrNotExist) \<Longrightarrow> read i k b = Inl ErrNotExist"
    and del_ok: "del i k b = (b', Inr u) \<Longrightarrow> read i k b' = Inl ErrNotExist"
    and del_frame: "del i k b = (b', Inr u) \<Longrightarrow> (j, k') \<noteq> (i, k) \<Longrightarrow> read j k' b' = read j k' b"
begin

definition present :: "uuid \<Rightarrow> string \<Rightarrow> 'b \<Rightarrow> bool" where
  "present i k b \<longleftrightarrow> read i k b \<noteq> Inl ErrNotExist"

lemma present_save:
  assumes "save i k d b = (b', r)"
  shows "present j k' b' \<longleftrightarrow> present j k' b \<or> (r = Inr () \<and> j = i \<and> k' = k)"
proof (cases r)
  case (Inl e)
  then show ?thesis using save_err[of i k d b b' e] assms by simp
next
  case (Inr u)
  then show ?thesis
    using assms save_ok[of i k d b b'] save_frame[of i k d b b' u j k']
    by (cases "(j, k') = (i, k)") (auto simp: present_def)
qed

lemma present_del:
  assumes "del i k b = (b', r)" "r = Inr () \<or> r = Inl ErrNotExist"
  shows "present j k' b' \<longleftrightarrow> present j k' b \<and> (j, k') \<noteq> (i, k)"
proof (cases r)
  case (Inl e)
  then show ?thesis
    using assms del_err[of i k b b' e] del_missing[of i k b b'] by (auto simp: present_def)
next
  case (Inr u)
  then show ?thesis
    using assms del_ok[of i k b b'] del_frame[of i k b b' u j k']
    by (cases "(j, k') = (i, k)") (auto simp: present_def)
qed

lemma save_then_delete:
  assumes "save i k d b = (b1, Inr ())" "del i k b1 = (b2, Inr ())"
  shows "\<not> present i k b2" "(j, k') \<noteq> (i, k) \<Longrightarrow> present j k' b2 \<longleftrightarrow> present j k' b"
  using present_save[OF assms(1)] present_del[OF assms(2)] by auto

end

lemma dir_at_put [simp]: "dir_at (put_dir i d b) j = (if j = i then d else dir_at b j)"
  by (simp add: dir_at_def put_dir_def map_at_put)

lemma io_fails_put [simp]: "io_fails (put_dir i d b) = io_fails b"
  by (simp add: put_dir_def)

interpretation fs_blobs: blob_store SaveBlob ReadBlob DeleteBlob
proof
  fix i k d b b' e
  assume "SaveBlob i k d b = (b', Inl e)"
  then show "b' = b" by (auto simp: SaveBlob_def split: if_splits)
next
  fix i k d b b' u
  assume "SaveBlob i k d b = (b', Inr u)"
  then show "ReadBlob i k b' = Inr d \<or> ReadBlob i k b' = Inl ErrIO"
    by (auto simp: SaveBlob_def ReadBlob_def split: if_splits)
next
  fix i k d b b' u and j :: uuid and k' :: string
  assume "SaveBlob i k d b = (b', Inr u)" "(j, k') \<noteq> (i, k)"
  then show "ReadBlob j k' b' = ReadBlob j k' b"
    by (auto simp: SaveBlob_def ReadBlob_def map_get_put split: if_splits option.splits)
next
  fix i k b b' e
  assume "DeleteBlob i k b = (b', Inl e)"
  then show "b' = b" by (auto simp: DeleteBlob_def split: option.splits if_splits)
next
  fix i k b b'
  assume "DeleteBlob i k b = (b', Inl ErrNotExist)"
  then show "ReadBlob i k b = Inl ErrNotExist"
    by (auto simp: DeleteBlob_def ReadBlob_def split: option.splits if_splits)
next
  fix i k b b' u
  assume "DeleteBlob i k b = (b', Inr u)"
  then show "ReadBlob i k b' = Inl ErrNotExist"
    by (auto simp: DeleteBlob_def ReadBlob_def map_get_del split: option.splits if_splits)
next
  fix i k b b' u and j :: uuid and k' :: string
  assume "DeleteBlob i k b = (b', Inr u)" "(j, k') \<noteq> (i, k)"
  then show "ReadBlob j k' b' = ReadBlob j k' b"
    by (auto simp: DeleteBlob_def ReadBlob_def map_get_del split: option.splits if_splits)
qed

end
