(* ===== verification/Task_Normalize.thy ===== *)
theory Task_Normalize
  imports Store_Backend
begin

text \<open>
  Normalisation of task fields and the migration of stored tasks
  (\<open>internal/store/migrate.go\<close>, the helpers of \<open>tasks_create_delete.go\<close> and
  \<open>tasks_worktree.go\<close>, \<open>internal/harness/id.go\<close>). The Unicode lower-case table of the
  standard library and the third-party package \<open>google/uuid\<close> are the parameter \<open>lib\<close>;
  \<open>lib_ok\<close> is what the code relies on: the canonical text of an identifier parses back to
  it and carries no surrounding white space.
\<close>

record lib =
  unicode_lower :: "rune \<Rightarrow> rune"
  uuid_Parse :: "string \<Rightarrow> uuid option"
  uuid_String :: "uuid \<Rightarrow> string"

definition lib_ok :: "lib \<Rightarrow> bool" where
  "lib_ok L \<longleftrightarrow> (\<forall>u. uuid_Parse L (uuid_String L u) = Some u)
     \<and> (\<forall>u. TrimSpace (uuid_String L u) = uuid_String L u)"

abbreviation lower :: "lib \<Rightarrow> string \<Rightarrow> string" where
  "lower L s \<equiv> ToLower (unicode_lower L) s"

section \<open>Harness identifiers\<close>

definition harness_registry :: "harness_ID list" where
  "harness_registry = [''claude'', ''codex'', ''cursor'', ''opencode'', ''pi'', ''topos'']"

definition NormalizeID :: "lib \<Rightarrow> string \<Rightarrow> harness_ID" where
  "NormalizeID L value = lower L (TrimSpace value)"

definition ParseID :: "lib \<Rightarrow> string \<Rightarrow> harness_ID option" where
  "ParseID L value =
     (let i = NormalizeID L value in if i \<in> set harness_registry then Some i else None)"

section \<open>Field normalisation\<close>

definition clampTimeout :: "int \<Rightarrow> int" where
  "clampTimeout v = (if v \<le> 0 then 60 else if v > 1440 then 1440 else v)"

definition clampNonNeg :: "'a::linordered_idom \<Rightarrow> 'a" where
  "clampNonNeg v = (if v < 0 then 0 else v)"

definition defaultAutoRetryBudget :: "(FailureCategory, int) gomap" where
  "defaultAutoRetryBudget =
     [(FailureCategoryContainerCrash, 2), (FailureCategorySyncError, 2), (FailureCategoryWorktree, 1)]"

definition freshAutoRetryBudget :: "(FailureCategory, int) gomap option" where
  "freshAutoRetryBudget = Some
     [(FailureCategoryContainerCrash, map_at 0 defaultAutoRetryBudget FailureCategoryContainerCrash),
      (FailureCategorySyncError, map_at 0 defaultAutoRetryBudget FailureCategorySyncError),
      (FailureCategoryWorktree, map_at 0 defaultAutoRetryBudget FailureCategoryWorktree)]"

definition normalizeSandboxByActivity ::
  "lib \<Rightarrow> (SandboxActivity, harness_ID) gomap \<Rightarrow> (SandboxActivity, harness_ID) gomap" where
  "normalizeSandboxByActivity L input =
     fold (\<lambda>(k, v) out.
         let key = lower L (TrimSpace k) in
         if key \<notin> set SandboxActivities then out
         else case ParseID L v of None \<Rightarrow> out | Some val \<Rightarrow> map_put key val out)
       input []"

fun canonicalize_loop ::
  "lib \<Rightarrow> string list \<Rightarrow> uuid list \<Rightarrow> string list \<Rightarrow> string list" where
  "canonicalize_loop L [] seen out = out"
| "canonicalize_loop L (dep # deps) seen out =
     (case uuid_Parse L (TrimSpace dep) of
        None \<Rightarrow> canonicalize_loop L deps seen out
      | Some i \<Rightarrow>
          if i \<in> set seen then canonicalize_loop L deps seen out
          else canonicalize_loop L deps (i # seen) (out @ [uuid_String L i]))"

definition canonicalizeDependsOn :: "lib \<Rightarrow> string list \<Rightarrow> string list" where
  "canonicalizeDependsOn L deps = sort (canonicalize_loop L deps [] [])"

section \<open>Migration\<close>

text \<open>
  \<open>migrateTaskJSON\<close> stores the address of the local \<open>task.Model\<close> in \<open>ModelOverride\<close> and then
  assigns to \<open>task.Model\<close>. The model keeps the pointer until the function returns.
\<close>

datatype override_ptr = OverrideNil | OverrideTo string | OverrideToModelField

fun deref_override :: "override_ptr \<Rightarrow> Task \<Rightarrow> string option" where
  "deref_override OverrideNil t = None"
| "deref_override (OverrideTo s) t = Some s"
| "deref_override OverrideToModelField t = Some (Model t)"

definition migrate_Model :: "Task \<Rightarrow> Task \<times> override_ptr \<times> bool" where
  "migrate_Model t =
     (if Model t \<noteq> '''' \<and> ModelOverride t = None
      then (t\<lparr>Model := ''''\<rparr>, OverrideToModelField, True)
      else (t, case ModelOverride t of None \<Rightarrow> OverrideNil | Some s \<Rightarrow> OverrideTo s, False))"

definition step_if :: "bool \<Rightarrow> (Task \<Rightarrow> Task) \<Rightarrow> Task \<times> bool \<Rightarrow> Task \<times> bool" where
  "step_if c f st = (if c then (f (fst st), True) else st)"

definition same_map :: "('k, 'v) gomap \<Rightarrow> ('k, 'v) gomap \<Rightarrow> bool" where
  "same_map m m' \<longleftrightarrow> list_all (\<lambda>(k, v). map_get m' k = map_get m k) m
     \<and> list_all (\<lambda>(k, v). map_get m k = map_get m' k) m'"

abbreviation CurrentTaskSchemaVersion :: int where
  "CurrentTaskSchemaVersion \<equiv> 2"

definition migrate_Status :: "Task \<times> bool \<Rightarrow> Task \<times> bool" where
  "migrate_Status st = step_if (Status (fst st) = TaskStatusOther []) (\<lambda>t. t\<lparr>Status := TaskStatusBacklog\<rparr>) st"

definition migrate_Timeout :: "Task \<times> bool \<Rightarrow> Task \<times> bool" where
  "migrate_Timeout st = step_if (Timeout (fst st) = 0) (\<lambda>t. t\<lparr>Timeout := clampTimeout 0\<rparr>) st"

definition migrate_CreatedAt :: "time \<Rightarrow> Task \<times> bool \<Rightarrow> Task \<times> bool" where
  "migrate_CreatedAt fileModTime st =
     step_if (IsZero (CreatedAt (fst st))) (\<lambda>t. t\<lparr>CreatedAt := fileModTime\<rparr>) st"

definition migrate_UpdatedAt :: "time \<Rightarrow> Task \<times> bool \<Rightarrow> Task \<times> bool" where
  "migrate_UpdatedAt fileModTime st =
     step_if (IsZero (UpdatedAt (fst st))) (\<lambda>t. t\<lparr>UpdatedAt := fileModTime\<rparr>) st"

definition migrate_DependsOn :: "lib \<Rightarrow> Task \<times> bool \<Rightarrow> Task \<times> bool" where
  "migrate_DependsOn L st =
     (let canon = canonicalizeDependsOn L (DependsOn (fst st)) in
      step_if (DependsOn (fst st) \<noteq> [] \<and> canon \<noteq> DependsOn (fst st)) (\<lambda>t. t\<lparr>DependsOn := canon\<rparr>) st)"

definition migrate_Sandbox :: "lib \<Rightarrow> Task \<times> bool \<Rightarrow> Task \<times> bool" where
  "migrate_Sandbox L st =
     (let normalSandbox = NormalizeID L (Sandbox (fst st)) in
      step_if (normalSandbox \<noteq> Sandbox (fst st)) (\<lambda>t. t\<lparr>Sandbox := normalSandbox\<rparr>) st)"

definition migrate_SandboxByActivity :: "lib \<Rightarrow> Task \<times> bool \<Rightarrow> Task \<times> bool" where
  "migrate_SandboxByActivity L st =
     (let normalSBA = normalizeSandboxByActivity L (SandboxByActivity (fst st)) in
      step_if (\<not> same_map normalSBA (SandboxByActivity (fst st)))
        (\<lambda>t. t\<lparr>SandboxByActivity := normalSBA\<rparr>) st)"

definition migrate_AutoRetryBudget :: "Task \<times> bool \<Rightarrow> Task \<times> bool" where
  "migrate_AutoRetryBudget st =
     step_if (AutoRetryBudget (fst st) = None)
       (\<lambda>t. t\<lparr>AutoRetryBudget := Some [(FailureCategoryContainerCrash, 2),
          (FailureCategorySyncError, 2), (FailureCategoryWorktree, 1)]\<rparr>) st"

definition migrate_SchemaVersion :: "Task \<times> bool \<Rightarrow> Task \<times> bool" where
  "migrate_SchemaVersion st =
     step_if (SchemaVersion (fst st) \<noteq> CurrentTaskSchemaVersion)
       (\<lambda>t. t\<lparr>SchemaVersion := CurrentTaskSchemaVersion\<rparr>) st"

definition migrate_fields :: "lib \<Rightarrow> time \<Rightarrow> Task \<times> bool \<Rightarrow> Task \<times> bool" where
  "migrate_fields L fileModTime st =
     migrate_SchemaVersion (migrate_AutoRetryBudget (migrate_SandboxByActivity L (migrate_Sandbox L
       (migrate_DependsOn L (migrate_UpdatedAt fileModTime (migrate_CreatedAt fileModTime
         (migrate_Timeout (migrate_Status st))))))))"

definition migrateTaskJSON :: "lib \<Rightarrow> Task option \<Rightarrow> time \<Rightarrow> error + Task \<times> bool" where
  "migrateTaskJSON L raw fileModTime =
     (case raw of
        None \<Rightarrow> Inl ErrCorrupt
      | Some t0 \<Rightarrow>
          let (t1, ptr, changed1) = migrate_Model t0;
              (t2, changed2) = migrate_fields L fileModTime (t1, changed1)
          in Inr (t2\<lparr>ModelOverride := deref_override ptr t2\<rparr>, changed2))"

text \<open>
  \<open>LoadAll\<close>: every readable and parseable task of the data directory, migrated; a migrated
  task is written back and a failure to do so is only logged. \<open>mtime\<close> is the modification
  time of a task file.
\<close>

fun load_tasks ::
  "lib \<Rightarrow> (uuid \<Rightarrow> time) \<Rightarrow> (uuid \<times> taskdir) list \<Rightarrow> backend \<times> Task list \<Rightarrow> backend \<times> Task list" where
  "load_tasks L mtime [] acc = acc"
| "load_tasks L mtime ((i, d) # rest) (b, ts) =
     load_tasks L mtime rest
       (case task_file d of
          None \<Rightarrow> (b, ts)
        | Some raw \<Rightarrow>
            if io_fails b (IOReadTask i) then (b, ts)
            else (case migrateTaskJSON L raw (mtime i) of
                    Inl _ \<Rightarrow> (b, ts)
                  | Inr (t, changed) \<Rightarrow> (if changed then fst (SaveTask t b) else b, ts @ [t])))"

definition LoadAll :: "lib \<Rightarrow> (uuid \<Rightarrow> time) \<Rightarrow> backend \<Rightarrow> backend \<times> (error + Task list)" where
  "LoadAll L mtime b =
     (if io_fails b IOReadRoot then (b, Inl ErrIO)
      else let (b', ts) = load_tasks L mtime (dirs b) (b, []) in (b', Inr ts))"

section \<open>Lemmas\<close>

lemma clampTimeout_bounds: "1 \<le> clampTimeout v \<and> clampTimeout v \<le> 1440"
  by (simp add: clampTimeout_def)

lemma clampTimeout_idem: "clampTimeout (clampTimeout v) = clampTimeout v"
  by (simp add: clampTimeout_def)

lemma clampNonNeg_ge [simp]: "0 \<le> clampNonNeg v"
  by (simp add: clampNonNeg_def)

text \<open>The identifiers a list of dependency strings names, in order of first occurrence.\<close>

definition dep_ids :: "lib \<Rightarrow> string list \<Rightarrow> uuid list" where
  "dep_ids L deps = List.map_filter (\<lambda>dep. uuid_Parse L (TrimSpace dep)) deps"

lemma dep_ids_simps [simp]:
  "dep_ids L [] = []"
  "dep_ids L (dep # deps) =
     (case uuid_Parse L (TrimSpace dep) of None \<Rightarrow> dep_ids L deps | Some i \<Rightarrow> i # dep_ids L deps)"
  by (simp_all add: dep_ids_def List.map_filter_simps split: option.split)

lemma uuid_String_inj: "lib_ok L \<Longrightarrow> uuid_String L i = uuid_String L j \<longleftrightarrow> i = j"
  by (metis lib_ok_def option.inject)

lemma canonicalize_loop_inv:
  assumes "lib_ok L" "distinct out" "set out = uuid_String L ` set seen"
  shows "distinct (canonicalize_loop L deps seen out)
     \<and> set (canonicalize_loop L deps seen out) = uuid_String L ` (set seen \<union> set (dep_ids L deps))"
  using assms
proof (induction L deps seen out rule: canonicalize_loop.induct)
  case (2 L dep deps seen out)
  show ?case
  proof (cases "uuid_Parse L (TrimSpace dep)")
    case None
    with 2 show ?thesis by simp
  next
    case (Some i)
    show ?thesis
    proof (cases "i \<in> set seen")
      case True
      with 2(2)[OF Some] 2(4-6) Some show ?thesis by auto
    next
      case False
      have "uuid_String L i \<notin> set out"
        using False 2(4,6) uuid_String_inj[OF 2(4)] by auto
      with 2(3)[OF Some False] 2(4-6) Some False show ?thesis by auto
    qed
  qed
qed simp

lemma dep_ids_strings: "lib_ok L \<Longrightarrow> dep_ids L (map (uuid_String L) is) = is"
  by (induction "is") (simp_all add: lib_ok_def)

lemma dep_ids_set: "set (dep_ids L deps) = {i. \<exists>dep \<in> set deps. uuid_Parse L (TrimSpace dep) = Some i}"
  by (induction deps) (auto split: option.splits)

text \<open>
  Canonical dependencies. The result is sorted and free of duplicates, and it is
  exactly the canonical text of the identifiers that the well-formed entries name: nothing
  is lost, and entries that differ only in case, format or spacing are merged.
\<close>

theorem canonicalizeDependsOn_correct:
  assumes "lib_ok L"
  shows "sorted (canonicalizeDependsOn L deps) \<and> distinct (canonicalizeDependsOn L deps)
    \<and> set (canonicalizeDependsOn L deps) = uuid_String L ` set (dep_ids L deps)
    \<and> canonicalizeDependsOn L (canonicalizeDependsOn L deps) = canonicalizeDependsOn L deps"
proof -
  have 1: "sorted (canonicalizeDependsOn L ds)" "distinct (canonicalizeDependsOn L ds)"
    "set (canonicalizeDependsOn L ds) = uuid_String L ` set (dep_ids L ds)" for ds
    using canonicalize_loop_inv[OF assms, of "[]" "[]" ds] by (simp_all add: canonicalizeDependsOn_def)
  have "set (dep_ids L (canonicalizeDependsOn L deps)) = set (dep_ids L deps)"
    unfolding dep_ids_set[of L "canonicalizeDependsOn L deps"] 1(3)
    using assms by (auto simp: lib_ok_def)
  then have "set (canonicalizeDependsOn L (canonicalizeDependsOn L deps)) = set (canonicalizeDependsOn L deps)"
    using 1(3) by simp
  then have "canonicalizeDependsOn L (canonicalizeDependsOn L deps) = canonicalizeDependsOn L deps"
    using 1(1,2) sorted_distinct_set_unique by blast
  with 1 show ?thesis by blast
qed

text \<open>
  A concrete instance of the library parameters, for evaluating the model: identifiers are
  written in unary and the lower-case table is the identity outside ASCII.
\<close>

definition unary_lib :: lib where
  "unary_lib = \<lparr>unicode_lower = (\<lambda>r. r),
     uuid_Parse = (\<lambda>s. if s \<noteq> [] \<and> list_all (\<lambda>c. c = CHR ''x'') s then Some (length s - 1) else None),
     uuid_String = (\<lambda>u. replicate (Suc u) (CHR ''x''))\<rparr>"

lemma TrimSpace_id:
  assumes "is_ascii s" "list_all (\<lambda>c. \<not> is_space (byte c)) s"
  shows "TrimSpace s = s"
proof -
  have d: "dropWhile (is_space \<circ> fst) rs = rs" if "set rs \<subseteq> set (runes s)" for rs
    using that assms by (cases rs) (auto simp: runes_ascii list_all_iff)
  show ?thesis by (simp add: TrimSpace_def d)
qed

lemma unary_lib_ok: "lib_ok unary_lib"
proof -
  have "TrimSpace (replicate (Suc u) (CHR ''x'')) = replicate (Suc u) (CHR ''x'')" for u
    by (rule TrimSpace_id) (auto simp: is_ascii_def list_all_iff byte_def is_space_def)
  then show ?thesis
    by (simp add: lib_ok_def unary_lib_def list_all_iff)
qed

theorem canonicalizeDependsOn_correct_witness:
  "lib_ok unary_lib \<and> canonicalizeDependsOn unary_lib [''xx'', ''x'', ''bad'', ''xx''] = [''x'', ''xx'']
   \<and> sorted [''x'', ''xx'']"
proof -
  have "TrimSpace ''x'' = ''x''" "TrimSpace ''xx'' = ''xx''" "TrimSpace ''bad'' = ''bad''"
    by (rule TrimSpace_id; simp add: is_ascii_def byte_def is_space_def)+
  then have "canonicalizeDependsOn unary_lib [''xx'', ''x'', ''bad'', ''xx''] = [''x'', ''xx'']"
    by (simp add: canonicalizeDependsOn_def unary_lib_def sort_key_def)
  with canonicalizeDependsOn_correct[OF unary_lib_ok, of "[''xx'', ''x'', ''bad'', ''xx'']"] unary_lib_ok
  show ?thesis by simp
qed

section \<open>Properties of migration\<close>

lemma step_if_simps [simp]:
  "snd (step_if c f st) \<longleftrightarrow> c \<or> snd st" "fst (step_if c f st) = (if c then f (fst st) else fst st)"
  by (auto simp: step_if_def)

definition migrated :: "Task \<Rightarrow> bool" where
  "migrated t \<longleftrightarrow> SchemaVersion t = CurrentTaskSchemaVersion \<and> Status t \<noteq> TaskStatusOther ''''
     \<and> Timeout t \<noteq> 0 \<and> AutoRetryBudget t \<noteq> None"

definition refines_task :: "Task \<times> bool \<Rightarrow> Task \<times> bool \<Rightarrow> bool" where
  "refines_task st st' \<longleftrightarrow> ID (fst st') = ID (fst st) \<and> Prompt (fst st') = Prompt (fst st)
     \<and> Model (fst st') = Model (fst st) \<and> (snd st \<longrightarrow> snd st') \<and> (\<not> snd st' \<longrightarrow> fst st' = fst st)"

lemma refines_task_trans: "refines_task a b \<Longrightarrow> refines_task b c \<Longrightarrow> refines_task a c"
  by (auto simp: refines_task_def)

lemmas migrate_defs = migrate_Status_def migrate_Timeout_def migrate_CreatedAt_def migrate_UpdatedAt_def
  migrate_DependsOn_def migrate_Sandbox_def migrate_SandboxByActivity_def migrate_AutoRetryBudget_def
  migrate_SchemaVersion_def

lemma migrate_refines:
  "refines_task st (migrate_Status st)" "refines_task st (migrate_Timeout st)"
  "refines_task st (migrate_CreatedAt m st)" "refines_task st (migrate_UpdatedAt m st)"
  "refines_task st (migrate_DependsOn L st)" "refines_task st (migrate_Sandbox L st)"
  "refines_task st (migrate_SandboxByActivity L st)" "refines_task st (migrate_AutoRetryBudget st)"
  "refines_task st (migrate_SchemaVersion st)"
  by (simp_all add: refines_task_def migrate_defs Let_def)

lemmas refines_steps = migrate_refines[THEN refines_task_trans[rotated]]

lemma refines_task_refl: "refines_task st st"
  by (simp add: refines_task_def)

lemma migrate_Status_kept:
  "Status (fst (migrate_Timeout st)) = Status (fst st)" "Status (fst (migrate_CreatedAt m st)) = Status (fst st)"
  "Status (fst (migrate_UpdatedAt m st)) = Status (fst st)" "Status (fst (migrate_DependsOn L st)) = Status (fst st)"
  "Status (fst (migrate_Sandbox L st)) = Status (fst st)"
  "Status (fst (migrate_SandboxByActivity L st)) = Status (fst st)"
  "Status (fst (migrate_AutoRetryBudget st)) = Status (fst st)"
  "Status (fst (migrate_SchemaVersion st)) = Status (fst st)"
  by (simp_all add: migrate_defs Let_def)

lemma migrate_Timeout_kept:
  "Timeout (fst (migrate_CreatedAt m st)) = Timeout (fst st)"
  "Timeout (fst (migrate_UpdatedAt m st)) = Timeout (fst st)"
  "Timeout (fst (migrate_DependsOn L st)) = Timeout (fst st)"
  "Timeout (fst (migrate_Sandbox L st)) = Timeout (fst st)"
  "Timeout (fst (migrate_SandboxByActivity L st)) = Timeout (fst st)"
  "Timeout (fst (migrate_AutoRetryBudget st)) = Timeout (fst st)"
  "Timeout (fst (migrate_SchemaVersion st)) = Timeout (fst st)"
  by (simp_all add: migrate_defs Let_def)

lemma migrate_establishes:
  "Status (fst (migrate_Status st)) \<noteq> TaskStatusOther []" "Timeout (fst (migrate_Timeout st)) \<noteq> 0"
  "AutoRetryBudget (fst (migrate_SchemaVersion (migrate_AutoRetryBudget st))) \<noteq> None"
  "SchemaVersion (fst (migrate_SchemaVersion st)) = CurrentTaskSchemaVersion"
  by (simp_all add: migrate_defs clampTimeout_def)

lemma migrate_fields_ok:
  "migrated (fst (migrate_fields L m st)) \<and> refines_task st (migrate_fields L m st)"
  unfolding migrate_fields_def migrated_def migrate_Status_kept migrate_Timeout_kept
  by (intro conjI migrate_establishes refines_steps refines_task_refl)

lemma migrateTaskJSON_ok_ex: "\<exists>t' changed. migrateTaskJSON L (Some t) m = Inr (t', changed)"
  by (simp add: migrateTaskJSON_def split: prod.split)



text \<open>
  Migration loses the model of an old task. The deprecated \<open>Model\<close> is meant to become
  \<open>ModelOverride\<close>, but the override points at the field that is cleared next, so every
  migrated task gets the empty string as its override.
\<close>

theorem migrateTaskJSON_loses_model:
  assumes "Model t \<noteq> ''''" "ModelOverride t = None" "migrateTaskJSON L (Some t) m = Inr (t', changed)"
  shows "ModelOverride t' = Some '''' \<and> Model t' = ''''"
  using assms migrate_fields_ok[of L m "(t\<lparr>Model := ''''\<rparr>, True)"]
  by (auto simp: migrateTaskJSON_def migrate_Model_def refines_task_def split: prod.splits)

theorem migrateTaskJSON_loses_model_witness:
  "\<exists>t' changed. migrateTaskJSON unary_lib (Some (zero_task\<lparr>Model := ''opus''\<rparr>)) 9 = Inr (t', changed)
     \<and> ModelOverride t' = Some ''''"
proof -
  obtain t' c where t': "migrateTaskJSON unary_lib (Some (zero_task\<lparr>Model := ''opus''\<rparr>)) 9 = Inr (t', c)"
    using migrateTaskJSON_ok_ex[of unary_lib] by blast
  then show ?thesis
    using migrateTaskJSON_loses_model[OF _ _ t'] by (simp add: zero_task_def)
qed

end
