(* ===== verification/Pubsub.thy ===== *)
theory Pubsub
  imports Prelude
begin

text \<open>
  The fan-out hub of \<open>internal/pkg/pubsub/hub.go\<close>. A channel made by \<open>Subscribe\<close> is
  shared between the hub and its consumer, so channels live in a heap \<open>chans\<close> and the
  subscriber map holds addresses into it. A send on a closed channel and a close of a
  closed channel panic in Go; \<open>Publish\<close> returns \<open>None\<close> there. Sequence numbers are
  unbounded integers: 2^63 publishes are out of reach.
\<close>

section \<open>State\<close>

abbreviation DefaultReplayCapacity :: nat where
  "DefaultReplayCapacity \<equiv> 512"

abbreviation DefaultChannelSize :: nat where
  "DefaultChannelSize \<equiv> 256"

record 'a sequenced =
  Seq :: int
  Value :: 'a

record 'a chan =
  items :: "'a sequenced list"
  capacity :: nat
  closed :: bool

record 'a hub =
  deltaSeq :: int
  replayBuf :: "'a sequenced list"
  replayCap :: nat
  subscribers :: "(int, nat) gomap"
  nextSubID :: int
  channelSize :: nat
  wakeSubscribers :: "(int, bool) gomap"
  nextWakeSubID :: int
  clone :: "('a \<Rightarrow> 'a) option"
  chans :: "'a chan list"

section \<open>Construction\<close>

type_synonym 'a hub_option = "'a hub \<Rightarrow> 'a hub"

definition WithReplayCapacity :: "nat \<Rightarrow> 'a hub_option" where
  "WithReplayCapacity n h = h\<lparr>replayCap := n\<rparr>"

definition WithChannelSize :: "nat \<Rightarrow> 'a hub_option" where
  "WithChannelSize n h = h\<lparr>channelSize := n\<rparr>"

definition WithClone :: "('a \<Rightarrow> 'a) \<Rightarrow> 'a hub_option" where
  "WithClone f h = h\<lparr>clone := Some f\<rparr>"

definition NewHub :: "'a hub_option list \<Rightarrow> 'a hub" where
  "NewHub opts = fold (\<lambda>opt h. opt h) opts
     \<lparr>deltaSeq = 0, replayBuf = [], replayCap = DefaultReplayCapacity, subscribers = [],
      nextSubID = 0, channelSize = DefaultChannelSize, wakeSubscribers = [], nextWakeSubID = 0,
      clone = None, chans = []\<rparr>"

definition cloneValue :: "'a hub \<Rightarrow> 'a \<Rightarrow> 'a" where
  "cloneValue h v = (case clone h of Some f \<Rightarrow> f v | None \<Rightarrow> v)"

section \<open>Publishing\<close>

definition trim_replay :: "nat \<Rightarrow> 'a sequenced list \<Rightarrow> 'a sequenced list" where
  "trim_replay cap buf = (if length buf > cap then drop (length buf - cap) buf else buf)"

text \<open>
  One non-blocking send. The result is the heap and the identifiers marked for
  eviction; \<open>None\<close> is the panic of a send on a closed channel.
\<close>

definition send_one ::
  "'a sequenced \<Rightarrow> int \<times> nat \<Rightarrow> 'a chan list \<times> int list \<Rightarrow> ('a chan list \<times> int list) option" where
  "send_one e sub st =
     (let (i, a) = sub; (cs, overflowed) = st; ch = cs ! a in
      if closed ch then None
      else if length (items ch) < capacity ch
      then Some (cs[a := ch\<lparr>items := items ch @ [e]\<rparr>], overflowed)
      else Some (cs[a := ch\<lparr>closed := True\<rparr>], overflowed @ [i]))"

fun fan_out ::
  "'a sequenced \<Rightarrow> (int \<times> nat) list \<Rightarrow> 'a chan list \<times> int list \<Rightarrow> ('a chan list \<times> int list) option" where
  "fan_out e [] st = Some st"
| "fan_out e (sub # subs) st =
     (case send_one e sub st of None \<Rightarrow> None | Some st' \<Rightarrow> fan_out e subs st')"

text \<open>
  \<open>deltaSeq.Add(1)\<close> runs before \<open>replayMu\<close> is taken, so a publish is two atomic parts:
  drawing the number, and the locked sections that use it.
\<close>

definition begin_publish :: "'a hub \<Rightarrow> 'a hub \<times> int" where
  "begin_publish h = (h\<lparr>deltaSeq := deltaSeq h + 1\<rparr>, deltaSeq h + 1)"

definition finish_publish :: "int \<Rightarrow> 'a \<Rightarrow> 'a hub \<Rightarrow> 'a hub option" where
  "finish_publish seq value h =
     (let h1 = h\<lparr>replayBuf := trim_replay (replayCap h)
                  (replayBuf h @ [\<lparr>Seq = seq, Value = cloneValue h value\<rparr>])\<rparr>
      in case fan_out \<lparr>Seq = seq, Value = cloneValue h value\<rparr> (subscribers h1) (chans h1, []) of
           None \<Rightarrow> None
         | Some (cs, overflowed) \<Rightarrow>
             Some (h1\<lparr>chans := cs,
                      subscribers := fold map_del overflowed (subscribers h1),
                      wakeSubscribers := map (\<lambda>(i, pending). (i, True)) (wakeSubscribers h1)\<rparr>))"

definition Publish :: "'a \<Rightarrow> 'a hub \<Rightarrow> 'a hub option" where
  "Publish value h = (let (h1, seq) = begin_publish h in finish_publish seq value h1)"

section \<open>Subscribing\<close>

definition Subscribe :: "'a hub \<Rightarrow> 'a hub \<times> int \<times> nat" where
  "Subscribe h =
     (h\<lparr>nextSubID := nextSubID h + 1,
        chans := chans h @ [\<lparr>items = [], capacity = channelSize h, closed = False\<rparr>],
        subscribers := map_put (nextSubID h) (length (chans h)) (subscribers h)\<rparr>,
      nextSubID h, length (chans h))"

definition SubscribeWake :: "'a hub \<Rightarrow> 'a hub \<times> int" where
  "SubscribeWake h =
     (h\<lparr>nextWakeSubID := nextWakeSubID h + 1,
        wakeSubscribers := map_put (nextWakeSubID h) False (wakeSubscribers h)\<rparr>,
      nextWakeSubID h)"

text \<open>
  \<open>Unsubscribe\<close> drains the channel with a loop that stops at the first failed receive.
  On a closed channel every receive succeeds, so the loop would not return: \<open>None\<close>.
\<close>

definition Unsubscribe :: "int \<Rightarrow> 'a hub \<Rightarrow> 'a hub option" where
  "Unsubscribe i h =
     (case map_get (subscribers h) i of
        None \<Rightarrow> Some (h\<lparr>subscribers := map_del i (subscribers h)\<rparr>)
      | Some a \<Rightarrow>
          (if closed (chans h ! a) then None
           else Some (h\<lparr>subscribers := map_del i (subscribers h),
                        chans := (chans h)[a := (chans h ! a)\<lparr>items := []\<rparr>]\<rparr>)))"

definition UnsubscribeWake :: "int \<Rightarrow> 'a hub \<Rightarrow> 'a hub" where
  "UnsubscribeWake i h = h\<lparr>wakeSubscribers := map_del i (wakeSubscribers h)\<rparr>"

definition SubscriberCount :: "'a hub \<Rightarrow> nat" where
  "SubscriberCount h = length (subscribers h)"

definition LatestSeq :: "'a hub \<Rightarrow> int" where
  "LatestSeq h = deltaSeq h"

text \<open>The consumer's side of a channel: take the oldest buffered entry, if any.\<close>

definition Receive :: "nat \<Rightarrow> 'a hub \<Rightarrow> 'a hub \<times> 'a sequenced option" where
  "Receive a h =
     (if a < length (chans h)
      then (case items (chans h ! a) of
              [] \<Rightarrow> (h, None)
            | e # es \<Rightarrow> (h\<lparr>chans := (chans h)[a := (chans h ! a)\<lparr>items := es\<rparr>]\<rparr>, Some e))
      else (h, None))"

section \<open>Replay\<close>

function search :: "'a sequenced list \<Rightarrow> int \<Rightarrow> nat \<Rightarrow> nat \<Rightarrow> nat" where
  "search buf seq lo hi =
     (if lo < hi
      then let mid = (lo + hi) div 2
           in if Seq (buf ! mid) \<le> seq then search buf seq (mid + 1) hi else search buf seq lo mid
      else lo)"
  by pat_completeness auto
termination
  by (relation "measure (\<lambda>(buf, seq, lo, hi). hi - lo)") auto

declare search.simps [simp del]

definition Since :: "int \<Rightarrow> 'a hub \<Rightarrow> 'a sequenced list \<times> bool" where
  "Since seq h =
     (case replayBuf h of
        [] \<Rightarrow> ([], False)
      | oldest # _ \<Rightarrow>
          if Seq oldest > seq + 1 then ([], True)
          else let lo = search (replayBuf h) seq 0 (length (replayBuf h))
               in (map (\<lambda>src. \<lparr>Seq = Seq src, Value = cloneValue h (Value src)\<rparr>)
                     (drop lo (replayBuf h)), False))"

section \<open>Consecutive sequence numbers\<close>

definition ends_at :: "int \<Rightarrow> int list \<Rightarrow> bool" where
  "ends_at n ss \<longleftrightarrow> (\<forall>i < length ss. ss ! i = n - int (length ss) + 1 + int i)"

lemma ends_at_Nil [simp]: "ends_at n []"
  by (simp add: ends_at_def)

lemma ends_at_snoc: "ends_at n ss \<Longrightarrow> ends_at (n + 1) (ss @ [n + 1])"
  by (auto simp: ends_at_def nth_append less_Suc_eq)

lemma ends_at_drop: "ends_at n ss \<Longrightarrow> ends_at n (drop k ss)"
  by (auto simp: ends_at_def of_nat_diff)

lemma ends_at_tl: "ends_at n (s # ss) \<Longrightarrow> ends_at n ss"
  using ends_at_drop[of n "s # ss" 1] by simp

lemma ends_at_hd: "ends_at n ss \<Longrightarrow> ss \<noteq> [] \<Longrightarrow> hd ss = n - int (length ss) + 1"
  by (simp add: ends_at_def hd_conv_nth)

lemma ends_at_sorted: "ends_at n ss \<Longrightarrow> sorted ss"
  by (simp add: ends_at_def sorted_iff_nth_mono)

section \<open>Binary search\<close>

lemma search_spec:
  assumes "sorted (map Seq buf)" "lo \<le> hi" "hi \<le> length buf"
    and "\<forall>i < lo. Seq (buf ! i) \<le> seq" "\<forall>i. hi \<le> i \<and> i < length buf \<longrightarrow> seq < Seq (buf ! i)"
  shows "search buf seq lo hi \<le> length buf
       \<and> (\<forall>i < search buf seq lo hi. Seq (buf ! i) \<le> seq)
       \<and> (\<forall>i. search buf seq lo hi \<le> i \<and> i < length buf \<longrightarrow> seq < Seq (buf ! i))"
  using assms
proof (induction buf seq lo hi rule: search.induct)
  case (1 buf seq lo hi)
  show ?case
  proof (cases "lo < hi")
    case False
    have "search buf seq lo hi = lo"
      by (subst search.simps) (simp add: False)
    with 1(4-7) False show ?thesis by simp
  next
    case True
    define mid where "mid = (lo + hi) div 2"
    have mid: "lo \<le> mid" "mid < hi" using True by (auto simp: mid_def)
    have mono: "Seq (buf ! i) \<le> Seq (buf ! j)" if "i \<le> j" "j < length buf" for i j
      using sorted_nth_mono[OF 1(3), of i j] that by simp
    show ?thesis
    proof (cases "Seq (buf ! mid) \<le> seq")
      case le: True
      have eq: "search buf seq lo hi = search buf seq (mid + 1) hi"
        by (subst search.simps) (simp add: True mid_def[symmetric] le)
      have "\<forall>i < mid + 1. Seq (buf ! i) \<le> seq"
        using order_trans[OF mono le] mid 1(5) by (simp add: less_Suc_eq_le)
      then show ?thesis
        unfolding eq using mid by (intro 1(1)[OF True mid_def le 1(3) _ 1(5) _ 1(7)]) auto
    next
      case gt: False
      have eq: "search buf seq lo hi = search buf seq lo mid"
        by (subst search.simps) (simp add: True mid_def[symmetric] gt)
      have "seq < Seq (buf ! i)" if "mid \<le> i" "i < length buf" for i
        using mono[OF that] gt by linarith
      then show ?thesis
        unfolding eq using mid 1(5) by (intro 1(2)[OF True mid_def gt 1(3) _ _ 1(6)]) auto
    qed
  qed
qed

lemma search_drop_filter:
  assumes "sorted (map Seq buf)"
  shows "drop (search buf seq 0 (length buf)) buf = filter (\<lambda>e. seq < Seq e) buf"
proof -
  define r where "r = search buf seq 0 (length buf)"
  have r: "r \<le> length buf" "\<forall>i < r. Seq (buf ! i) \<le> seq"
    "\<forall>i. r \<le> i \<and> i < length buf \<longrightarrow> seq < Seq (buf ! i)"
    using search_spec[OF assms, of 0 "length buf" seq] by (auto simp: r_def)
  have "filter (\<lambda>e. seq < Seq e) (take r buf) = []"
    using r(1,2) by (auto simp: filter_empty_conv in_set_conv_nth not_less)
  moreover have "filter (\<lambda>e. seq < Seq e) (drop r buf) = drop r buf"
    using r(1,3) by (auto simp: filter_id_conv in_set_conv_nth)
  ultimately have "filter (\<lambda>e. seq < Seq e) (take r buf @ drop r buf) = drop r buf"
    by (simp only: filter_append append_Nil)
  then show ?thesis by (simp add: r_def)
qed

section \<open>Fan-out\<close>

definition deliver :: "'a sequenced \<Rightarrow> 'a chan \<Rightarrow> 'a chan" where
  "deliver e ch = (if length (items ch) < capacity ch then ch\<lparr>items := items ch @ [e]\<rparr>
                   else ch\<lparr>closed := True\<rparr>)"

definition deliver_all :: "'a sequenced \<Rightarrow> (int \<times> nat) list \<Rightarrow> 'a chan list \<Rightarrow> 'a chan list" where
  "deliver_all e subs cs =
     map (\<lambda>a. if a \<in> snd ` set subs then deliver e (cs ! a) else cs ! a) [0..<length cs]"

definition is_full :: "'a chan list \<Rightarrow> int \<times> nat \<Rightarrow> bool" where
  "is_full cs sub \<longleftrightarrow> capacity (cs ! snd sub) \<le> length (items (cs ! snd sub))"

lemma length_deliver_all [simp]: "length (deliver_all e subs cs) = length cs"
  by (simp add: deliver_all_def)

lemma nth_deliver_all [simp]:
  "a < length cs \<Longrightarrow>
   deliver_all e subs cs ! a = (if a \<in> snd ` set subs then deliver e (cs ! a) else cs ! a)"
  by (simp add: deliver_all_def)

lemma fan_out_eq:
  assumes "distinct (map snd subs)"
    and "\<forall>sub \<in> set subs. snd sub < length cs \<and> \<not> closed (cs ! snd sub)"
  shows "fan_out e subs (cs, ov) = Some (deliver_all e subs cs, ov @ map fst (filter (is_full cs) subs))"
  using assms
proof (induction subs arbitrary: cs ov)
  case Nil
  then show ?case by (simp add: deliver_all_def map_nth)
next
  case (Cons sub subs)
  obtain i a where sub: "sub = (i, a)" by (cases sub)
  define cs' where "cs' = cs[a := deliver e (cs ! a)]"
  have a: "a < length cs" "\<not> closed (cs ! a)" "a \<notin> snd ` set subs"
    using Cons.prems sub by auto
  have same: "cs' ! snd p = cs ! snd p" if "p \<in> set subs" for p
    using that a by (auto simp: cs'_def nth_list_update)
  have step: "send_one e sub (cs, ov) = Some (cs', ov @ (if is_full cs sub then [i] else []))"
    using a by (simp add: send_one_def sub cs'_def deliver_def is_full_def Let_def)
  have full: "filter (is_full cs') subs = filter (is_full cs) subs"
    by (rule filter_cong) (simp_all add: is_full_def same)
  have all: "deliver_all e subs cs' = deliver_all e (sub # subs) cs"
    using a by (intro nth_equalityI) (auto simp: cs'_def sub nth_list_update)
  have "fan_out e subs (cs', ov') = Some (deliver_all e subs cs', ov' @ map fst (filter (is_full cs') subs))" for ov'
    using Cons.prems same by (intro Cons.IH) (auto simp: cs'_def)
  then show ?case
    by (simp add: step full all) (simp add: sub)
qed

lemma fold_map_del: "fold map_del ks m = filter (\<lambda>p. fst p \<notin> set ks) m"
proof (induction ks arbitrary: m)
  case Nil
  then show ?case by simp
next
  case (Cons k ks)
  then show ?case
    by (simp add: AList.delete_eq case_prod_unfold eq_commute[of k] conj_commute)
qed

section \<open>Invariant\<close>

definition live_chan :: "int \<Rightarrow> 'a chan \<Rightarrow> bool" where
  "live_chan n ch \<longleftrightarrow> \<not> closed ch \<and> length (items ch) \<le> capacity ch \<and> ends_at n (map Seq (items ch))"

text \<open>
  Subscriber identifiers and channel addresses are never reused, a registered channel is
  open and holds the most recent entries without a hole, and the replay buffer holds
  exactly the last \<open>replayCap\<close> entries.
\<close>

definition subs_inv :: "'a hub \<Rightarrow> bool" where
  "subs_inv h \<longleftrightarrow> wf_map (subscribers h) \<and> distinct (map snd (subscribers h)) \<and>
     (\<forall>sub \<in> set (subscribers h). fst sub < nextSubID h \<and> snd sub < length (chans h)
        \<and> live_chan (deltaSeq h) (chans h ! snd sub))"

definition replay_inv :: "'a hub \<Rightarrow> bool" where
  "replay_inv h \<longleftrightarrow> 0 \<le> deltaSeq h \<and> ends_at (deltaSeq h) (map Seq (replayBuf h)) \<and>
     int (length (replayBuf h)) = min (int (replayCap h)) (deltaSeq h)"

definition hub_inv :: "'a hub \<Rightarrow> bool" where
  "hub_inv h \<longleftrightarrow> subs_inv h \<and> replay_inv h"

definition registered :: "nat \<Rightarrow> 'a hub \<Rightarrow> bool" where
  "registered a h \<longleftrightarrow> a \<in> snd ` set (subscribers h)"

definition next_entry :: "'a \<Rightarrow> 'a hub \<Rightarrow> 'a sequenced" where
  "next_entry v h = \<lparr>Seq = deltaSeq h + 1, Value = cloneValue h v\<rparr>"

definition published :: "'a \<Rightarrow> 'a hub \<Rightarrow> 'a hub" where
  "published v h = h\<lparr>deltaSeq := deltaSeq h + 1,
     replayBuf := trim_replay (replayCap h) (replayBuf h @ [next_entry v h]),
     chans := deliver_all (next_entry v h) (subscribers h) (chans h),
     subscribers := filter (\<lambda>sub. \<not> is_full (chans h) sub) (subscribers h),
     wakeSubscribers := map (\<lambda>(i, pending). (i, True)) (wakeSubscribers h)\<rparr>"

lemma cloneValue_upd [simp]:
  "cloneValue (h\<lparr>deltaSeq := n\<rparr>) = cloneValue h"
  by (simp add: cloneValue_def fun_eq_iff)

lemma Publish_eq:
  assumes "subs_inv h"
  shows "Publish v h = Some (published v h)"
proof -
  have fo: "fan_out e (subscribers h) (chans h, []) =
      Some (deliver_all e (subscribers h) (chans h),
        [] @ map fst (filter (is_full (chans h)) (subscribers h)))" for e
    using assms by (intro fan_out_eq) (auto simp: subs_inv_def live_chan_def)
  have inj: "inj_on fst (set (subscribers h))"
    using assms by (simp add: subs_inv_def distinct_map)
  have del: "fold map_del (map fst (filter (is_full (chans h)) (subscribers h))) (subscribers h)
      = filter (\<lambda>sub. \<not> is_full (chans h) sub) (subscribers h)"
    unfolding fold_map_del
    by (rule filter_cong) (auto simp: dest: inj_onD[OF inj])
  show ?thesis
    by (simp add: Publish_def begin_publish_def finish_publish_def fo del published_def
        next_entry_def Let_def)
qed

lemma ends_at_trim: "ends_at n (map Seq buf) \<Longrightarrow> ends_at n (map Seq (trim_replay cap buf))"
  by (simp add: trim_replay_def drop_map[symmetric] ends_at_drop)

lemma replay_inv_published:
  assumes "replay_inv h"
  shows "replay_inv (published v h)"
proof -
  have "ends_at (deltaSeq h + 1) (map Seq (replayBuf h @ [next_entry v h]))"
    using assms ends_at_snoc by (auto simp: replay_inv_def next_entry_def)
  from ends_at_trim[OF this, of "replayCap h"] show ?thesis
    using assms by (auto simp: replay_inv_def published_def trim_replay_def)
qed

lemma live_chan_deliver:
  assumes "live_chan n ch" "length (items ch) < capacity ch" "Seq e = n + 1"
  shows "live_chan (n + 1) (deliver e ch)"
  using assms ends_at_snoc[of n "map Seq (items ch)"] by (simp add: live_chan_def deliver_def)

lemma subs_inv_published:
  assumes "subs_inv h"
  shows "subs_inv (published v h)"
  using assms live_chan_deliver[of "deltaSeq h" _ "next_entry v h"]
  by (auto simp: subs_inv_def published_def next_entry_def is_full_def distinct_map_filter not_le)

lemma Subscribe_eq:
  assumes "subs_inv h"
  shows "Subscribe h = (h\<lparr>nextSubID := nextSubID h + 1,
        chans := chans h @ [\<lparr>items = [], capacity = channelSize h, closed = False\<rparr>],
        subscribers := subscribers h @ [(nextSubID h, length (chans h))]\<rparr>,
      nextSubID h, length (chans h))"
proof -
  have "nextSubID h \<notin> fst ` set (subscribers h)"
    using assms by (auto simp: subs_inv_def)
  then show ?thesis by (simp add: Subscribe_def map_put_fresh)
qed

lemma subs_inv_Subscribe: "subs_inv h \<Longrightarrow> subs_inv (fst (Subscribe h))"
  by (auto simp: Subscribe_eq) (auto simp: subs_inv_def nth_append live_chan_def)

lemma Unsubscribe_eq:
  assumes "subs_inv h"
  shows "Unsubscribe i h = Some (case map_get (subscribers h) i of
      None \<Rightarrow> h
    | Some a \<Rightarrow> h\<lparr>subscribers := map_del i (subscribers h),
                 chans := (chans h)[a := (chans h ! a)\<lparr>items := []\<rparr>]\<rparr>)"
proof (cases "map_get (subscribers h) i")
  case None
  then have "map_del i (subscribers h) = subscribers h"
    by (simp add: delete_id map_of_eq_None_iff)
  with None show ?thesis by (simp add: Unsubscribe_def)
next
  case (Some a)
  then have "(i, a) \<in> set (subscribers h)" by (rule map_of_SomeD)
  with assms Some show ?thesis by (auto simp: Unsubscribe_def subs_inv_def live_chan_def)
qed

lemma subs_inv_Unsubscribe:
  assumes "subs_inv h" "Unsubscribe i h = Some h'"
  shows "subs_inv h'"
proof (cases "map_get (subscribers h) i")
  case None
  with assms show ?thesis by (simp add: Unsubscribe_eq)
next
  case (Some a)
  have sub: "set (map_del i (subscribers h)) \<subseteq> set (subscribers h)"
    by (auto simp: AList.delete_eq)
  have inj: "inj_on snd (set (subscribers h))"
    using assms(1) by (simp add: subs_inv_def distinct_map)
  have "(i, a) \<in> set (subscribers h)" using Some by (rule map_of_SomeD)
  then have "a \<noteq> snd p" if "p \<in> set (map_del i (subscribers h))" for p
    using that inj_onD[OF inj, of p "(i, a)"] by (auto simp: AList.delete_eq)
  moreover have "distinct (map snd (map_del i (subscribers h)))"
    using assms(1) by (simp add: AList.delete_eq subs_inv_def distinct_map_filter)
  moreover have "h' = h\<lparr>subscribers := map_del i (subscribers h),
      chans := (chans h)[a := (chans h ! a)\<lparr>items := []\<rparr>]\<rparr>"
    using assms Some by (simp add: Unsubscribe_eq)
  ultimately show ?thesis
    using assms(1) subsetD[OF sub] by (simp add: subs_inv_def wf_map_del)
qed

lemma live_chan_tl: "live_chan n ch \<Longrightarrow> items ch = e # es \<Longrightarrow> live_chan n (ch\<lparr>items := es\<rparr>)"
  by (auto simp: live_chan_def intro: ends_at_tl)

lemma subs_inv_Receive: "subs_inv h \<Longrightarrow> subs_inv (fst (Receive a h))"
  by (auto simp: subs_inv_def Receive_def nth_list_update intro: live_chan_tl split: list.splits)

section \<open>Histories\<close>

text \<open>
  The atomic operations of the hub and of its consumers, in the order in which a history
  executes them. \<open>OpReceive a\<close> is the consumer of channel \<open>a\<close> taking one entry.
\<close>

datatype 'a hub_op =
    OpPublish 'a
  | OpSubscribe
  | OpSubscribeWake
  | OpUnsubscribe int
  | OpUnsubscribeWake int
  | OpReceive nat

fun hub_step :: "'a hub_op \<Rightarrow> 'a hub \<Rightarrow> 'a hub option" where
  "hub_step (OpPublish v) h = Publish v h"
| "hub_step OpSubscribe h = Some (fst (Subscribe h))"
| "hub_step OpSubscribeWake h = Some (fst (SubscribeWake h))"
| "hub_step (OpUnsubscribe i) h = Unsubscribe i h"
| "hub_step (OpUnsubscribeWake i) h = Some (UnsubscribeWake i h)"
| "hub_step (OpReceive a) h = Some (fst (Receive a h))"

fun hub_run :: "'a hub_op list \<Rightarrow> 'a hub \<Rightarrow> 'a hub option" where
  "hub_run [] h = Some h"
| "hub_run (op # ops) h = (case hub_step op h of None \<Rightarrow> None | Some h' \<Rightarrow> hub_run ops h')"

fun pub_values :: "'a hub_op list \<Rightarrow> 'a list" where
  "pub_values [] = []"
| "pub_values (op # ops) = (case op of OpPublish v \<Rightarrow> [v] | _ \<Rightarrow> []) @ pub_values ops"

text \<open>What the consumer of channel \<open>a\<close> has taken over a history.\<close>

fun received :: "nat \<Rightarrow> 'a hub_op list \<Rightarrow> 'a hub \<Rightarrow> 'a sequenced list" where
  "received a [] h = []"
| "received a (op # ops) h =
     (if op = OpReceive a then (case snd (Receive a h) of Some e \<Rightarrow> [e] | None \<Rightarrow> []) else [])
     @ (case hub_step op h of None \<Rightarrow> [] | Some h' \<Rightarrow> received a ops h')"

fun stamp :: "int \<Rightarrow> 'a list \<Rightarrow> 'a sequenced list" where
  "stamp n [] = []"
| "stamp n (v # vs) = \<lparr>Seq = n + 1, Value = v\<rparr> # stamp (n + 1) vs"

lemma hub_step_inv:
  assumes "subs_inv h"
  shows "\<exists>h'. hub_step op h = Some h' \<and> subs_inv h'"
proof (cases op)
  case (OpUnsubscribe i)
  then show ?thesis
    using assms subs_inv_Unsubscribe Unsubscribe_eq[OF assms] by auto
next
  case OpSubscribeWake
  then show ?thesis using assms by (simp add: SubscribeWake_def subs_inv_def)
next
  case (OpUnsubscribeWake i)
  then show ?thesis using assms by (simp add: UnsubscribeWake_def subs_inv_def)
qed (use assms in \<open>simp_all add: Publish_eq subs_inv_published subs_inv_Subscribe subs_inv_Receive\<close>)

lemma hub_run_inv:
  assumes "subs_inv h"
  shows "\<exists>h'. hub_run ops h = Some h' \<and> subs_inv h'"
  using assms
proof (induction ops arbitrary: h)
  case (Cons op ops)
  then obtain h' where "hub_step op h = Some h'" "subs_inv h'" using hub_step_inv by blast
  with Cons.IH show ?case by simp
qed simp

section \<open>Replay after a history\<close>

lemma length_stamp [simp]: "length (stamp n vs) = length vs"
  by (induction vs arbitrary: n) auto

lemma stamp_append: "stamp n (us @ vs) = stamp n us @ stamp (n + int (length us)) vs"
  by (induction us arbitrary: n) (simp_all add: algebra_simps)

lemma drop_stamp: "drop k (stamp n vs) = stamp (n + int k) (drop k vs)"
  by (induction vs arbitrary: n k) (simp_all add: drop_Cons' of_nat_diff algebra_simps)

lemma filter_stamp: "filter (\<lambda>e. n + int k < Seq e) (stamp n vs) = drop k (stamp n vs)"
proof (induction vs arbitrary: n k)
  case (Cons v vs)
  show ?case
  proof (cases k)
    case 0
    have "filter (\<lambda>e. n < Seq e) (stamp (n + 1) vs) = stamp (n + 1) vs"
      by (induction vs arbitrary: n rule: rev_induct) (auto simp: stamp_append)
    with 0 show ?thesis by simp
  next
    case (Suc k')
    then show ?thesis using Cons.IH[of "n + 1" k'] by (simp add: algebra_simps)
  qed
qed simp

lemma map_value_stamp:
  "map (\<lambda>src. \<lparr>Seq = Seq src, Value = f (Value src)\<rparr>) (stamp n vs) = stamp n (map f vs)"
  by (induction vs arbitrary: n) auto

lemma Seq_nth_stamp: "i < length vs \<Longrightarrow> Seq (stamp n vs ! i) = n + 1 + int i"
  by (induction vs arbitrary: n i) (auto simp: nth_Cons split: nat.splits)

definition replay_of :: "nat \<Rightarrow> 'a sequenced list \<Rightarrow> 'a sequenced list" where
  "replay_of cap es = drop (length es - cap) es"

lemma trim_replay_of: "trim_replay cap (replay_of cap es @ [e]) = replay_of cap (es @ [e])"
  by (auto simp: trim_replay_def replay_of_def Suc_diff_le)

definition replays :: "('a \<Rightarrow> 'a) \<Rightarrow> 'a list \<Rightarrow> 'a hub \<Rightarrow> bool" where
  "replays f vs h \<longleftrightarrow> cloneValue h = f \<and> deltaSeq h = int (length vs) \<and>
     replayBuf h = replay_of (replayCap h) (stamp 0 (map f vs))"

lemma replays_step:
  assumes "subs_inv h" "replays f vs h" "hub_step op h = Some h'"
  shows "replays f (vs @ pub_values [op]) h' \<and> replayCap h' = replayCap h"
proof (cases op)
  case (OpPublish v)
  with assms show ?thesis
    by (auto simp: Publish_eq published_def replays_def stamp_append next_entry_def cloneValue_def
        fun_eq_iff trim_replay_of)
next
  case (OpUnsubscribe i)
  with assms show ?thesis
    by (auto simp: Unsubscribe_eq replays_def cloneValue_def fun_eq_iff split: option.splits)
next
  case (OpReceive a)
  with assms show ?thesis
    by (auto simp: Receive_def replays_def cloneValue_def fun_eq_iff split: list.splits)
qed (use assms in \<open>auto simp: replays_def cloneValue_def fun_eq_iff Subscribe_def SubscribeWake_def
       UnsubscribeWake_def\<close>)

lemma replays_run:
  assumes "subs_inv h" "replays f vs h" "hub_run ops h = Some h'"
  shows "replays f (vs @ pub_values ops) h' \<and> replayCap h' = replayCap h"
  using assms
proof (induction ops arbitrary: h vs)
  case (Cons op ops)
  obtain h1 where h1: "hub_step op h = Some h1" "subs_inv h1"
    using hub_step_inv[OF Cons.prems(1)] by blast
  have pv: "pub_values (op # ops) = pub_values [op] @ pub_values ops" by simp
  show ?case
    unfolding pv append_assoc[symmetric]
    using Cons.IH[of h1 "vs @ pub_values [op]"] replays_step[OF Cons.prems(1,2) h1(1)] h1 Cons.prems(3)
    by simp
qed simp

lemma Since_replays:
  assumes "replays f vs h" "0 < replayCap h" "k \<le> length vs"
  shows "Since (int k) h =
    (if length vs - k \<le> replayCap h then (drop k (stamp 0 (map f (map f vs))), False) else ([], True))"
proof -
  define m where "m = length vs - replayCap h"
  define buf where "buf = stamp (int m) (map f (drop m vs))"
  have rb: "replayBuf h = buf"
    using assms by (simp add: replays_def replay_of_def buf_def m_def drop_stamp drop_map)
  show ?thesis
  proof (cases "drop m vs")
    case Nil
    with assms have "vs = []" by (cases vs) (auto simp: m_def)
    with rb assms(3) show ?thesis by (simp add: buf_def Since_def)
  next
    case (Cons v ws)
    then have oldest: "\<exists>e es. buf = e # es \<and> Seq e = int m + 1" by (simp add: buf_def)
    have gap: "m > k \<longleftrightarrow> \<not> length vs - k \<le> replayCap h" by (auto simp: m_def)
    show ?thesis
    proof (cases "m > k")
      case True
      with oldest gap rb show ?thesis by (auto simp: Since_def)
    next
      case False
      have "ends_at (int (length vs)) (map Seq buf)"
        unfolding buf_def by (auto simp: ends_at_def Seq_nth_stamp m_def)
      then have "drop (search buf (int k) 0 (length buf)) buf = filter (\<lambda>e. int m + int (k - m) < Seq e) buf"
        using search_drop_filter[OF ends_at_sorted] False by (simp add: of_nat_diff)
      also have "\<dots> = stamp (int k) (map f (drop k vs))"
        using False unfolding buf_def filter_stamp by (simp add: drop_stamp drop_map of_nat_diff)
      finally show ?thesis
        using oldest gap False rb assms(1)
        by (auto simp: Since_def map_value_stamp replays_def drop_stamp drop_map)
    qed
  qed
qed

section \<open>Delivery\<close>

definition pub_entries :: "'a hub_op \<Rightarrow> 'a hub \<Rightarrow> 'a sequenced list" where
  "pub_entries op h = (case op of OpPublish v \<Rightarrow> [next_entry v h] | _ \<Rightarrow> [])"

definition taken :: "nat \<Rightarrow> 'a hub_op \<Rightarrow> 'a hub \<Rightarrow> 'a sequenced list" where
  "taken a op h =
     (if op = OpReceive a then (case snd (Receive a h) of Some e \<Rightarrow> [e] | None \<Rightarrow> []) else [])"

lemma in_delete: "p \<in> set (map_del i m) \<longleftrightarrow> p \<in> set m \<and> fst p \<noteq> i"
  by (auto simp: AList.delete_eq)

lemma registered_inj:
  "subs_inv h \<Longrightarrow> (i, a) \<in> set (subscribers h) \<Longrightarrow> (j, a) \<in> set (subscribers h) \<Longrightarrow> i = j"
  unfolding subs_inv_def distinct_map inj_on_def by force

lemma delivery_Publish:
  assumes "subs_inv h" "a < length (chans h)"
  shows "if registered a (published v h)
    then registered a h \<and> items (chans (published v h) ! a) = items (chans h ! a) @ [next_entry v h]
    else items (chans (published v h) ! a) = items (chans h ! a)"
  using assms
  by (auto simp: registered_def published_def is_full_def deliver_def image_iff not_le)

lemma delivery_Unsubscribe:
  assumes "subs_inv h" "a < length (chans h)" "Unsubscribe i h = Some h'"
  shows "if registered a h' then registered a h \<and> items (chans h' ! a) = items (chans h ! a)
    else prefix (items (chans h' ! a)) (items (chans h ! a))"
proof (cases "map_get (subscribers h) i")
  case None
  with assms show ?thesis by (simp add: Unsubscribe_eq)
next
  case (Some b)
  from map_of_SomeD[OF Some] assms Some show ?thesis
    by (cases "b = a") (auto simp: Unsubscribe_eq registered_def in_delete image_iff dest: registered_inj)
qed

lemma Receive_fields:
  "clone (fst (Receive a h)) = clone h" "deltaSeq (fst (Receive a h)) = deltaSeq h"
  "length (chans (fst (Receive a h))) = length (chans h)"
  "subscribers (fst (Receive a h)) = subscribers h"
  by (simp_all add: Receive_def split: list.split)

lemma delivery_step:
  assumes "subs_inv h" "a < length (chans h)" "hub_step op h = Some h'"
  shows "if registered a h'
    then registered a h \<and> taken a op h @ items (chans h' ! a) = items (chans h ! a) @ pub_entries op h
    else prefix (taken a op h @ items (chans h' ! a)) (items (chans h ! a))"
proof (cases op)
  case (OpPublish v)
  then show ?thesis
    using assms delivery_Publish[OF assms(1,2), of v]
    by (auto simp: taken_def pub_entries_def Publish_eq split: if_splits)
next
  case (OpUnsubscribe i)
  then show ?thesis
    using assms delivery_Unsubscribe[OF assms(1,2), of i h'] by (simp add: taken_def pub_entries_def)
next
  case (OpReceive b)
  with assms have h': "h' = fst (Receive b h)" by simp
  have "taken a op h @ items (chans h' ! a) = items (chans h ! a)"
    unfolding h' taken_def OpReceive using assms(2) by (auto simp: Receive_def nth_list_update split: list.split)
  then show ?thesis
    by (simp add: registered_def h' Receive_fields OpReceive pub_entries_def)
next
  case OpSubscribe
  with assms show ?thesis
    by (auto simp: taken_def pub_entries_def Subscribe_eq registered_def nth_append)
qed (use assms in \<open>auto simp: taken_def pub_entries_def SubscribeWake_def UnsubscribeWake_def registered_def\<close>)

lemma cloneValue_cong: "clone h' = clone h \<Longrightarrow> cloneValue h' = cloneValue h"
  by (simp add: cloneValue_def fun_eq_iff)

lemma hub_step_mono:
  assumes "subs_inv h" "hub_step op h = Some h'"
  shows "length (chans h) \<le> length (chans h') \<and> clone h' = clone h \<and>
    deltaSeq h' = deltaSeq h + int (length (pub_values [op]))"
proof (cases op)
  case (OpUnsubscribe i)
  with assms show ?thesis
    by (cases "map_get (subscribers h) i") (auto simp: Unsubscribe_eq)
next
  case (OpReceive a)
  with assms have "h' = fst (Receive a h)" by simp
  then show ?thesis using OpReceive by (simp add: Receive_fields)
qed (use assms in \<open>auto simp: Publish_eq published_def Subscribe_def SubscribeWake_def
       UnsubscribeWake_def\<close>)

lemma delivery_run:
  assumes "subs_inv h" "a < length (chans h)" "hub_run ops h = Some h'"
  defines "rest \<equiv> received a ops h @ items (chans h' ! a)"
  shows "(registered a h' \<longrightarrow> registered a h \<and>
            rest = items (chans h ! a) @ stamp (deltaSeq h) (map (cloneValue h) (pub_values ops)))
    \<and> (registered a h \<longrightarrow>
         prefix rest (items (chans h ! a) @ stamp (deltaSeq h) (map (cloneValue h) (pub_values ops))))
    \<and> (\<not> registered a h \<longrightarrow> prefix rest (items (chans h ! a)))"
  using assms(1-3) unfolding rest_def
proof (induction ops arbitrary: h)
  case (Cons op ops)
  obtain h1 where h1: "hub_step op h = Some h1" "subs_inv h1"
    using hub_step_inv[OF Cons.prems(1)] by blast
  note mono = hub_step_mono[OF Cons.prems(1) h1(1)]
  have cl: "cloneValue h1 = cloneValue h" by (rule cloneValue_cong) (use mono in simp)
  have st: "stamp (deltaSeq h) (map (cloneValue h) (pub_values (op # ops))) =
      pub_entries op h @ stamp (deltaSeq h1) (map (cloneValue h1) (pub_values ops))"
    using mono cl by (simp add: pub_entries_def next_entry_def stamp_append split: hub_op.splits)
  have rc: "received a (op # ops) h = taken a op h @ received a ops h1"
    by (simp add: taken_def h1)
  have IH: "hub_run ops h1 = Some h'" "a < length (chans h1)"
    using Cons.prems h1 mono by auto
  note IH = Cons.IH[OF h1(2) IH(2,1)] and step = delivery_step[OF Cons.prems(1,2) h1(1)]
  show ?case
  proof (cases "registered a h1")
    case True
    define S where "S = stamp (deltaSeq h1) (map (cloneValue h1) (pub_values ops))"
    have eq: "items (chans h ! a) @ pub_entries op h @ S = taken a op h @ items (chans h1 ! a) @ S"
      using True step by (metis append_assoc)
    have "registered a h" using True step by simp
    then show ?thesis
      using IH True unfolding st rc append_assoc S_def[symmetric] eq by simp
  next
    case False
    have "prefix (taken a op h @ received a ops h1 @ items (chans h' ! a)) (taken a op h @ items (chans h1 ! a))"
      using False IH by simp
    also have "prefix \<dots> (items (chans h ! a))" using False step by simp
    finally have "prefix (received a (op # ops) h @ items (chans h' ! a)) (items (chans h ! a))"
      by (simp only: rc append_assoc)
    then show ?thesis using False IH by (simp add: prefix_prefix del: received.simps)
  qed
qed simp

section \<open>Properties\<close>

lemma NewHub_inv:
  "subs_inv (NewHub [WithReplayCapacity c, WithChannelSize s, WithClone f])"
  by (simp add: NewHub_def WithReplayCapacity_def WithChannelSize_def WithClone_def subs_inv_def)

lemma NewHub_replays:
  "replays f [] (NewHub [WithReplayCapacity c, WithChannelSize s, WithClone f])"
  "replayCap (NewHub [WithReplayCapacity c, WithChannelSize s, WithClone f]) = c"
  by (simp_all add: NewHub_def WithReplayCapacity_def WithChannelSize_def WithClone_def replays_def
      cloneValue_def fun_eq_iff replay_of_def)

lemma NewHub_run:
  "\<exists>h. hub_run ops (NewHub [WithReplayCapacity c, WithChannelSize s, WithClone f]) = Some h
     \<and> subs_inv h \<and> replays f (pub_values ops) h \<and> replayCap h = c"
  using hub_run_inv[OF NewHub_inv] replays_run[OF NewHub_inv NewHub_replays(1)]
  by (metis NewHub_replays(2) append_Nil)

text \<open>
  (C4) Replay is complete and its gap flag is exact. After any history of publishes,
  subscriptions, receives and unsubscriptions the hub has not panicked, its sequence
  number counts the publishes, and a client that has seen the first \<open>k\<close> entries gets
  exactly the entries after them, in order, or the gap flag when some of them have been
  evicted from the bounded buffer.
\<close>

theorem replay_complete:
  assumes "0 < c"
  shows "\<exists>h. hub_run ops (NewHub [WithReplayCapacity c, WithChannelSize s, WithClone f]) = Some h
    \<and> LatestSeq h = int (length (pub_values ops))
    \<and> (\<forall>k \<le> length (pub_values ops). Since (int k) h =
         (if length (pub_values ops) - k \<le> c
          then (drop k (stamp 0 (map f (map f (pub_values ops)))), False) else ([], True)))"
proof -
  obtain h where h: "hub_run ops (NewHub [WithReplayCapacity c, WithChannelSize s, WithClone f]) = Some h"
    "replays f (pub_values ops) h" "replayCap h = c"
    using NewHub_run by blast
  have "LatestSeq h = int (length (pub_values ops))"
    using h(2) by (simp add: LatestSeq_def replays_def)
  moreover have "0 < replayCap h" using assms h(3) by simp
  ultimately show ?thesis using h(1) Since_replays[OF h(2)] unfolding h(3) by blast
qed

theorem replay_complete_witness:
  "\<exists>h. hub_run [OpPublish 5, OpSubscribe, OpPublish 6, OpPublish (7::int)]
         (NewHub [WithReplayCapacity 2, WithChannelSize 1, WithClone (\<lambda>v. v)]) = Some h
     \<and> Since 1 h = ([\<lparr>Seq = 2, Value = 6\<rparr>, \<lparr>Seq = 3, Value = 7\<rparr>], False) \<and> Since 0 h = ([], True)"
proof -
  define ops :: "int hub_op list" where "ops = [OpPublish 5, OpSubscribe, OpPublish 6, OpPublish 7]"
  define h0 :: "int hub" where "h0 = NewHub [WithReplayCapacity 2, WithChannelSize 1, WithClone (\<lambda>v. v)]"
  have pv: "pub_values ops = [5, 6, 7]" by (simp add: ops_def)
  obtain h where h: "hub_run ops h0 = Some h"
    "\<forall>k \<le> length (pub_values ops). Since (int k) h =
         (if length (pub_values ops) - k \<le> 2
          then (drop k (stamp 0 (map (\<lambda>v. v) (map (\<lambda>v. v) (pub_values ops)))), False) else ([], True))"
    using replay_complete[of 2 ops 1 "\<lambda>v. v"] unfolding h0_def[symmetric] by force
  have "Since 1 h = ([\<lparr>Seq = 2, Value = 6\<rparr>, \<lparr>Seq = 3, Value = 7\<rparr>], False)" "Since 0 h = ([], True)"
    using h(2)[rule_format, of 1] h(2)[rule_format, of 0] by (simp_all add: pv)
  with h(1) show ?thesis unfolding ops_def h0_def by blast
qed

text \<open>
  (C5) Subscribers lose nothing while they are registered. Whatever history precedes and
  follows a \<open>Subscribe\<close>, no publish panics and no \<open>Unsubscribe\<close> drains a closed channel;
  what the consumer has taken, followed by what its channel still buffers, is a prefix of
  the entries published since it subscribed, and all of them as long as it is registered.
\<close>

theorem subscriber_delivery:
  "\<exists>h h'. hub_run before (NewHub [WithReplayCapacity c, WithChannelSize s, WithClone f]) = Some h
    \<and> hub_run after (fst (Subscribe h)) = Some h'
    \<and> (let (h1, i, a) = Subscribe h;
           all = stamp (LatestSeq h) (map f (pub_values after));
           got = received a after h1 @ items (chans h' ! a)
       in prefix got all \<and> (map_get (subscribers h') i = Some a \<longrightarrow> got = all))"
proof -
  obtain h where h: "hub_run before (NewHub [WithReplayCapacity c, WithChannelSize s, WithClone f]) = Some h"
    "subs_inv h" "replays f (pub_values before) h"
    using NewHub_run by blast
  define h1 where "h1 = fst (Subscribe h)"
  define a where "a = length (chans h)"
  have h1: "subs_inv h1" "a < length (chans h1)" "registered a h1" "items (chans h1 ! a) = []"
    "deltaSeq h1 = deltaSeq h" "cloneValue h1 = f" "Subscribe h = (h1, nextSubID h, a)"
    using h subs_inv_Subscribe[OF h(2)]
    by (auto simp: h1_def a_def Subscribe_eq registered_def replays_def cloneValue_def)
  obtain h' where h': "hub_run after h1 = Some h'" using hub_run_inv[OF h1(1)] by blast
  have "map_get (subscribers h') i = Some a \<Longrightarrow> registered a h'" for i
    by (force simp: registered_def dest: map_of_SomeD)
  with delivery_run[OF h1(1,2) h'] h1 h(1) h' show ?thesis
    by (auto simp: LatestSeq_def Let_def)
qed

theorem subscriber_delivery_witness:
  "\<exists>h h'. hub_run [OpPublish 1] (NewHub [WithReplayCapacity 4, WithChannelSize 2, WithClone (\<lambda>v. v)]) = Some h
    \<and> hub_run [OpPublish (2::int), OpReceive 0, OpPublish 3] (fst (Subscribe h)) = Some h'
    \<and> map_get (subscribers h') 0 = Some 0
    \<and> received 0 [OpPublish (2::int), OpReceive 0, OpPublish 3] (fst (Subscribe h)) @ items (chans h' ! 0)
        = [\<lparr>Seq = 2, Value = 2\<rparr>, \<lparr>Seq = 3, Value = 3\<rparr>]"
  using subscriber_delivery[of "[OpPublish 1]" 4 2 "\<lambda>v. v" "[OpPublish (2::int), OpReceive 0, OpPublish 3]"]
  by (simp add: Publish_def begin_publish_def finish_publish_def NewHub_def WithReplayCapacity_def
      WithChannelSize_def WithClone_def cloneValue_def trim_replay_def Subscribe_def send_one_def
      Receive_def LatestSeq_def)


end
