(* ===== verification/Store_State.thy ===== *)
theory Store_State
  imports Task_Normalize Pubsub
begin

text \<open>
  The in-memory store of \<open>internal/store/store.go\<close>, \<open>subscribe.go\<close> and \<open>io.go\<close>: its state,
  the status and search indexes, persistence of a task, notification, lazy loading of
  events, start-up, and the generic mutation \<open>mutateTask\<close>. Every exported method holds the
  store mutex, so a method is one step on the state. A method that returns an error keeps
  the changes it made before, hence the result type \<open>Store \<times> (error + 'a)\<close>. Readings of the
  clock are arguments. \<open>deepCloneTask\<close> is the identity on values.
\<close>

section \<open>State\<close>

record indexedTaskText =
  ix_title :: string
  ix_prompt :: string
  ix_tags :: string
  ix_oversight :: string
  ix_oversightRaw :: string

record TaskDelta =
  delta_Task :: Task
  Deleted :: bool

record Store =
  backend :: backend
  store_closed :: bool
  tasks :: "(uuid, Task) gomap"
  deleted :: "(uuid, Task) gomap"
  events :: "(uuid, TaskEvent list) gomap"
  nextSeq :: "(uuid, int) gomap"
  tasksByStatus :: "(TaskStatus, uuid list) gomap"
  searchIndex :: "(uuid, indexedTaskText) gomap"
  store_hub :: "TaskDelta hub"
  retryHistoryLimit :: int
  refineSessionsLimit :: int
  promptHistoryLimit :: int
  maxTurnOutputBytes :: int
  compactions :: "(uuid \<times> int) list"
  eventsLoaded :: "(uuid, bool) gomap"
  OnDone :: bool
  doneCalls :: "Task list"

type_synonym 'a outcome = "Store \<times> (error + 'a)"

text \<open>Sequencing: an error returns at once with the state reached so far.\<close>

definition and_then :: "'a outcome \<Rightarrow> ('a \<Rightarrow> Store \<Rightarrow> 'b outcome) \<Rightarrow> 'b outcome" where
  "and_then r k = (case r of (s, Inl e) \<Rightarrow> (s, Inl e) | (s, Inr a) \<Rightarrow> k a s)"

lemma and_then_simps [simp]:
  "and_then (s, Inl e) k = (s, Inl e)" "and_then (s, Inr a) k = k a s"
  by (simp_all add: and_then_def)

section \<open>Indexes\<close>

definition buildIndexEntry :: "lib \<Rightarrow> Task \<Rightarrow> string \<Rightarrow> indexedTaskText" where
  "buildIndexEntry L t oversightRaw =
     \<lparr>ix_title = lower L (Title t), ix_prompt = lower L (Prompt t),
      ix_tags = lower L (Join (Tags t) '' ''), ix_oversight = lower L oversightRaw,
      ix_oversightRaw = oversightRaw\<rparr>"

definition addToStatusIndex :: "TaskStatus \<Rightarrow> uuid \<Rightarrow> Store \<Rightarrow> Store" where
  "addToStatusIndex status i s =
     s\<lparr>tasksByStatus := map_put status (List.insert i (map_at [] (tasksByStatus s) status)) (tasksByStatus s)\<rparr>"

definition removeFromStatusIndex :: "TaskStatus \<Rightarrow> uuid \<Rightarrow> Store \<Rightarrow> Store" where
  "removeFromStatusIndex status i s =
     (case map_get (tasksByStatus s) status of
        None \<Rightarrow> s
      | Some ids \<Rightarrow> s\<lparr>tasksByStatus := map_put status (removeAll i ids) (tasksByStatus s)\<rparr>)"

definition updateIndexEntry :: "uuid \<Rightarrow> (indexedTaskText \<Rightarrow> indexedTaskText) \<Rightarrow> Store \<Rightarrow> Store" where
  "updateIndexEntry i f s =
     (case map_get (searchIndex s) i of
        None \<Rightarrow> s
      | Some entry \<Rightarrow> s\<lparr>searchIndex := map_put i (f entry) (searchIndex s)\<rparr>)"

section \<open>Persistence and notification\<close>

definition tail_Of :: "'a list \<Rightarrow> int \<Rightarrow> 'a list" where
  "tail_Of xs n = (if n \<le> 0 \<or> int (length xs) \<le> n then xs else drop (length xs - nat n) xs)"

definition pruneTaskPayload :: "Store \<Rightarrow> Task \<Rightarrow> Task" where
  "pruneTaskPayload s t =
     t\<lparr>RetryHistory := tail_Of (RetryHistory t) (retryHistoryLimit s),
       RefineSessions := tail_Of (RefineSessions t) (refineSessionsLimit s),
       PromptHistory := tail_Of (PromptHistory t) (promptHistoryLimit s)\<rparr>"

text \<open>\<open>saveTask\<close> stamps the version on the caller's task and writes a pruned copy.\<close>

definition saveTask :: "Task \<Rightarrow> Store \<Rightarrow> Task \<times> Store \<times> (error + unit)" where
  "saveTask task s =
     (let task' = task\<lparr>SchemaVersion := CurrentTaskSchemaVersion\<rparr>;
          (b, r) = SaveTask (pruneTaskPayload s task') (backend s)
      in (task', s\<lparr>backend := b\<rparr>, r))"

definition notify :: "Task \<Rightarrow> bool \<Rightarrow> Store \<Rightarrow> unit outcome" where
  "notify task del s =
     (let td = (if del then \<lparr>delta_Task = zero_task\<lparr>ID := ID task\<rparr>, Deleted = True\<rparr>
                else \<lparr>delta_Task = task, Deleted = False\<rparr>)
      in case Publish td (store_hub s) of
           None \<Rightarrow> (s, Inl ErrPanic)
         | Some h \<Rightarrow> (s\<lparr>store_hub := h\<rparr>, Inr ()))"

text \<open>
  Write the task back to its map slot, persist it, and continue when that succeeded: the
  tail of every mutating method (the map holds a pointer to the task being mutated).
\<close>

definition store_task :: "uuid \<Rightarrow> Task \<Rightarrow> Store \<Rightarrow> Task outcome" where
  "store_task i t s =
     (let (t', s', r) = saveTask t s; s'' = s'\<lparr>tasks := map_put i t' (tasks s')\<rparr>
      in case r of Inl e \<Rightarrow> (s'', Inl e) | Inr _ \<Rightarrow> (s'', Inr t'))"

definition mutateTask :: "uuid \<Rightarrow> (Task \<Rightarrow> Store \<Rightarrow> Task \<times> Store \<times> error option) \<Rightarrow> time \<Rightarrow> Store \<Rightarrow> unit outcome" where
  "mutateTask i fn now s =
     (case map_get (tasks s) i of
        None \<Rightarrow> (s, Inl (ErrTaskNotFound i))
      | Some t \<Rightarrow>
          (case fn t s of
             (t1, s1, Some e) \<Rightarrow> (s1\<lparr>tasks := map_put i t1 (tasks s1)\<rparr>, Inl e)
           | (t1, s1, None) \<Rightarrow>
               and_then (store_task i (t1\<lparr>UpdatedAt := now\<rparr>) s1) (\<lambda>t2 s2. notify t2 False s2)))"

section \<open>Oversight text\<close>

definition oversightText :: "TaskOversight \<Rightarrow> string" where
  "oversightText ov =
     TrimSpace (concat (map (\<lambda>ph. (if op_Title ph \<noteq> [] then op_Title ph @ '' '' else [])
       @ (if Summary ph \<noteq> [] then Summary ph @ '' '' else [])) (Phases ov)))"

definition pending_oversight :: TaskOversight where
  "pending_oversight = \<lparr>ov_Status = OversightStatusPending, GeneratedAt = 0, ov_Error = [], Phases = []\<rparr>"

definition read_oversight :: "uuid \<Rightarrow> string \<Rightarrow> Store \<Rightarrow> error + TaskOversight" where
  "read_oversight i key s =
     (case ReadBlob i key (backend s) of
        Inl ErrNotExist \<Rightarrow> Inr pending_oversight
      | Inl e \<Rightarrow> Inl e
      | Inr (BOversight ov) \<Rightarrow> Inr ov
      | Inr _ \<Rightarrow> Inl ErrCorrupt)"

definition GetOversight :: "uuid \<Rightarrow> Store \<Rightarrow> error + TaskOversight" where
  "GetOversight i s = read_oversight i ''oversight.json'' s"

definition GetTestOversight :: "uuid \<Rightarrow> Store \<Rightarrow> error + TaskOversight" where
  "GetTestOversight i s = read_oversight i ''oversight-test.json'' s"

text \<open>\<open>LoadOversightText\<close> returns the empty string next to an error, and its callers use it.\<close>

definition LoadOversightText :: "uuid \<Rightarrow> Store \<Rightarrow> string \<times> error option" where
  "LoadOversightText i s =
     (case ReadBlob i ''oversight.json'' (backend s) of
        Inl ErrNotExist \<Rightarrow> ([], None)
      | Inl e \<Rightarrow> ([], Some e)
      | Inr (BOversight ov) \<Rightarrow> (oversightText ov, None)
      | Inr _ \<Rightarrow> ([], Some ErrCorrupt))"

definition SaveOversight :: "lib \<Rightarrow> uuid \<Rightarrow> TaskOversight \<Rightarrow> Store \<Rightarrow> unit outcome" where
  "SaveOversight L i ov s =
     (case SaveBlob i ''oversight.json'' (BOversight ov) (backend s) of
        (b, Inl e) \<Rightarrow> (s\<lparr>backend := b\<rparr>, Inl e)
      | (b, Inr _) \<Rightarrow>
          (updateIndexEntry i (\<lambda>entry. entry\<lparr>ix_oversight := lower L (oversightText ov),
             ix_oversightRaw := oversightText ov\<rparr>) (s\<lparr>backend := b\<rparr>), Inr ()))"

definition SaveTestOversight :: "uuid \<Rightarrow> TaskOversight \<Rightarrow> Store \<Rightarrow> unit outcome" where
  "SaveTestOversight i ov s =
     (case SaveBlob i ''oversight-test.json'' (BOversight ov) (backend s) of (b, r) \<Rightarrow> (s\<lparr>backend := b\<rparr>, r))"

section \<open>Events in memory\<close>

definition loadEvents :: "uuid \<Rightarrow> Store \<Rightarrow> unit outcome" where
  "loadEvents i s =
     (case LoadEvents i (backend s) of
        Inl e \<Rightarrow> (s, Inl e)
      | Inr (evs, maxSeq) \<Rightarrow>
          (s\<lparr>events := map_put i evs (events s),
             nextSeq := map_put i (if maxSeq = 0 \<and> evs = [] then 1 else maxSeq + 1) (nextSeq s)\<rparr>, Inr ()))"

definition ensureEventsLoadedLocked :: "uuid \<Rightarrow> Store \<Rightarrow> Store" where
  "ensureEventsLoadedLocked i s =
     (if map_at False (eventsLoaded s) i then s
      else let s1 = fst (loadEvents i s) in s1\<lparr>eventsLoaded := map_put i True (eventsLoaded s1)\<rparr>)"

section \<open>Start-up\<close>

definition isTerminalStatus :: "TaskStatus \<Rightarrow> bool" where
  "isTerminalStatus status \<longleftrightarrow> status \<in> {TaskStatusDone, TaskStatusFailed, TaskStatusCancelled}"

definition load_one :: "lib \<Rightarrow> Task \<Rightarrow> Store \<Rightarrow> unit outcome" where
  "load_one L task s =
     (let i = ID task in
      case ReadBlob i ''tombstone.json'' (backend s) of
        Inr _ \<Rightarrow>
          (s\<lparr>deleted := map_put i task (deleted s), eventsLoaded := map_put i False (eventsLoaded s)\<rparr>, Inr ())
      | Inl _ \<Rightarrow>
          let t = pruneTaskPayload s task;
              s1 = s\<lparr>tasks := map_put i t (tasks s),
                     searchIndex := map_put i (buildIndexEntry L t (fst (LoadOversightText i s))) (searchIndex s)\<rparr>
          in if isTerminalStatus (Status t) \<or> Archived t
             then (s1\<lparr>eventsLoaded := map_put i False (eventsLoaded s1)\<rparr>, Inr ())
             else and_then (loadEvents i s1)
                    (\<lambda>_ s2. (s2\<lparr>eventsLoaded := map_put i True (eventsLoaded s2)\<rparr>, Inr ())))"

fun load_each :: "lib \<Rightarrow> Task list \<Rightarrow> Store \<Rightarrow> unit outcome" where
  "load_each L [] s = (s, Inr ())"
| "load_each L (t # ts) s = and_then (load_one L t s) (\<lambda>_ s1. load_each L ts s1)"

definition loadAll :: "lib \<Rightarrow> (uuid \<Rightarrow> time) \<Rightarrow> Store \<Rightarrow> unit outcome" where
  "loadAll L mtime s =
     (case LoadAll L mtime (backend s) of
        (b, Inl e) \<Rightarrow> (s\<lparr>backend := b\<rparr>, Inl e)
      | (b, Inr ts) \<Rightarrow> load_each L ts (s\<lparr>backend := b\<rparr>))"

record limits =
  lim_retry :: int
  lim_refine :: int
  lim_prompt :: int
  lim_output :: int

definition DefaultLimits :: limits where
  "DefaultLimits = \<lparr>lim_retry = 10, lim_refine = 5, lim_prompt = 20, lim_output = 8 * 1024 * 1024\<rparr>"

definition empty_store :: "limits \<Rightarrow> backend \<Rightarrow> Store" where
  "empty_store lm b =
     \<lparr>backend = b, store_closed = False, tasks = [], deleted = [], events = [], nextSeq = [],
      tasksByStatus = [], searchIndex = [], store_hub = NewHub [WithClone (\<lambda>td. td)],
      retryHistoryLimit = lim_retry lm, refineSessionsLimit = lim_refine lm,
      promptHistoryLimit = lim_prompt lm, maxTurnOutputBytes = lim_output lm, compactions = [],
      eventsLoaded = [], OnDone = False, doneCalls = []\<rparr>"

definition NewStore :: "lib \<Rightarrow> (uuid \<Rightarrow> time) \<Rightarrow> limits \<Rightarrow> backend \<Rightarrow> unit outcome" where
  "NewStore L mtime lm b =
     and_then (loadAll L mtime (empty_store lm b))
       (\<lambda>_ s. (fold (\<lambda>(i, t) s. addToStatusIndex (Status t) i s) (tasks s) s, Inr ()))"

definition Close :: "Store \<Rightarrow> Store" where
  "Close s = s\<lparr>store_closed := True\<rparr>"

definition IsClosed :: "Store \<Rightarrow> bool" where
  "IsClosed s = store_closed s"

record PayloadLimits =
  pl_RetryHistory :: int
  pl_RefineSessions :: int
  pl_PromptHistory :: int

definition GetPayloadLimits :: "Store \<Rightarrow> PayloadLimits" where
  "GetPayloadLimits s = \<lparr>pl_RetryHistory = retryHistoryLimit s, pl_RefineSessions = refineSessionsLimit s,
     pl_PromptHistory = promptHistoryLimit s\<rparr>"

section \<open>Subscriptions\<close>

definition store_Subscribe :: "Store \<Rightarrow> Store \<times> int \<times> nat" where
  "store_Subscribe s = (case Subscribe (store_hub s) of (h, i, a) \<Rightarrow> (s\<lparr>store_hub := h\<rparr>, i, a))"

definition store_Unsubscribe :: "int \<Rightarrow> Store \<Rightarrow> Store option" where
  "store_Unsubscribe i s = (case Unsubscribe i (store_hub s) of None \<Rightarrow> None | Some h \<Rightarrow> Some (s\<lparr>store_hub := h\<rparr>))"

definition store_SubscribeWake :: "Store \<Rightarrow> Store \<times> int" where
  "store_SubscribeWake s = (case SubscribeWake (store_hub s) of (h, i) \<Rightarrow> (s\<lparr>store_hub := h\<rparr>, i))"

definition store_UnsubscribeWake :: "int \<Rightarrow> Store \<Rightarrow> Store" where
  "store_UnsubscribeWake i s = s\<lparr>store_hub := UnsubscribeWake i (store_hub s)\<rparr>"

definition LatestDeltaSeq :: "Store \<Rightarrow> int" where
  "LatestDeltaSeq s = LatestSeq (store_hub s)"

definition DeltasSince :: "int \<Rightarrow> Store \<Rightarrow> TaskDelta sequenced list \<times> bool" where
  "DeltasSince seq s = Since seq (store_hub s)"

section \<open>Mutation closures\<close>

text \<open>
  The shapes of the functions that the store passes to \<open>mutateTask\<close>: assign fields; check
  first and abort; assign fields and refresh the search index entry of the task.
\<close>

type_synonym mutation = "Task \<Rightarrow> Store \<Rightarrow> Task \<times> Store \<times> error option"

definition assign :: "(Task \<Rightarrow> Task) \<Rightarrow> mutation" where
  "assign f = (\<lambda>t s. (f t, s, None))"

definition assign_if :: "(Task \<Rightarrow> error option) \<Rightarrow> (Task \<Rightarrow> Task) \<Rightarrow> mutation" where
  "assign_if check f = (\<lambda>t s. case check t of Some e \<Rightarrow> (t, s, Some e) | None \<Rightarrow> (f t, s, None))"

definition assign_indexed ::
  "uuid \<Rightarrow> (Task \<Rightarrow> error option) \<Rightarrow> (Task \<Rightarrow> Task) \<Rightarrow> (indexedTaskText \<Rightarrow> indexedTaskText) \<Rightarrow> mutation" where
  "assign_indexed i check f g =
     (\<lambda>t s. case check t of Some e \<Rightarrow> (t, s, Some e) | None \<Rightarrow> (f t, updateIndexEntry i g s, None))"

section \<open>Invariant\<close>

definition entry_ok :: "lib \<Rightarrow> Task \<Rightarrow> indexedTaskText \<Rightarrow> bool" where
  "entry_ok L t e \<longleftrightarrow> ix_title e = lower L (Title t) \<and> ix_prompt e = lower L (Prompt t)
     \<and> ix_tags e = lower L (Join (Tags t) '' '') \<and> ix_oversight e = lower L (ix_oversightRaw e)"

definition keys_ok :: "Store \<Rightarrow> bool" where
  "keys_ok s \<longleftrightarrow> wf_map (tasks s) \<and> wf_map (deleted s)
     \<and> (\<forall>i t. map_get (tasks s) i = Some t \<longrightarrow> ID t = i)
     \<and> (\<forall>i t. map_get (deleted s) i = Some t \<longrightarrow> ID t = i \<and> map_get (tasks s) i = None)"

definition status_ok :: "Store \<Rightarrow> bool" where
  "status_ok s \<longleftrightarrow> (\<forall>st. distinct (map_at [] (tasksByStatus s) st) \<and>
     (\<forall>i. i \<in> set (map_at [] (tasksByStatus s) st) \<longleftrightarrow> map_option Status (map_get (tasks s) i) = Some st))"

fun slot_ok :: "lib \<Rightarrow> Task option \<Rightarrow> indexedTaskText option \<Rightarrow> bool" where
  "slot_ok L None None = True"
| "slot_ok L (Some t) (Some e) = entry_ok L t e"
| "slot_ok L _ _ = False"

definition index_ok :: "lib \<Rightarrow> Store \<Rightarrow> bool" where
  "index_ok L s \<longleftrightarrow> (\<forall>i. slot_ok L (map_get (tasks s) i) (map_get (searchIndex s) i))"

definition wf_store :: "lib \<Rightarrow> Store \<Rightarrow> bool" where
  "wf_store L s \<longleftrightarrow> keys_ok s \<and> status_ok s \<and> index_ok L s \<and> subs_inv (store_hub s)"

lemma entry_ok_build [simp]: "entry_ok L t (buildIndexEntry L t raw)"
  by (simp add: entry_ok_def buildIndexEntry_def)

lemma entry_ok_cong:
  "Title t' = Title t \<Longrightarrow> Prompt t' = Prompt t \<Longrightarrow> Tags t' = Tags t \<Longrightarrow> entry_ok L t' e \<longleftrightarrow> entry_ok L t e"
  by (simp add: entry_ok_def)

lemma slot_ok_iff: "slot_ok L x y \<longleftrightarrow> (x = None \<longleftrightarrow> y = None) \<and> (\<forall>t e. x = Some t \<longrightarrow> y = Some e \<longrightarrow> entry_ok L t e)"
  by (cases x; cases y) auto

lemma slot_ok_Some [simp]: "slot_ok L (Some t) y \<longleftrightarrow> (\<exists>e. y = Some e \<and> entry_ok L t e)"
  "slot_ok L None y \<longleftrightarrow> y = None"
  by (cases y; simp)+

text \<open>
  The invariant depends on five components only; two states that agree on them are both
  well formed or both not.
\<close>

lemma wf_store_cong:
  assumes "tasks s' = tasks s" "deleted s' = deleted s" "tasksByStatus s' = tasksByStatus s"
    "searchIndex s' = searchIndex s" "subs_inv (store_hub s')"
  shows "wf_store L s \<Longrightarrow> wf_store L s'"
  using assms by (simp add: wf_store_def keys_ok_def status_ok_def index_ok_def)

lemma status_index_add [simp]:
  "set (map_at [] (tasksByStatus (addToStatusIndex st i s)) st')
     = (if st' = st then insert i (set (map_at [] (tasksByStatus s) st')) else set (map_at [] (tasksByStatus s) st'))"
  by (simp add: addToStatusIndex_def)

lemma status_index_remove [simp]:
  "set (map_at [] (tasksByStatus (removeFromStatusIndex st i s)) st')
     = (if st' = st then set (map_at [] (tasksByStatus s) st') - {i} else set (map_at [] (tasksByStatus s) st'))"
  by (auto simp: removeFromStatusIndex_def map_at_def split: option.splits)

lemma status_index_distinct [simp]:
  "distinct (map_at [] (tasksByStatus s) st') \<Longrightarrow> distinct (map_at [] (tasksByStatus (addToStatusIndex st i s)) st')"
  "distinct (map_at [] (tasksByStatus s) st') \<Longrightarrow> distinct (map_at [] (tasksByStatus (removeFromStatusIndex st i s)) st')"
  by (auto simp: removeFromStatusIndex_def addToStatusIndex_def map_at_def distinct_removeAll split: option.splits)

text \<open>The index operations change no other component.\<close>

lemma index_frames [simp]:
  "tasks (addToStatusIndex st i s) = tasks s" "tasks (removeFromStatusIndex st i s) = tasks s"
  "deleted (addToStatusIndex st i s) = deleted s" "deleted (removeFromStatusIndex st i s) = deleted s"
  "searchIndex (addToStatusIndex st i s) = searchIndex s" "searchIndex (removeFromStatusIndex st i s) = searchIndex s"
  "store_hub (addToStatusIndex st i s) = store_hub s" "store_hub (removeFromStatusIndex st i s) = store_hub s"
  "backend (addToStatusIndex st i s) = backend s" "backend (removeFromStatusIndex st i s) = backend s"
  "events (addToStatusIndex st i s) = events s" "events (removeFromStatusIndex st i s) = events s"
  "nextSeq (addToStatusIndex st i s) = nextSeq s" "nextSeq (removeFromStatusIndex st i s) = nextSeq s"
  "eventsLoaded (addToStatusIndex st i s) = eventsLoaded s" "eventsLoaded (removeFromStatusIndex st i s) = eventsLoaded s"
  "compactions (addToStatusIndex st i s) = compactions s" "compactions (removeFromStatusIndex st i s) = compactions s"
  "tasks (updateIndexEntry i g s) = tasks s" "deleted (updateIndexEntry i g s) = deleted s"
  "tasksByStatus (updateIndexEntry i g s) = tasksByStatus s" "store_hub (updateIndexEntry i g s) = store_hub s"
  "backend (updateIndexEntry i g s) = backend s" "events (updateIndexEntry i g s) = events s"
  "nextSeq (updateIndexEntry i g s) = nextSeq s" "eventsLoaded (updateIndexEntry i g s) = eventsLoaded s"
  "compactions (updateIndexEntry i g s) = compactions s"
  by (simp_all add: addToStatusIndex_def removeFromStatusIndex_def updateIndexEntry_def split: option.split)

lemma searchIndex_update [simp]:
  "map_get (searchIndex (updateIndexEntry i g s)) j =
     (if j = i then map_option g (map_get (searchIndex s) i) else map_get (searchIndex s) j)"
  by (simp add: updateIndexEntry_def split: option.split)

section \<open>Effects of the primitives\<close>

abbreviation update_delta :: "Task \<Rightarrow> TaskDelta" where
  "update_delta t \<equiv> \<lparr>delta_Task = t, Deleted = False\<rparr>"

abbreviation delete_delta :: "uuid \<Rightarrow> TaskDelta" where
  "delete_delta i \<equiv> \<lparr>delta_Task = zero_task\<lparr>ID := i\<rparr>, Deleted = True\<rparr>"

lemma notify_eq:
  assumes "subs_inv (store_hub s)"
  shows "notify t False s = (s\<lparr>store_hub := published (update_delta t) (store_hub s)\<rparr>, Inr ())"
    "notify t True s = (s\<lparr>store_hub := published (delete_delta (ID t)) (store_hub s)\<rparr>, Inr ())"
  using assms by (simp_all add: notify_def Publish_eq)

definition save_ok :: "uuid \<Rightarrow> Store \<Rightarrow> bool" where
  "save_ok i s \<longleftrightarrow> map_get (dirs (backend s)) i \<noteq> None \<and> \<not> io_fails (backend s) (IOSaveTask i)"

definition stamped :: "Task \<Rightarrow> Task" where
  "stamped t = t\<lparr>SchemaVersion := CurrentTaskSchemaVersion\<rparr>"

lemma stamped_sel [simp]:
  "ID (stamped t) = ID t" "Status (stamped t) = Status t" "Title (stamped t) = Title t"
  "Prompt (stamped t) = Prompt t" "Tags (stamped t) = Tags t" "DependsOn (stamped t) = DependsOn t"
  "Archived (stamped t) = Archived t" "UpdatedAt (stamped t) = UpdatedAt t"
  "SchemaVersion (stamped t) = CurrentTaskSchemaVersion" "OrgID (stamped t) = OrgID t"
  "CreatedBy (stamped t) = CreatedBy t"
  by (simp_all add: stamped_def)

lemma pruneTaskPayload_sel [simp]:
  "ID (pruneTaskPayload s t) = ID t" "Status (pruneTaskPayload s t) = Status t"
  "Title (pruneTaskPayload s t) = Title t" "Prompt (pruneTaskPayload s t) = Prompt t"
  "Tags (pruneTaskPayload s t) = Tags t" "DependsOn (pruneTaskPayload s t) = DependsOn t"
  "Archived (pruneTaskPayload s t) = Archived t"
  by (simp_all add: pruneTaskPayload_def)

definition written :: "Store \<Rightarrow> Task \<Rightarrow> backend" where
  "written s t = put_dir (ID t) ((dir_at (backend s) (ID t))\<lparr>task_file := Some (Some (pruneTaskPayload s (stamped t)))\<rparr>)
     (backend s)"

lemma store_task_eq:
  "\<exists>e. store_task i t s =
     (if save_ok (ID t) s
      then (s\<lparr>backend := written s t, tasks := map_put i (stamped t) (tasks s)\<rparr>, Inr (stamped t))
      else (s\<lparr>tasks := map_put i (stamped t) (tasks s)\<rparr>, Inl e))"
proof (cases "map_get (dirs (backend s)) (ID t)")
  case None
  then show ?thesis
    by (simp add: store_task_def saveTask_def SaveTask_def save_ok_def stamped_def[symmetric] Let_def)
next
  case (Some d)
  then show ?thesis
    by (simp add: store_task_def saveTask_def SaveTask_def save_ok_def stamped_def[symmetric] written_def
        dir_at_def map_at_def Let_def)
qed

lemma wf_live_not_deleted: "wf_store L s \<Longrightarrow> map_get (tasks s) i = Some t \<Longrightarrow> map_get (deleted s) i = None"
  by (cases "map_get (deleted s) i") (auto simp: wf_store_def keys_ok_def)

lemma wf_entry_ex:
  assumes "wf_store L s" "map_get (tasks s) i = Some t"
  shows "\<exists>e. map_get (searchIndex s) i = Some e \<and> entry_ok L t e"
  using assms by (auto simp: wf_store_def index_ok_def dest: spec[of _ i])

lemma wf_replace:
  assumes "wf_store L s" "map_get (tasks s) i = Some t" "ID t' = i" "Status t' = Status t"
    "\<And>e. map_get (searchIndex s) i = Some e \<Longrightarrow> entry_ok L t' e"
  shows "wf_store L (s\<lparr>tasks := map_put i t' (tasks s)\<rparr>)"
  using assms wf_live_not_deleted[OF assms(1,2)] wf_entry_ex[OF assms(1,2)]
  by (auto simp: wf_store_def keys_ok_def status_ok_def index_ok_def)

lemma wf_hub:
  "wf_store L s \<Longrightarrow> subs_inv h \<Longrightarrow> wf_store L (s\<lparr>store_hub := h\<rparr>)"
  by (rule wf_store_cong[of _ s]) simp_all

lemma wf_backend: "wf_store L s \<Longrightarrow> wf_store L (s\<lparr>backend := b\<rparr>)"
  by (rule wf_store_cong[of _ s]) (simp_all add: wf_store_def)

lemma wf_subs: "wf_store L s \<Longrightarrow> subs_inv (store_hub s)"
  by (simp add: wf_store_def)

lemma wf_ID: "wf_store L s \<Longrightarrow> map_get (tasks s) i = Some t \<Longrightarrow> ID t = i"
  by (simp add: wf_store_def keys_ok_def)

text \<open>
  The outcome of a mutation whose closure does not abort: the task is replaced in memory in
  any case; disk and subscribers see it only when the write succeeds.
\<close>

definition after_write :: "uuid \<Rightarrow> Task \<Rightarrow> Store \<Rightarrow> Store" where
  "after_write i t s = s\<lparr>backend := written s t, tasks := map_put i (stamped t) (tasks s),
     store_hub := published (update_delta (stamped t)) (store_hub s)\<rparr>"

lemma store_and_notify_eq:
  assumes "subs_inv (store_hub s)"
  shows "\<exists>e. and_then (store_task i t s) (\<lambda>t' s'. notify t' False s') =
    (if save_ok (ID t) s then (after_write i t s, Inr ())
     else (s\<lparr>tasks := map_put i (stamped t) (tasks s)\<rparr>, Inl e))"
  using store_task_eq[of i t s] assms by (auto simp: notify_eq after_write_def)

lemma wf_after_write:
  assumes "wf_store L (s\<lparr>tasks := map_put i (stamped t) (tasks s)\<rparr>)"
  shows "wf_store L (after_write i t s)"
  by (rule wf_store_cong[OF _ _ _ _ _ assms])
    (use assms in \<open>simp_all add: after_write_def wf_store_def subs_inv_published\<close>)

end
