(* ===== verification/Store_Invariant.thy ===== *)
theory Store_Invariant
  imports Store_State
begin

text \<open>
  The contract that every store operation keeps, and the lemmas that reduce an operation to
  it. \<open>store_inv\<close> holds whatever calls fail: the maps, the two indexes and the hub agree,
  every task has a directory, and exactly the soft-deleted tasks carry a tombstone.
  \<open>good_step\<close> adds what holds when no task write fails: the disk mirrors the memory and the
  published deltas, applied in order, account for every change of the task map.
\<close>

section \<open>Durability\<close>

definition durable :: "Store \<Rightarrow> bool" where
  "durable s \<longleftrightarrow> (\<forall>i. map_get (tasks s) i \<noteq> None \<or> map_get (deleted s) i \<noteq> None
     \<longrightarrow> map_get (dirs (backend s)) i \<noteq> None)"

abbreviation tombstoned :: "uuid \<Rightarrow> backend \<Rightarrow> bool" where
  "tombstoned i b \<equiv> fs_blobs.present i ''tombstone.json'' b"

definition tomb_ok :: "Store \<Rightarrow> bool" where
  "tomb_ok s \<longleftrightarrow> (\<forall>i. (map_get (tasks s) i \<noteq> None \<longrightarrow> \<not> tombstoned i (backend s))
     \<and> (map_get (deleted s) i \<noteq> None \<longrightarrow> tombstoned i (backend s)))"

definition store_inv :: "lib \<Rightarrow> Store \<Rightarrow> bool" where
  "store_inv L s \<longleftrightarrow> wf_store L s \<and> durable s \<and> tomb_ok s"

definition no_save_faults :: "Store \<Rightarrow> bool" where
  "no_save_faults s \<longleftrightarrow> (\<forall>i. \<not> io_fails (backend s) (IOSaveTask i))"

definition persisted :: "Store \<Rightarrow> bool" where
  "persisted s \<longleftrightarrow> (\<forall>i t. map_get (tasks s) i = Some t \<or> map_get (deleted s) i = Some t
     \<longrightarrow> task_file (dir_at (backend s) i) = Some (Some (pruneTaskPayload s t)))"

section \<open>Deltas\<close>

definition apply_delta :: "TaskDelta \<Rightarrow> (uuid \<rightharpoonup> Task) \<Rightarrow> (uuid \<rightharpoonup> Task)" where
  "apply_delta d m = (if Deleted d then m(ID (delta_Task d) := None) else m(ID (delta_Task d) \<mapsto> delta_Task d))"

definition emits :: "TaskDelta list \<Rightarrow> Store \<Rightarrow> Store \<Rightarrow> bool" where
  "emits ds s s' \<longleftrightarrow> store_hub s' = fold published ds (store_hub s)
     \<and> map_get (tasks s') = fold apply_delta ds (map_get (tasks s))"

definition same_limits :: "Store \<Rightarrow> Store \<Rightarrow> bool" where
  "same_limits s s' \<longleftrightarrow> retryHistoryLimit s' = retryHistoryLimit s
     \<and> refineSessionsLimit s' = refineSessionsLimit s \<and> promptHistoryLimit s' = promptHistoryLimit s"

definition good_step :: "lib \<Rightarrow> Store \<Rightarrow> Store \<Rightarrow> bool" where
  "good_step L s s' \<longleftrightarrow> store_inv L s' \<and> same_limits s s' \<and> io_fails (backend s') = io_fails (backend s)
     \<and> (no_save_faults s \<and> persisted s \<longrightarrow> persisted s' \<and> (\<exists>ds. emits ds s s'))"

lemma same_limits_prune: "same_limits s s' \<Longrightarrow> pruneTaskPayload s' t = pruneTaskPayload s t"
  by (simp add: same_limits_def pruneTaskPayload_def)

lemma good_step_refl: "store_inv L s \<Longrightarrow> good_step L s s"
  by (auto simp: good_step_def same_limits_def emits_def intro: exI[of _ "[]"])

lemma emits_append: "emits ds s s1 \<Longrightarrow> emits es s1 s2 \<Longrightarrow> emits (ds @ es) s s2"
  by (simp add: emits_def)

lemma good_step_trans:
  assumes "good_step L s s1" "good_step L s1 s2"
  shows "good_step L s s2"
proof -
  have "persisted s2 \<and> (\<exists>ds. emits ds s s2)" if h: "no_save_faults s" "persisted s"
  proof -
    have 1: "persisted s1" "\<exists>ds. emits ds s s1" "no_save_faults s1"
      using assms(1) h by (auto simp: good_step_def no_save_faults_def)
    then have "persisted s2" "\<exists>ds. emits ds s1 s2" using assms(2) by (auto simp: good_step_def)
    with 1 show ?thesis using emits_append by blast
  qed
  with assms show ?thesis by (auto simp: good_step_def same_limits_def)
qed

lemma good_step_inv: "good_step L s s' \<Longrightarrow> store_inv L s'"
  by (simp add: good_step_def)

text \<open>
  A change that leaves the task maps, the indexes and the hub alone, and on disk keeps every
  directory, every task file and every tombstone.
\<close>

definition frame_step :: "Store \<Rightarrow> Store \<Rightarrow> bool" where
  "frame_step s s' \<longleftrightarrow> tasks s' = tasks s \<and> deleted s' = deleted s \<and> tasksByStatus s' = tasksByStatus s
     \<and> searchIndex s' = searchIndex s \<and> store_hub s' = store_hub s \<and> same_limits s s'
     \<and> io_fails (backend s') = io_fails (backend s)
     \<and> (\<forall>i. map_get (dirs (backend s)) i \<noteq> None \<longrightarrow> map_get (dirs (backend s')) i \<noteq> None
          \<and> task_file (dir_at (backend s') i) = task_file (dir_at (backend s) i)
          \<and> map_get (blobs (dir_at (backend s') i)) ''tombstone.json''
              = map_get (blobs (dir_at (backend s) i)) ''tombstone.json'')"

lemma tombstoned_iff: "tombstoned i b \<longleftrightarrow> map_get (blobs (dir_at b i)) ''tombstone.json'' \<noteq> None"
  by (simp add: fs_blobs.present_def ReadBlob_def split: option.split)

lemma frame_good_step:
  assumes "store_inv L s" "frame_step s s'"
  shows "good_step L s s'"
proof -
  have "wf_store L s'"
    by (rule wf_store_cong[of _ s]) (use assms in \<open>simp_all add: frame_step_def store_inv_def wf_store_def\<close>)
  moreover have "durable s'" "tomb_ok s'"
    using assms by (auto simp: store_inv_def durable_def tomb_ok_def frame_step_def tombstoned_iff)
  moreover have "persisted s'" if "persisted s"
    using assms that same_limits_prune[of s s']
    by (auto simp: persisted_def store_inv_def durable_def frame_step_def)
  moreover have "emits [] s s'"
    using assms by (simp add: emits_def frame_step_def)
  ultimately show ?thesis
    using assms by (auto simp: good_step_def store_inv_def frame_step_def)
qed

lemma frame_step_refl [simp]: "frame_step s s"
  by (simp add: frame_step_def same_limits_def)

lemma frame_step_trans: "frame_step s s1 \<Longrightarrow> frame_step s1 s2 \<Longrightarrow> frame_step s s2"
  by (auto simp: frame_step_def same_limits_def)

text \<open>Changes outside the components that the contract speaks about.\<close>

lemma frame_simple [simp]:
  "frame_step s (s\<lparr>events := x\<rparr>) " "frame_step s (s\<lparr>nextSeq := n\<rparr>)" "frame_step s (s\<lparr>eventsLoaded := l\<rparr>)"
  "frame_step s (s\<lparr>compactions := c\<rparr>)" "frame_step s (s\<lparr>store_closed := b\<rparr>)" "frame_step s (s\<lparr>doneCalls := d\<rparr>)"
  "frame_step s (s\<lparr>OnDone := o'\<rparr>)"
  by (simp_all add: frame_step_def same_limits_def)

lemma frame_put_dir:
  assumes "task_file d = task_file (dir_at (backend s) i)"
    "map_get (blobs d) ''tombstone.json'' = map_get (blobs (dir_at (backend s) i)) ''tombstone.json''"
  shows "frame_step s (s\<lparr>backend := put_dir i d (backend s)\<rparr>)"
  using assms by (auto simp: frame_step_def same_limits_def put_dir_def dir_at_def)

lemma frame_SaveBlob:
  "key \<noteq> ''tombstone.json'' \<Longrightarrow> frame_step s (s\<lparr>backend := fst (SaveBlob i key data (backend s))\<rparr>)"
  by (auto simp: SaveBlob_def intro!: frame_put_dir)

section \<open>Writing a task\<close>

lemma dirs_written [simp]:
  "map_get (dirs (written s t)) j = (if j = ID t then Some (dir_at (written s t) j) else map_get (dirs (backend s)) j)"
  by (simp add: written_def put_dir_def dir_at_def)

lemma dir_at_written [simp]:
  "dir_at (written s t) j = (if j = ID t
     then (dir_at (backend s) j)\<lparr>task_file := Some (Some (pruneTaskPayload s (stamped t)))\<rparr>
     else dir_at (backend s) j)"
  by (simp add: written_def)

lemma io_fails_written [simp]: "io_fails (written s t) = io_fails (backend s)"
  by (simp add: written_def)

lemma tombstoned_written [simp]: "tombstoned i (written s t) \<longleftrightarrow> tombstoned i (backend s)"
  by (simp add: tombstoned_iff)

lemma inv_in_tasks:
  assumes "store_inv L s" "map_get (tasks s) i = Some t"
  shows "ID t = i" "map_get (deleted s) i = None" "map_get (dirs (backend s)) i \<noteq> None" "\<not> tombstoned i (backend s)"
  using assms wf_ID[of L s i t] wf_live_not_deleted[of L s i t]
  by (auto simp: store_inv_def durable_def tomb_ok_def)

text \<open>
  The tail of a mutating method: the caller has prepared the indexes in \<open>s1\<close>; the task is
  written, work that only touches framed state runs in between, subscribers are notified.
\<close>

definition write_and_notify :: "uuid \<Rightarrow> Task \<Rightarrow> (Task \<Rightarrow> Store \<Rightarrow> Store) \<Rightarrow> Store \<Rightarrow> unit outcome" where
  "write_and_notify i t g s = and_then (store_task i t s) (\<lambda>t' s'. notify t' False (g t' s'))"

lemma write_and_notify_plain:
  "and_then (store_task i t s) (\<lambda>t' s'. notify t' False s') = write_and_notify i t (\<lambda>_ s. s) s"
  by (simp add: write_and_notify_def)

definition prepares :: "lib \<Rightarrow> uuid \<Rightarrow> Task \<Rightarrow> Store \<Rightarrow> Store \<Rightarrow> bool" where
  "prepares L i t' s s1 \<longleftrightarrow> tasks s1 = tasks s \<and> deleted s1 = deleted s \<and> store_hub s1 = store_hub s
     \<and> backend s1 = backend s \<and> same_limits s s1 \<and> ID t' = i
     \<and> wf_store L (s1\<lparr>tasks := map_put i (stamped t') (tasks s1)\<rparr>)"

lemma prepared_write_inv:
  assumes "store_inv L s" "map_get (tasks s) i = Some t" "prepares L i t' s s1"
  shows "store_inv L (s1\<lparr>tasks := map_put i (stamped t') (tasks s1)\<rparr>)"
  using assms inv_in_tasks[OF assms(1,2)]
  by (auto simp: prepares_def store_inv_def durable_def tomb_ok_def)

lemma good_after_write:
  assumes "store_inv L s" "map_get (tasks s) i = Some t" "prepares L i t' s s1"
  shows "good_step L s (after_write i t' s1)"
proof -
  have p: "tasks s1 = tasks s" "deleted s1 = deleted s" "store_hub s1 = store_hub s" "backend s1 = backend s"
    "same_limits s s1" "ID t' = i"
    using assms(3) by (auto simp: prepares_def)
  note inv = prepared_write_inv[OF assms]
  have "wf_store L (after_write i t' s1)"
    using inv by (intro wf_after_write) (simp add: store_inv_def)
  moreover have "durable (after_write i t' s1)" "tomb_ok (after_write i t' s1)"
    using assms(1) inv_in_tasks[OF assms(1,2)] p
    by (auto simp: after_write_def store_inv_def durable_def tomb_ok_def)
  moreover have "persisted (after_write i t' s1)" if "persisted s"
    using that p inv_in_tasks(2)[OF assms(1,2)] same_limits_prune[OF p(5)]
    by (auto simp: after_write_def persisted_def pruneTaskPayload_def)
  moreover have "emits [update_delta (stamped t')] s (after_write i t' s1)"
    using p by (auto simp: emits_def after_write_def apply_delta_def fun_eq_iff)
  moreover have "same_limits s (after_write i t' s1)" "io_fails (backend (after_write i t' s1)) = io_fails (backend s)"
    using p by (simp_all add: after_write_def same_limits_def)
  ultimately show ?thesis by (auto simp: good_step_def store_inv_def)
qed

lemma good_write_and_notify:
  assumes "store_inv L s" "map_get (tasks s) i = Some t" "prepares L i t' s s1"
    and g: "\<And>t s. frame_step s (g t s)"
  shows "good_step L s (fst (write_and_notify i t' g s1))"
proof -
  have p: "backend s1 = backend s" "ID t' = i" "store_hub s1 = store_hub s" "same_limits s s1"
    using assms(3) by (auto simp: prepares_def)
  have subs: "subs_inv (store_hub s1)" using assms(1) p by (simp add: store_inv_def wf_store_def)
  obtain e where st: "store_task i t' s1 =
     (if save_ok (ID t') s1
      then (s1\<lparr>backend := written s1 t', tasks := map_put i (stamped t') (tasks s1)\<rparr>, Inr (stamped t'))
      else (s1\<lparr>tasks := map_put i (stamped t') (tasks s1)\<rparr>, Inl e))"
    using store_task_eq by blast
  show ?thesis
  proof (cases "save_ok i s1")
    case True
    define s2 where "s2 = s1\<lparr>backend := written s1 t', tasks := map_put i (stamped t') (tasks s1)\<rparr>"
    define s3 where "s3 = g (stamped t') s2"
    have fr: "frame_step s2 s3" using g by (simp add: s3_def)
    then have "subs_inv (store_hub s3)" using subs by (simp add: frame_step_def s2_def)
    then have res: "fst (write_and_notify i t' g s1)
        = s3\<lparr>store_hub := published (update_delta (stamped t')) (store_hub s3)\<rparr>"
      using True p by (simp add: write_and_notify_def st notify_eq s2_def[symmetric] s3_def[symmetric])
    have "frame_step (after_write i t' s1) (fst (write_and_notify i t' g s1))"
      using fr unfolding res by (simp add: frame_step_def after_write_def s2_def same_limits_def)
    moreover note good_after_write[OF assms(1-3)]
    ultimately show ?thesis
      using frame_good_step[OF good_step_inv] good_step_trans by blast
  next
    case False
    then have "\<not> no_save_faults s"
      using inv_in_tasks(3)[OF assms(1,2)] p by (auto simp: save_ok_def no_save_faults_def)
    with False show ?thesis
      using prepared_write_inv[OF assms(1-3)] p
      by (simp add: write_and_notify_def st good_step_def same_limits_def)
  qed
qed

section \<open>Mutations\<close>

text \<open>
  What the store relies on from a closure passed to \<open>mutateTask\<close>: an abort changes nothing; a
  success keeps identity and status, touches no store component but the search index, and
  leaves the entry of the task in step with its text.
\<close>

locale task_mutator =
  fixes L :: lib and i :: uuid and fn :: mutation
  assumes abort: "fn t s = (t', s', Some err) \<Longrightarrow> t' = t \<and> s' = s"
    and keeps: "fn t s = (t', s', None) \<Longrightarrow> ID t' = ID t \<and> Status t' = Status t
        \<and> s' = s\<lparr>searchIndex := searchIndex s'\<rparr>"
    and entry: "fn t s = (t', s', None) \<Longrightarrow> map_get (searchIndex s) i = Some e \<Longrightarrow> entry_ok L t e \<Longrightarrow>
        \<exists>e'. map_get (searchIndex s') i = Some e' \<and> entry_ok L t' e'"
    and entries: "fn t s = (t', s', None) \<Longrightarrow> j \<noteq> i \<Longrightarrow> map_get (searchIndex s') j = map_get (searchIndex s) j"
begin

lemma prepares_fn:
  assumes "wf_store L s" "map_get (tasks s) i = Some t" "fn t s = (t1, s1, None)"
  shows "prepares L i (t1\<lparr>UpdatedAt := now\<rparr>) s s1"
proof -
  have k: "ID t1 = i" "Status t1 = Status t" "s1 = s\<lparr>searchIndex := searchIndex s1\<rparr>"
    using keeps[OF assms(3)] wf_ID[OF assms(1,2)] by auto
  obtain e where e: "map_get (searchIndex s) i = Some e" "entry_ok L t e"
    using wf_entry_ex[OF assms(1,2)] by blast
  obtain e' where e': "map_get (searchIndex s1) i = Some e'" "entry_ok L t1 e'"
    using entry[OF assms(3) e] by blast
  have sub: "tasks s1 = tasks s" "deleted s1 = deleted s" "store_hub s1 = store_hub s"
    "backend s1 = backend s" "tasksByStatus s1 = tasksByStatus s" "same_limits s s1"
    by (subst k(3), simp add: same_limits_def)+
  have "wf_store L (s1\<lparr>tasks := map_put i (stamped (t1\<lparr>UpdatedAt := now\<rparr>)) (tasks s1)\<rparr>)"
    using assms(1,2) k(1,2) sub e' entries[OF assms(3)] wf_live_not_deleted[OF assms(1,2)]
      entry_ok_cong[of "stamped (t1\<lparr>UpdatedAt := now\<rparr>)" t1 L e']
    by (auto simp: wf_store_def keys_ok_def status_ok_def index_ok_def)
  with k(1) sub show ?thesis by (simp add: prepares_def)
qed

lemma good: "store_inv L s \<Longrightarrow> good_step L s (fst (mutateTask i fn now s))"
proof (cases "map_get (tasks s) i")
  case None
  then show "store_inv L s \<Longrightarrow> ?thesis" by (simp add: mutateTask_def good_step_refl)
next
  case (Some t)
  assume inv: "store_inv L s"
  obtain t1 s1 r where fn: "fn t s = (t1, s1, r)" by (metis prod_cases3)
  show ?thesis
  proof (cases r)
    case None
    have "prepares L i (t1\<lparr>UpdatedAt := now\<rparr>) s s1"
      using prepares_fn Some fn None inv by (simp add: store_inv_def)
    with good_write_and_notify[OF inv Some this, of "\<lambda>_ s. s"] show ?thesis
      by (simp add: mutateTask_def Some fn None write_and_notify_plain)
  next
    case (Some e)
    with abort fn have "t1 = t" "s1 = s" by blast+
    then show ?thesis
      using inv \<open>map_get (tasks s) i = Some t\<close> fn Some
      by (simp add: mutateTask_def map_put_same good_step_refl)
  qed
qed

end

text \<open>Closures that leave the indexed text alone, and closures that refresh the entry.\<close>

locale field_mutator =
  fixes L :: lib and i :: uuid and check :: "Task \<Rightarrow> error option" and f :: "Task \<Rightarrow> Task"
  assumes keeps_text: "ID (f t) = ID t" "Status (f t) = Status t" "Title (f t) = Title t"
    "Prompt (f t) = Prompt t" "Tags (f t) = Tags t"

sublocale field_mutator \<subseteq> task_mutator L i "assign_if check f"
proof
  fix t s t' s' err
  assume "assign_if check f t s = (t', s', Some err)"
  then show "t' = t \<and> s' = s" by (auto simp: assign_if_def split: option.splits)
next
  fix t s t' s'
  assume "assign_if check f t s = (t', s', None)"
  then have "t' = f t \<and> s' = s" by (auto simp: assign_if_def split: option.splits)
  then show "ID t' = ID t \<and> Status t' = Status t \<and> s' = s\<lparr>searchIndex := searchIndex s'\<rparr>"
    "map_get (searchIndex s) i = Some e \<Longrightarrow> entry_ok L t e \<Longrightarrow>
       \<exists>e'. map_get (searchIndex s') i = Some e' \<and> entry_ok L t' e'"
    "j \<noteq> i \<Longrightarrow> map_get (searchIndex s') j = map_get (searchIndex s) j" for e j
    using keeps_text entry_ok_cong[of "f t" t L] by auto
qed

locale text_mutator =
  fixes L :: lib and i :: uuid and check :: "Task \<Rightarrow> error option" and f :: "Task \<Rightarrow> Task"
    and g :: "indexedTaskText \<Rightarrow> indexedTaskText"
  assumes keeps_key: "ID (f t) = ID t" "Status (f t) = Status t"
    and refreshes: "entry_ok L t e \<Longrightarrow> entry_ok L (f t) (g e)"

sublocale text_mutator \<subseteq> task_mutator L i "assign_indexed i check f g"
proof
  fix t s t' s' err
  assume "assign_indexed i check f g t s = (t', s', Some err)"
  then show "t' = t \<and> s' = s" by (auto simp: assign_indexed_def split: option.splits)
next
  fix t s t' s'
  assume "assign_indexed i check f g t s = (t', s', None)"
  then have "t' = f t \<and> s' = updateIndexEntry i g s" by (auto simp: assign_indexed_def split: option.splits)
  then show "ID t' = ID t \<and> Status t' = Status t \<and> s' = s\<lparr>searchIndex := searchIndex s'\<rparr>"
    "map_get (searchIndex s) i = Some e \<Longrightarrow> entry_ok L t e \<Longrightarrow>
       \<exists>e'. map_get (searchIndex s') i = Some e' \<and> entry_ok L t' e'"
    "j \<noteq> i \<Longrightarrow> map_get (searchIndex s') j = map_get (searchIndex s) j" for e j
    using keeps_key refreshes by (auto simp: updateIndexEntry_def split: option.split)
qed

lemma assign_is_assign_if: "assign f = assign_if (\<lambda>_. None) f"
  by (simp add: assign_def assign_if_def)

end
