(* ===== verification/Store_Update.thy ===== *)
theory Store_Update
  imports Store_Invariant
begin

text \<open>
  The field updates of \<open>internal/store/tasks_update.go\<close> and \<open>tasks_worktree.go\<close>: the methods
  that go through \<open>mutateTask\<close>. A nil pointer argument is \<open>None\<close>. Each closure is interpreted
  as a mutator, which gives the contract of the method.
\<close>

section \<open>Display and results\<close>

definition UpdateTaskTitle :: "lib \<Rightarrow> uuid \<Rightarrow> string \<Rightarrow> time \<Rightarrow> Store \<Rightarrow> unit outcome" where
  "UpdateTaskTitle L i title now s =
     mutateTask i (assign_indexed i (\<lambda>_. None) (\<lambda>t. t\<lparr>Title := title\<rparr>)
       (\<lambda>entry. entry\<lparr>ix_title := lower L title\<rparr>)) now s"

definition UpdateTaskExecutionPrompt :: "uuid \<Rightarrow> string \<Rightarrow> time \<Rightarrow> Store \<Rightarrow> unit outcome" where
  "UpdateTaskExecutionPrompt i executionPrompt now s =
     mutateTask i (assign (\<lambda>t. t\<lparr>ExecutionPrompt := executionPrompt\<rparr>)) now s"

definition UpdateTaskTurns :: "uuid \<Rightarrow> int \<Rightarrow> time \<Rightarrow> Store \<Rightarrow> unit outcome" where
  "UpdateTaskTurns i turns now s = mutateTask i (assign (\<lambda>t. t\<lparr>Turns := turns\<rparr>)) now s"

definition UpdateTaskResult :: "uuid \<Rightarrow> string \<Rightarrow> string \<Rightarrow> string \<Rightarrow> int \<Rightarrow> time \<Rightarrow> Store \<Rightarrow> unit outcome" where
  "UpdateTaskResult i result sessionID stopReason turns now s =
     mutateTask i (assign (\<lambda>t. t\<lparr>Result := Some result, SessionID := Some sessionID,
       StopReason := Some stopReason, Turns := turns\<rparr>)) now s"

definition UpdateTaskLineage :: "uuid \<Rightarrow> string \<Rightarrow> time \<Rightarrow> Store \<Rightarrow> unit outcome" where
  "UpdateTaskLineage i lineageJSON now s = mutateTask i (assign (\<lambda>t. t\<lparr>Lineage := Some lineageJSON\<rparr>)) now s"

definition UpdateTaskReview :: "uuid \<Rightarrow> int \<Rightarrow> string \<Rightarrow> string \<Rightarrow> time \<Rightarrow> Store \<Rightarrow> unit outcome" where
  "UpdateTaskReview i unresolved headline sessionDir now s =
     mutateTask i (assign (\<lambda>t. t\<lparr>ReviewUnresolved := Some unresolved, ReviewHeadline := headline,
       ReviewSessionDir := sessionDir\<rparr>)) now s"

definition UpdateTaskCriteria :: "uuid \<Rightarrow> string \<Rightarrow> time \<Rightarrow> Store \<Rightarrow> unit outcome" where
  "UpdateTaskCriteria i criteria now s = mutateTask i (assign (\<lambda>t. t\<lparr>Criteria := criteria\<rparr>)) now s"

definition ClearReviewResult :: "uuid \<Rightarrow> time \<Rightarrow> Store \<Rightarrow> unit outcome" where
  "ClearReviewResult i now s =
     mutateTask i (assign (\<lambda>t. t\<lparr>ReviewUnresolved := None, ReviewHeadline := [], ReviewSessionDir := []\<rparr>)) now s"

definition add_usage :: "SandboxActivity \<Rightarrow> TaskUsage \<Rightarrow> Task \<Rightarrow> Task" where
  "add_usage agent delta t =
     t\<lparr>Usage := usage_add (Usage t) delta,
       UsageBreakdown := map_put agent (usage_add (map_at zero_usage (UsageBreakdown t) agent) delta)
         (UsageBreakdown t)\<rparr>"

definition AccumulateSubAgentUsage :: "uuid \<Rightarrow> SandboxActivity \<Rightarrow> TaskUsage \<Rightarrow> time \<Rightarrow> Store \<Rightarrow> unit outcome" where
  "AccumulateSubAgentUsage i agent delta now s = mutateTask i (assign (add_usage agent delta)) now s"

definition UpdateTaskPosition :: "uuid \<Rightarrow> int \<Rightarrow> time \<Rightarrow> Store \<Rightarrow> unit outcome" where
  "UpdateTaskPosition i position now s = mutateTask i (assign (\<lambda>t. t\<lparr>Position := position\<rparr>)) now s"

definition UpdateTaskScheduledAt :: "uuid \<Rightarrow> time option \<Rightarrow> time \<Rightarrow> Store \<Rightarrow> unit outcome" where
  "UpdateTaskScheduledAt i scheduledAt now s =
     mutateTask i (assign (\<lambda>t. t\<lparr>ScheduledAt := scheduledAt\<rparr>)) now s"

definition UpdateTaskDependsOn :: "uuid \<Rightarrow> string list \<Rightarrow> time \<Rightarrow> Store \<Rightarrow> unit outcome" where
  "UpdateTaskDependsOn i dependsOn now s = mutateTask i (assign (\<lambda>t. t\<lparr>DependsOn := dependsOn\<rparr>)) now s"

definition UpdateTaskTags :: "lib \<Rightarrow> uuid \<Rightarrow> string list \<Rightarrow> time \<Rightarrow> Store \<Rightarrow> unit outcome" where
  "UpdateTaskTags L i tags now s =
     mutateTask i (assign_indexed i (\<lambda>_. None) (\<lambda>t. t\<lparr>Tags := tags\<rparr>)
       (\<lambda>entry. entry\<lparr>ix_tags := lower L (Join tags '' '')\<rparr>)) now s"

section \<open>Configuration\<close>

record backlog_edit =
  be_prompt :: "string option"
  be_timeout :: "int option"
  be_freshStart :: "bool option"
  be_mountWorktrees :: "bool option"
  be_sandboxByActivity :: "(SandboxActivity, harness_ID) gomap option"
  be_maxCostUSD :: "real option"
  be_maxInputTokens :: "int option"

definition when_some :: "'a option \<Rightarrow> ('a \<Rightarrow> 'b \<Rightarrow> 'b) \<Rightarrow> 'b \<Rightarrow> 'b" where
  "when_some x f y = (case x of None \<Rightarrow> y | Some a \<Rightarrow> f a y)"

definition set_budget :: "real option \<Rightarrow> int option \<Rightarrow> Task \<Rightarrow> Task" where
  "set_budget maxCostUSD maxInputTokens t =
     when_some maxInputTokens (\<lambda>v t. t\<lparr>MaxInputTokens := clampNonNeg v\<rparr>)
       (when_some maxCostUSD (\<lambda>v t. t\<lparr>MaxCostUSD := clampNonNeg v\<rparr>) t)"

definition apply_backlog_edit :: "lib \<Rightarrow> backlog_edit \<Rightarrow> Task \<Rightarrow> Task" where
  "apply_backlog_edit L ed t =
     set_budget (be_maxCostUSD ed) (be_maxInputTokens ed)
       (when_some (be_sandboxByActivity ed)
          (\<lambda>v t. t\<lparr>SandboxByActivity := normalizeSandboxByActivity L v\<rparr>)
       (when_some (be_mountWorktrees ed) (\<lambda>v t. t\<lparr>MountWorktrees := v\<rparr>)
       (when_some (be_freshStart ed) (\<lambda>v t. t\<lparr>FreshStart := v\<rparr>)
       (when_some (be_timeout ed) (\<lambda>v t. t\<lparr>Timeout := clampTimeout v\<rparr>)
       (when_some (be_prompt ed) (\<lambda>v t. t\<lparr>Prompt := v\<rparr>) t)))))"

definition UpdateTaskBacklog :: "lib \<Rightarrow> uuid \<Rightarrow> backlog_edit \<Rightarrow> time \<Rightarrow> Store \<Rightarrow> unit outcome" where
  "UpdateTaskBacklog L i ed now s =
     mutateTask i (assign_indexed i (\<lambda>_. None) (apply_backlog_edit L ed)
       (\<lambda>entry. when_some (be_prompt ed) (\<lambda>v e. e\<lparr>ix_prompt := lower L v\<rparr>) entry)) now s"

definition UpdateTaskBudget :: "uuid \<Rightarrow> real option \<Rightarrow> int option \<Rightarrow> time \<Rightarrow> Store \<Rightarrow> unit outcome" where
  "UpdateTaskBudget i maxCostUSD maxInputTokens now s =
     mutateTask i (assign (set_budget maxCostUSD maxInputTokens)) now s"

definition UpdateTaskSandboxByActivity ::
  "lib \<Rightarrow> uuid \<Rightarrow> (SandboxActivity, harness_ID) gomap \<Rightarrow> time \<Rightarrow> Store \<Rightarrow> unit outcome" where
  "UpdateTaskSandboxByActivity L i sba now s =
     mutateTask i (assign (\<lambda>t. t\<lparr>SandboxByActivity := normalizeSandboxByActivity L sba\<rparr>)) now s"

definition UpdateTaskSandbox :: "lib \<Rightarrow> uuid \<Rightarrow> string \<Rightarrow> time \<Rightarrow> Store \<Rightarrow> unit outcome" where
  "UpdateTaskSandbox L i sb now s = mutateTask i (assign (\<lambda>t. t\<lparr>Sandbox := NormalizeID L sb\<rparr>)) now s"

definition UpdateTaskFlow :: "uuid \<Rightarrow> string \<Rightarrow> time \<Rightarrow> Store \<Rightarrow> unit outcome" where
  "UpdateTaskFlow i flowID now s = mutateTask i (assign (\<lambda>t. t\<lparr>FlowID := flowID\<rparr>)) now s"

definition UpdateTaskModelOverride :: "uuid \<Rightarrow> string \<Rightarrow> time \<Rightarrow> Store \<Rightarrow> unit outcome" where
  "UpdateTaskModelOverride i model now s =
     (let m = TrimSpace model in
      mutateTask i (assign (\<lambda>t. t\<lparr>ModelOverride := (if m = [] then None else Some m)\<rparr>)) now s)"

definition UpdateTaskCustomPatterns :: "uuid \<Rightarrow> string list \<Rightarrow> string list \<Rightarrow> time \<Rightarrow> Store \<Rightarrow> unit outcome" where
  "UpdateTaskCustomPatterns i passPatterns failPatterns now s =
     mutateTask i (assign (\<lambda>t. t\<lparr>CustomPassPatterns := passPatterns, CustomFailPatterns := failPatterns\<rparr>)) now s"

definition UpdateTaskEnvironment :: "uuid \<Rightarrow> ExecutionEnvironment \<Rightarrow> time \<Rightarrow> Store \<Rightarrow> unit outcome" where
  "UpdateTaskEnvironment i env now s = mutateTask i (assign (\<lambda>t. t\<lparr>Environment := Some env\<rparr>)) now s"

definition SetTaskArchived :: "uuid \<Rightarrow> bool \<Rightarrow> time \<Rightarrow> Store \<Rightarrow> unit outcome" where
  "SetTaskArchived i archived now s = mutateTask i (assign (\<lambda>t. t\<lparr>Archived := archived\<rparr>)) now s"

text \<open>\<open>UpdateTaskPromptDirect\<close> also returns the previous prompt and whether the task was waiting.\<close>

definition prompt_editable :: "Task \<Rightarrow> error option" where
  "prompt_editable t = (if Status t \<noteq> TaskStatusBacklog \<and> Status t \<noteq> TaskStatusWaiting
     then Some (ErrPromptStatus (Status t)) else None)"

definition UpdateTaskPromptDirect :: "lib \<Rightarrow> uuid \<Rightarrow> string \<Rightarrow> time \<Rightarrow> Store \<Rightarrow> (string \<times> bool) \<times> unit outcome" where
  "UpdateTaskPromptDirect L i newPrompt now s =
     ((case map_get (tasks s) i of
         None \<Rightarrow> ([], False)
       | Some t \<Rightarrow> if prompt_editable t = None then (Prompt t, Status t = TaskStatusWaiting) else ([], False)),
      mutateTask i (assign_indexed i prompt_editable (\<lambda>t. t\<lparr>Prompt := newPrompt\<rparr>)
        (\<lambda>entry. entry\<lparr>ix_prompt := lower L newPrompt\<rparr>)) now s)"

section \<open>Routines\<close>

definition require_routine :: "uuid \<Rightarrow> Task \<Rightarrow> error option" where
  "require_routine i t = (if \<not> IsRoutine t then Some (ErrNotRoutine i) else None)"

definition UpdateRoutineSchedule :: "uuid \<Rightarrow> int \<Rightarrow> time \<Rightarrow> Store \<Rightarrow> unit outcome" where
  "UpdateRoutineSchedule i intervalSeconds now s =
     mutateTask i (assign_if (require_routine i)
       (\<lambda>t. t\<lparr>RoutineIntervalSeconds := clampNonNeg intervalSeconds\<rparr>)) now s"

definition set_routine_enabled :: "bool \<Rightarrow> Task \<Rightarrow> Task" where
  "set_routine_enabled enabled t =
     (let t' = t\<lparr>RoutineEnabled := enabled\<rparr> in if \<not> enabled then t'\<lparr>RoutineNextRun := None\<rparr> else t')"

definition UpdateRoutineEnabled :: "uuid \<Rightarrow> bool \<Rightarrow> time \<Rightarrow> Store \<Rightarrow> unit outcome" where
  "UpdateRoutineEnabled i enabled now s =
     mutateTask i (assign_if (require_routine i) (set_routine_enabled enabled)) now s"

definition nonzero_time :: "time option \<Rightarrow> time option" where
  "nonzero_time x = (case x of None \<Rightarrow> None | Some v \<Rightarrow> if IsZero v then None else Some v)"

definition UpdateRoutineNextRun :: "uuid \<Rightarrow> time option \<Rightarrow> time \<Rightarrow> Store \<Rightarrow> unit outcome" where
  "UpdateRoutineNextRun i nextRun now s =
     mutateTask i (assign_if (require_routine i) (\<lambda>t. t\<lparr>RoutineNextRun := nonzero_time nextRun\<rparr>)) now s"

definition UpdateRoutineLastFiredAt :: "uuid \<Rightarrow> time option \<Rightarrow> time \<Rightarrow> Store \<Rightarrow> unit outcome" where
  "UpdateRoutineLastFiredAt i fired now s =
     mutateTask i (assign_if (require_routine i) (\<lambda>t. t\<lparr>RoutineLastFiredAt := nonzero_time fired\<rparr>)) now s"

section \<open>Worktrees, tests, failures\<close>

definition UpdateTaskWorktrees :: "uuid \<Rightarrow> (string, string) gomap \<Rightarrow> string \<Rightarrow> time \<Rightarrow> Store \<Rightarrow> unit outcome" where
  "UpdateTaskWorktrees i worktreePaths branchName now s =
     mutateTask i (assign (\<lambda>t. t\<lparr>WorktreePaths := worktreePaths, BranchName := branchName\<rparr>)) now s"

definition UpdateTaskCommitHashes :: "uuid \<Rightarrow> (string, string) gomap \<Rightarrow> time \<Rightarrow> Store \<Rightarrow> unit outcome" where
  "UpdateTaskCommitHashes i hashes now s = mutateTask i (assign (\<lambda>t. t\<lparr>CommitHashes := hashes\<rparr>)) now s"

definition set_test_run :: "bool \<Rightarrow> string \<Rightarrow> Task \<Rightarrow> Task" where
  "set_test_run isTestRun lastTestResult t =
     (let t1 = t\<lparr>IsTestRun := isTestRun, LastTestResult := lastTestResult\<rparr>;
          t2 = (if isTestRun \<or> lastTestResult \<noteq> ''fail'' then t1\<lparr>PendingTestFeedback := []\<rparr> else t1)
      in if isTestRun then t2\<lparr>TestRunStartTurn := Turns t2\<rparr> else t2)"

definition UpdateTaskTestRun :: "uuid \<Rightarrow> bool \<Rightarrow> string \<Rightarrow> time \<Rightarrow> Store \<Rightarrow> unit outcome" where
  "UpdateTaskTestRun i isTestRun lastTestResult now s =
     mutateTask i (assign (set_test_run isTestRun lastTestResult)) now s"

definition UpdateTaskPendingTestFeedback :: "uuid \<Rightarrow> string \<Rightarrow> time \<Rightarrow> Store \<Rightarrow> unit outcome" where
  "UpdateTaskPendingTestFeedback i message now s =
     mutateTask i (assign (\<lambda>t. t\<lparr>PendingTestFeedback := message\<rparr>)) now s"

definition IncrementTestFailCount :: "uuid \<Rightarrow> time \<Rightarrow> Store \<Rightarrow> unit outcome" where
  "IncrementTestFailCount i now s = mutateTask i (assign (\<lambda>t. t\<lparr>TestFailCount := TestFailCount t + 1\<rparr>)) now s"

definition ResetTestFailCount :: "uuid \<Rightarrow> time \<Rightarrow> Store \<Rightarrow> unit outcome" where
  "ResetTestFailCount i now s = mutateTask i (assign (\<lambda>t. t\<lparr>TestFailCount := 0\<rparr>)) now s"

definition SetTaskFailureCategory :: "uuid \<Rightarrow> FailureCategory \<Rightarrow> time \<Rightarrow> Store \<Rightarrow> unit outcome" where
  "SetTaskFailureCategory i cat now s = mutateTask i (assign (\<lambda>t. t\<lparr>FailureCategory := cat\<rparr>)) now s"

definition UpdateTaskCommitMessage :: "uuid \<Rightarrow> string \<Rightarrow> time \<Rightarrow> Store \<Rightarrow> unit outcome" where
  "UpdateTaskCommitMessage i msg now s = mutateTask i (assign (\<lambda>t. t\<lparr>CommitMessage := msg\<rparr>)) now s"

definition UpdateTaskSnapshotDiffs :: "uuid \<Rightarrow> (string, string) gomap \<Rightarrow> time \<Rightarrow> Store \<Rightarrow> unit outcome" where
  "UpdateTaskSnapshotDiffs i snapshots now s = mutateTask i (assign (\<lambda>t. t\<lparr>SnapshotDiffs := snapshots\<rparr>)) now s"

definition UpdateTaskBaseCommitHashes :: "uuid \<Rightarrow> (string, string) gomap \<Rightarrow> time \<Rightarrow> Store \<Rightarrow> unit outcome" where
  "UpdateTaskBaseCommitHashes i hashes now s = mutateTask i (assign (\<lambda>t. t\<lparr>BaseCommitHashes := hashes\<rparr>)) now s"

definition MarkTurnTruncated :: "uuid \<Rightarrow> int \<Rightarrow> time \<Rightarrow> Store \<Rightarrow> unit outcome" where
  "MarkTurnTruncated i turn now s =
     mutateTask i (assign (\<lambda>t. t\<lparr>TruncatedTurns := TruncatedTurns t @ [turn]\<rparr>)) now s"

definition consume_retry :: "FailureCategory \<Rightarrow> Task \<Rightarrow> Task" where
  "consume_retry category t =
     (let budget = (case AutoRetryBudget t of None \<Rightarrow> [] | Some m \<Rightarrow> m)
      in t\<lparr>AutoRetryCount := AutoRetryCount t + 1,
           AutoRetryBudget := Some (if map_at 0 budget category > 0
             then map_put category (map_at 0 budget category - 1) budget else budget)\<rparr>)"

definition IncrementAutoRetryCount :: "uuid \<Rightarrow> FailureCategory \<Rightarrow> time \<Rightarrow> Store \<Rightarrow> unit outcome" where
  "IncrementAutoRetryCount i category now s = mutateTask i (assign (consume_retry category)) now s"

definition RecordFetchFailure :: "uuid \<Rightarrow> string \<Rightarrow> time \<Rightarrow> time \<Rightarrow> Store \<Rightarrow> unit outcome" where
  "RecordFetchFailure i msg failedAt now s =
     mutateTask i (assign (\<lambda>t. t\<lparr>LastFetchError := msg, LastFetchErrorAt := Some failedAt\<rparr>)) now s"

definition ClearFetchFailure :: "uuid \<Rightarrow> time \<Rightarrow> Store \<Rightarrow> unit outcome" where
  "ClearFetchFailure i now s =
     (case map_get (tasks s) i of
        None \<Rightarrow> (s, Inr ())
      | Some t \<Rightarrow>
          if LastFetchError t = [] \<and> LastFetchErrorAt t = None then (s, Inr ())
          else mutateTask i (assign (\<lambda>t. t\<lparr>LastFetchError := [], LastFetchErrorAt := None\<rparr>)) now s)"

section \<open>Refinement\<close>

definition UpdateRefinementJob :: "uuid \<Rightarrow> RefinementJob option \<Rightarrow> time \<Rightarrow> Store \<Rightarrow> unit outcome" where
  "UpdateRefinementJob i job now s = mutateTask i (assign (\<lambda>t. t\<lparr>CurrentRefinement := job\<rparr>)) now s"

abbreviation RefinementRecentCompleteWindow :: duration where
  "RefinementRecentCompleteWindow \<equiv> 500 * 1000000"

definition refinement_busy :: "time \<Rightarrow> Task \<Rightarrow> error option" where
  "refinement_busy clock t =
     (case CurrentRefinement t of
        None \<Rightarrow> None
      | Some job \<Rightarrow>
          if rj_Status job = RefinementJobStatusRunning then Some ErrRefinementAlreadyRunning
          else if rj_Source job = ''runner''
                \<and> (rj_Status job = RefinementJobStatusFailed \<or> rj_Status job = RefinementJobStatusDone)
                \<and> clock - UpdatedAt t \<ge> 0 \<and> clock - UpdatedAt t < RefinementRecentCompleteWindow
                \<and> (rj_Error job \<noteq> [] \<or> rj_Result job \<noteq> [])
          then Some ErrRefinementAlreadyRunning else None)"

definition StartRefinementJobIfIdle :: "uuid \<Rightarrow> RefinementJob \<Rightarrow> time \<Rightarrow> time \<Rightarrow> Store \<Rightarrow> unit outcome" where
  "StartRefinementJobIfIdle i job clock now s =
     mutateTask i (assign_if (refinement_busy clock) (\<lambda>t. t\<lparr>CurrentRefinement := Some job\<rparr>)) now s"

definition apply_refinement :: "string \<Rightarrow> RefinementSession \<Rightarrow> Task \<Rightarrow> Task" where
  "apply_refinement newPrompt session t =
     t\<lparr>PromptHistory := PromptHistory t @ [Prompt t],
       RefineSessions := RefineSessions t @ [session\<lparr>ResultPrompt := newPrompt\<rparr>],
       Prompt := newPrompt, CurrentRefinement := None\<rparr>"

definition ApplyRefinement :: "lib \<Rightarrow> uuid \<Rightarrow> string \<Rightarrow> RefinementSession \<Rightarrow> time \<Rightarrow> Store \<Rightarrow> unit outcome" where
  "ApplyRefinement L i newPrompt session now s =
     mutateTask i (assign_indexed i (\<lambda>_. None) (apply_refinement newPrompt session)
       (\<lambda>entry. entry\<lparr>ix_prompt := lower L newPrompt\<rparr>)) now s"

definition DismissRefinement :: "uuid \<Rightarrow> time \<Rightarrow> Store \<Rightarrow> unit outcome" where
  "DismissRefinement i now s = mutateTask i (assign (\<lambda>t. t\<lparr>CurrentRefinement := None\<rparr>)) now s"

section \<open>Interpretations\<close>

lemma set_budget_keeps [simp]:
  "ID (set_budget c n t) = ID t" "Status (set_budget c n t) = Status t" "Title (set_budget c n t) = Title t"
  "Prompt (set_budget c n t) = Prompt t" "Tags (set_budget c n t) = Tags t"
  by (simp_all add: set_budget_def when_some_def split: option.split)

lemma apply_backlog_edit_keeps [simp]:
  "ID (apply_backlog_edit L ed t) = ID t" "Status (apply_backlog_edit L ed t) = Status t"
  "Title (apply_backlog_edit L ed t) = Title t" "Tags (apply_backlog_edit L ed t) = Tags t"
  "Prompt (apply_backlog_edit L ed t) = (case be_prompt ed of None \<Rightarrow> Prompt t | Some v \<Rightarrow> v)"
  by (simp_all add: apply_backlog_edit_def when_some_def split: option.split)

interpretation title_m: text_mutator L i "\<lambda>_. None" "\<lambda>t. t\<lparr>Title := title\<rparr>" "\<lambda>e. e\<lparr>ix_title := lower L title\<rparr>"
  for L i title
  by unfold_locales (simp_all add: entry_ok_def)

interpretation tags_m: text_mutator L i "\<lambda>_. None" "\<lambda>t. t\<lparr>Tags := tags\<rparr>" "\<lambda>e. e\<lparr>ix_tags := lower L (Join tags '' '')\<rparr>"
  for L i tags
  by unfold_locales (simp_all add: entry_ok_def)

interpretation backlog_m: text_mutator L i "\<lambda>_. None" "apply_backlog_edit L ed"
  "\<lambda>e. when_some (be_prompt ed) (\<lambda>v e. e\<lparr>ix_prompt := lower L v\<rparr>) e"
  for L i ed
  by unfold_locales (simp_all add: entry_ok_def when_some_def split: option.split)

interpretation prompt_m: text_mutator L i prompt_editable "\<lambda>t. t\<lparr>Prompt := newPrompt\<rparr>"
  "\<lambda>e. e\<lparr>ix_prompt := lower L newPrompt\<rparr>"
  for L i newPrompt
  by unfold_locales (simp_all add: entry_ok_def)

interpretation refine_m: text_mutator L i "\<lambda>_. None" "apply_refinement newPrompt session"
  "\<lambda>e. e\<lparr>ix_prompt := lower L newPrompt\<rparr>"
  for L i newPrompt session
  by unfold_locales (simp_all add: entry_ok_def apply_refinement_def)

lemmas update_closures = add_usage_def set_routine_enabled_def set_test_run_def consume_retry_def Let_def

interpretation executionPrompt_m: field_mutator L i "\<lambda>_. None" "\<lambda>t. t\<lparr>ExecutionPrompt := executionPrompt\<rparr>" for L i executionPrompt
  by unfold_locales (simp_all add: update_closures)

interpretation turns_m: field_mutator L i "\<lambda>_. None" "\<lambda>t. t\<lparr>Turns := turns\<rparr>" for L i turns
  by unfold_locales (simp_all add: update_closures)

interpretation result_m: field_mutator L i "\<lambda>_. None" "\<lambda>t. t\<lparr>Result := Some result, SessionID := Some sessionID, StopReason := Some stopReason, Turns := turns\<rparr>" for L i result sessionID stopReason turns
  by unfold_locales (simp_all add: update_closures)

interpretation lineage_m: field_mutator L i "\<lambda>_. None" "\<lambda>t. t\<lparr>Lineage := Some lineageJSON\<rparr>" for L i lineageJSON
  by unfold_locales (simp_all add: update_closures)

interpretation review_m: field_mutator L i "\<lambda>_. None" "\<lambda>t. t\<lparr>ReviewUnresolved := Some unresolved, ReviewHeadline := headline, ReviewSessionDir := sessionDir\<rparr>" for L i unresolved headline sessionDir
  by unfold_locales (simp_all add: update_closures)

interpretation criteria_m: field_mutator L i "\<lambda>_. None" "\<lambda>t. t\<lparr>Criteria := criteria\<rparr>" for L i criteria
  by unfold_locales (simp_all add: update_closures)

interpretation clearReviewResult_m: field_mutator L i "\<lambda>_. None" "\<lambda>t. t\<lparr>ReviewUnresolved := None, ReviewHeadline := [], ReviewSessionDir := []\<rparr>" for L i
  by unfold_locales (simp_all add: update_closures)

interpretation accumulateSubAgentUsage_m: field_mutator L i "\<lambda>_. None" "add_usage agent delta" for L i agent delta
  by unfold_locales (simp_all add: update_closures)

interpretation position_m: field_mutator L i "\<lambda>_. None" "\<lambda>t. t\<lparr>Position := position\<rparr>" for L i position
  by unfold_locales (simp_all add: update_closures)

interpretation scheduledAt_m: field_mutator L i "\<lambda>_. None" "\<lambda>t. t\<lparr>ScheduledAt := scheduledAt\<rparr>" for L i scheduledAt
  by unfold_locales (simp_all add: update_closures)

interpretation dependsOn_m: field_mutator L i "\<lambda>_. None" "\<lambda>t. t\<lparr>DependsOn := dependsOn\<rparr>" for L i dependsOn
  by unfold_locales (simp_all add: update_closures)

interpretation budget_m: field_mutator L i "\<lambda>_. None" "set_budget maxCostUSD maxInputTokens" for L i maxCostUSD maxInputTokens
  by unfold_locales (simp_all add: update_closures)

interpretation sandboxByActivity_m: field_mutator L i "\<lambda>_. None" "\<lambda>t. t\<lparr>SandboxByActivity := normalizeSandboxByActivity L sba\<rparr>" for L i sba
  by unfold_locales (simp_all add: update_closures)

interpretation sandbox_m: field_mutator L i "\<lambda>_. None" "\<lambda>t. t\<lparr>Sandbox := NormalizeID L sb\<rparr>" for L i sb
  by unfold_locales (simp_all add: update_closures)

interpretation flow_m: field_mutator L i "\<lambda>_. None" "\<lambda>t. t\<lparr>FlowID := flowID\<rparr>" for L i flowID
  by unfold_locales (simp_all add: update_closures)

interpretation modelOverride_m: field_mutator L i "\<lambda>_. None" "\<lambda>t. t\<lparr>ModelOverride := (if TrimSpace model = [] then None else Some (TrimSpace model))\<rparr>" for L i model
  by unfold_locales (simp_all add: update_closures)

interpretation customPatterns_m: field_mutator L i "\<lambda>_. None" "\<lambda>t. t\<lparr>CustomPassPatterns := passPatterns, CustomFailPatterns := failPatterns\<rparr>" for L i passPatterns failPatterns
  by unfold_locales (simp_all add: update_closures)

interpretation environment_m: field_mutator L i "\<lambda>_. None" "\<lambda>t. t\<lparr>Environment := Some env\<rparr>" for L i env
  by unfold_locales (simp_all add: update_closures)

interpretation archived_m: field_mutator L i "\<lambda>_. None" "\<lambda>t. t\<lparr>Archived := archived\<rparr>" for L i archived
  by unfold_locales (simp_all add: update_closures)

interpretation routineSchedule_m: field_mutator L i "require_routine i" "\<lambda>t. t\<lparr>RoutineIntervalSeconds := clampNonNeg intervalSeconds\<rparr>" for L i intervalSeconds
  by unfold_locales (simp_all add: update_closures)

interpretation routineEnabled_m: field_mutator L i "require_routine i" "set_routine_enabled enabled" for L i enabled
  by unfold_locales (simp_all add: update_closures)

interpretation routineNextRun_m: field_mutator L i "require_routine i" "\<lambda>t. t\<lparr>RoutineNextRun := nonzero_time nextRun\<rparr>" for L i nextRun
  by unfold_locales (simp_all add: update_closures)

interpretation routineLastFiredAt_m: field_mutator L i "require_routine i" "\<lambda>t. t\<lparr>RoutineLastFiredAt := nonzero_time fired\<rparr>" for L i fired
  by unfold_locales (simp_all add: update_closures)

interpretation worktrees_m: field_mutator L i "\<lambda>_. None" "\<lambda>t. t\<lparr>WorktreePaths := worktreePaths, BranchName := branchName\<rparr>" for L i worktreePaths branchName
  by unfold_locales (simp_all add: update_closures)

interpretation commitHashes_m: field_mutator L i "\<lambda>_. None" "\<lambda>t. t\<lparr>CommitHashes := hashes\<rparr>" for L i hashes
  by unfold_locales (simp_all add: update_closures)

interpretation testRun_m: field_mutator L i "\<lambda>_. None" "set_test_run isTestRun lastTestResult" for L i isTestRun lastTestResult
  by unfold_locales (simp_all add: update_closures)

interpretation pendingTestFeedback_m: field_mutator L i "\<lambda>_. None" "\<lambda>t. t\<lparr>PendingTestFeedback := message\<rparr>" for L i message
  by unfold_locales (simp_all add: update_closures)

interpretation incrementTestFailCount_m: field_mutator L i "\<lambda>_. None" "\<lambda>t. t\<lparr>TestFailCount := TestFailCount t + 1\<rparr>" for L i
  by unfold_locales (simp_all add: update_closures)

interpretation resetTestFailCount_m: field_mutator L i "\<lambda>_. None" "\<lambda>t. t\<lparr>TestFailCount := 0\<rparr>" for L i
  by unfold_locales (simp_all add: update_closures)

interpretation failureCategory_m: field_mutator L i "\<lambda>_. None" "\<lambda>t. t\<lparr>FailureCategory := cat\<rparr>" for L i cat
  by unfold_locales (simp_all add: update_closures)

interpretation commitMessage_m: field_mutator L i "\<lambda>_. None" "\<lambda>t. t\<lparr>CommitMessage := msg\<rparr>" for L i msg
  by unfold_locales (simp_all add: update_closures)

interpretation snapshotDiffs_m: field_mutator L i "\<lambda>_. None" "\<lambda>t. t\<lparr>SnapshotDiffs := snapshots\<rparr>" for L i snapshots
  by unfold_locales (simp_all add: update_closures)

interpretation baseCommitHashes_m: field_mutator L i "\<lambda>_. None" "\<lambda>t. t\<lparr>BaseCommitHashes := hashes\<rparr>" for L i hashes
  by unfold_locales (simp_all add: update_closures)

interpretation markTurnTruncated_m: field_mutator L i "\<lambda>_. None" "\<lambda>t. t\<lparr>TruncatedTurns := TruncatedTurns t @ [turn]\<rparr>" for L i turn
  by unfold_locales (simp_all add: update_closures)

interpretation incrementAutoRetryCount_m: field_mutator L i "\<lambda>_. None" "consume_retry category" for L i category
  by unfold_locales (simp_all add: update_closures)

interpretation recordFetchFailure_m: field_mutator L i "\<lambda>_. None" "\<lambda>t. t\<lparr>LastFetchError := msg, LastFetchErrorAt := Some failedAt\<rparr>" for L i msg failedAt
  by unfold_locales (simp_all add: update_closures)

interpretation clearFetchFailure_m: field_mutator L i "\<lambda>_. None" "\<lambda>t. t\<lparr>LastFetchError := [], LastFetchErrorAt := None\<rparr>" for L i
  by unfold_locales (simp_all add: update_closures)

interpretation refinementJob_m: field_mutator L i "\<lambda>_. None" "\<lambda>t. t\<lparr>CurrentRefinement := job\<rparr>" for L i job
  by unfold_locales (simp_all add: update_closures)

interpretation startRefinementJobIfIdle_m: field_mutator L i "refinement_busy clock" "\<lambda>t. t\<lparr>CurrentRefinement := Some job\<rparr>" for L i job clock
  by unfold_locales (simp_all add: update_closures)

lemmas mutator_good =
  executionPrompt_m.good turns_m.good result_m.good lineage_m.good review_m.good
  criteria_m.good clearReviewResult_m.good accumulateSubAgentUsage_m.good position_m.good scheduledAt_m.good
  dependsOn_m.good budget_m.good sandboxByActivity_m.good sandbox_m.good flow_m.good
  modelOverride_m.good customPatterns_m.good environment_m.good archived_m.good routineSchedule_m.good
  routineEnabled_m.good routineNextRun_m.good routineLastFiredAt_m.good worktrees_m.good commitHashes_m.good
  testRun_m.good pendingTestFeedback_m.good incrementTestFailCount_m.good resetTestFailCount_m.good failureCategory_m.good
  commitMessage_m.good snapshotDiffs_m.good baseCommitHashes_m.good markTurnTruncated_m.good incrementAutoRetryCount_m.good
  recordFetchFailure_m.good clearFetchFailure_m.good refinementJob_m.good startRefinementJobIfIdle_m.good
  title_m.good tags_m.good backlog_m.good refine_m.good prompt_m.good

lemmas update_defs =
  UpdateTaskTitle_def UpdateTaskExecutionPrompt_def UpdateTaskTurns_def UpdateTaskResult_def
  UpdateTaskLineage_def UpdateTaskReview_def UpdateTaskCriteria_def ClearReviewResult_def
  AccumulateSubAgentUsage_def UpdateTaskPosition_def UpdateTaskScheduledAt_def UpdateTaskDependsOn_def
  UpdateTaskTags_def UpdateTaskBacklog_def UpdateTaskBudget_def UpdateTaskSandboxByActivity_def
  UpdateTaskSandbox_def UpdateTaskFlow_def UpdateTaskModelOverride_def UpdateTaskCustomPatterns_def
  UpdateTaskEnvironment_def SetTaskArchived_def UpdateRoutineSchedule_def UpdateRoutineEnabled_def
  UpdateRoutineNextRun_def UpdateRoutineLastFiredAt_def UpdateTaskWorktrees_def UpdateTaskCommitHashes_def
  UpdateTaskTestRun_def UpdateTaskPendingTestFeedback_def IncrementTestFailCount_def ResetTestFailCount_def
  SetTaskFailureCategory_def UpdateTaskCommitMessage_def UpdateTaskSnapshotDiffs_def UpdateTaskBaseCommitHashes_def
  MarkTurnTruncated_def IncrementAutoRetryCount_def RecordFetchFailure_def ClearFetchFailure_def
  UpdateRefinementJob_def StartRefinementJobIfIdle_def ApplyRefinement_def DismissRefinement_def

text \<open>Every field update keeps the contract of the store.\<close>

lemma update_good:
  assumes "store_inv L s"
  shows "good_step L s (fst (UpdateTaskTitle L i title now s))"
    "good_step L s (fst (UpdateTaskExecutionPrompt i executionPrompt now s))"
    "good_step L s (fst (UpdateTaskTurns i turns now s))"
    "good_step L s (fst (UpdateTaskResult i result sessionID stopReason turns now s))"
    "good_step L s (fst (UpdateTaskLineage i lineageJSON now s))"
    "good_step L s (fst (UpdateTaskReview i unresolved headline sessionDir now s))"
    "good_step L s (fst (UpdateTaskCriteria i criteria now s))"
    "good_step L s (fst (ClearReviewResult i now s))"
    "good_step L s (fst (AccumulateSubAgentUsage i agent delta now s))"
    "good_step L s (fst (UpdateTaskPosition i position now s))"
    "good_step L s (fst (UpdateTaskScheduledAt i scheduledAt now s))"
    "good_step L s (fst (UpdateTaskDependsOn i dependsOn now s))"
    "good_step L s (fst (UpdateTaskTags L i tags now s))"
    "good_step L s (fst (UpdateTaskBacklog L i ed now s))"
    "good_step L s (fst (UpdateTaskBudget i maxCostUSD maxInputTokens now s))"
    "good_step L s (fst (UpdateTaskSandboxByActivity L i sba now s))"
    "good_step L s (fst (UpdateTaskSandbox L i sb now s))"
    "good_step L s (fst (UpdateTaskFlow i flowID now s))"
    "good_step L s (fst (UpdateTaskModelOverride i model now s))"
    "good_step L s (fst (UpdateTaskCustomPatterns i passPatterns failPatterns now s))"
    "good_step L s (fst (UpdateTaskEnvironment i env now s))"
    "good_step L s (fst (SetTaskArchived i archived now s))"
    "good_step L s (fst (UpdateRoutineSchedule i intervalSeconds now s))"
    "good_step L s (fst (UpdateRoutineEnabled i enabled now s))"
    "good_step L s (fst (UpdateRoutineNextRun i nextRun now s))"
    "good_step L s (fst (UpdateRoutineLastFiredAt i fired now s))"
    "good_step L s (fst (UpdateTaskWorktrees i worktreePaths branchName now s))"
    "good_step L s (fst (UpdateTaskCommitHashes i hashes now s))"
    "good_step L s (fst (UpdateTaskTestRun i isTestRun lastTestResult now s))"
    "good_step L s (fst (UpdateTaskPendingTestFeedback i message now s))"
    "good_step L s (fst (IncrementTestFailCount i now s))"
    "good_step L s (fst (ResetTestFailCount i now s))"
    "good_step L s (fst (SetTaskFailureCategory i cat now s))"
    "good_step L s (fst (UpdateTaskCommitMessage i msg now s))"
    "good_step L s (fst (UpdateTaskSnapshotDiffs i snapshots now s))"
    "good_step L s (fst (UpdateTaskBaseCommitHashes i hashes now s))"
    "good_step L s (fst (MarkTurnTruncated i turn now s))"
    "good_step L s (fst (IncrementAutoRetryCount i category now s))"
    "good_step L s (fst (RecordFetchFailure i msg failedAt now s))"
    "good_step L s (fst (ClearFetchFailure i now s))"
    "good_step L s (fst (UpdateRefinementJob i job now s))"
    "good_step L s (fst (StartRefinementJobIfIdle i newJob clock now s))"
    "good_step L s (fst (ApplyRefinement L i newPrompt session now s))"
    "good_step L s (fst (DismissRefinement i now s))"
  using assms
  by (simp_all add: update_defs assign_is_assign_if mutator_good good_step_refl Let_def split: option.split)

lemma UpdateTaskPromptDirect_good:
  "store_inv L s \<Longrightarrow> good_step L s (fst (snd (UpdateTaskPromptDirect L i newPrompt now s)))"
  by (simp add: UpdateTaskPromptDirect_def prompt_m.good)

end
