(* ===== verification/Text_Util.thy ===== *)
theory Text_Util
  imports Go_Strings
begin

text \<open>
  String utilities: \<open>internal/pkg/sanitize\<close> (display truncation and generated slugs) and
  \<open>internal/pkg/slugutil\<close> (the slug grammar).
\<close>

section \<open>Truncation\<close>

abbreviation ellipsis :: string where
  "ellipsis \<equiv> map char_of_byte [226, 128, 166]"

definition Truncate :: "string \<Rightarrow> int \<Rightarrow> string" where
  "Truncate s n =
     (if int (rune_count s) \<le> n then s
      else concat (map (encode_rune \<circ> fst) (take (nat n) (runes s))) @ ellipsis)"

section \<open>Slugs\<close>

definition is_alnum :: "rune \<Rightarrow> bool" where
  "is_alnum r \<longleftrightarrow> (97 \<le> r \<and> r \<le> 122) \<or> (48 \<le> r \<and> r \<le> 57)"

definition slug_add :: "rune \<Rightarrow> string \<times> bool \<Rightarrow> string \<times> bool" where
  "slug_add r st = (if is_alnum r then (fst st @ [char_of_byte r], False)
     else if \<not> snd st then (fst st @ ''-'', True) else st)"

fun slug_loop :: "int \<Rightarrow> rune list \<Rightarrow> string \<Rightarrow> bool \<Rightarrow> string" where
  "slug_loop maxLen [] b prevDash = b"
| "slug_loop maxLen (r # rs) b prevDash =
     (case slug_add r (b, prevDash) of (b', prevDash') \<Rightarrow>
        if int (length b') \<ge> maxLen then b' else slug_loop maxLen rs b' prevDash')"

definition TrimRight :: "char \<Rightarrow> string \<Rightarrow> string" where
  "TrimRight c s = rev (dropWhile (\<lambda>d. d = c) (rev s))"

definition Slug :: "(rune \<Rightarrow> rune) \<Rightarrow> string \<Rightarrow> int \<Rightarrow> string" where
  "Slug ul s maxLen =
     (let slug = TrimRight (CHR ''-'') (slug_loop maxLen (map fst (runes (ToLower ul s))) [] True)
      in if slug = [] then ''task'' else slug)"

fun slug_scan :: "nat \<Rightarrow> nat \<Rightarrow> (rune \<times> string) list \<Rightarrow> bool" where
  "slug_scan n i [] = True"
| "slug_scan n i ((c, bs) # rest) =
     (if is_alnum c then slug_scan n (i + length bs) rest
      else if c = 45 then (if i = 0 \<or> i = n - 1 then False else slug_scan n (i + length bs) rest)
      else False)"

definition IsValid :: "string \<Rightarrow> bool" where
  "IsValid s = (if length s < 2 \<or> length s > 40 then False else slug_scan (length s) 0 (runes s))"

section \<open>Shape of slugs\<close>

definition slug_char :: "char \<Rightarrow> bool" where
  "slug_char c \<longleftrightarrow> is_alnum (byte c) \<or> c = CHR ''-''"

definition slug_shape :: "string \<Rightarrow> bool" where
  "slug_shape b \<longleftrightarrow> list_all slug_char b \<and> (b \<noteq> [] \<longrightarrow> hd b \<noteq> CHR ''-'')
     \<and> (\<forall>u v. b \<noteq> u @ ''--'' @ v)"

lemma byte_char_of_byte: "r < 256 \<Longrightarrow> byte (char_of_byte r) = r"
  by (simp add: byte_def char_of_byte_def)

lemma byte_dash: "byte (CHR ''-'') = 45"
  by (simp add: byte_def)

lemma alnum_char:
  assumes "is_alnum r"
  shows "slug_char (char_of_byte r)" "char_of_byte r \<noteq> CHR ''-''"
proof -
  have r: "r < 256" "r \<noteq> 45" using assms by (auto simp: is_alnum_def)
  then show "slug_char (char_of_byte r)" using assms by (simp add: slug_char_def byte_char_of_byte)
  have "byte (CHR ''-'') = 45" by (simp add: byte_def)
  with r show "char_of_byte r \<noteq> CHR ''-''" using byte_char_of_byte[of r] by auto
qed

lemma no_double_snoc:
  assumes "\<forall>u v. b \<noteq> u @ ''--'' @ v" "c \<noteq> CHR ''-'' \<or> b = [] \<or> last b \<noteq> CHR ''-''"
  shows "\<forall>u v. b @ [c] \<noteq> u @ ''--'' @ v"
proof (intro allI notI)
  fix u v
  assume eq: "b @ [c] = u @ ''--'' @ v"
  show False
  proof (cases v rule: rev_cases)
    case Nil
    with eq have "b = u @ ''-''" "c = CHR ''-''" by (simp_all add: append_eq_append_conv2 split: if_splits)
    with assms(2) show False by simp
  next
    case (snoc w d)
    with eq have "b = u @ ''--'' @ w" by simp
    with assms(1) show False by blast
  qed
qed

lemma slug_add_shape:
  assumes "slug_shape b" "p \<longleftrightarrow> b = [] \<or> last b = CHR ''-''" "slug_add r (b, p) = (b', p')"
  shows "slug_shape b'" "p' \<longleftrightarrow> b' = [] \<or> last b' = CHR ''-''" "length b' \<le> Suc (length b)"
proof -
  consider "is_alnum r" | "\<not> is_alnum r" "\<not> p" | "\<not> is_alnum r" p by blast
  then have "slug_shape b' \<and> (p' \<longleftrightarrow> b' = [] \<or> last b' = CHR ''-'') \<and> length b' \<le> Suc (length b)"
  proof cases
    case 1
    then show ?thesis
      using assms alnum_char[OF 1] no_double_snoc[of b "char_of_byte r"]
      by (auto simp: slug_add_def slug_shape_def hd_append split: if_splits)
  next
    case 2
    then show ?thesis
      using assms no_double_snoc[of b "CHR ''-''"]
      by (auto simp: slug_add_def slug_shape_def slug_char_def hd_append split: if_splits)
  next
    case 3
    then show ?thesis using assms by (auto simp: slug_add_def)
  qed
  then show "slug_shape b'" "p' \<longleftrightarrow> b' = [] \<or> last b' = CHR ''-''" "length b' \<le> Suc (length b)" by auto
qed

lemma slug_loop_shape:
  assumes "slug_shape b" "prevDash \<longleftrightarrow> b = [] \<or> last b = CHR ''-''"
  shows "slug_shape (slug_loop maxLen rs b prevDash)
    \<and> (int (length b) < maxLen \<longrightarrow> int (length (slug_loop maxLen rs b prevDash)) \<le> maxLen)"
  using assms
proof (induction rs arbitrary: b prevDash)
  case (Cons r rs)
  obtain b' p' where st: "slug_add r (b, prevDash) = (b', p')" by fastforce
  have eq: "slug_loop maxLen (r # rs) b prevDash = (if int (length b') \<ge> maxLen then b' else slug_loop maxLen rs b' p')"
    by (simp add: st)
  note sh = slug_add_shape[OF Cons.prems st]
  from sh(3) Cons.IH[OF sh(1,2)] sh(1) show ?case unfolding eq by auto
qed simp

lemma TrimRight_prefix: "prefix (TrimRight c s) s"
  unfolding TrimRight_def using suffix_dropWhile by (metis suffix_to_prefix rev_rev_ident)

lemma slug_shape_prefix:
  assumes "slug_shape s" "prefix p s"
  shows "slug_shape p"
proof -
  obtain zs where s: "s = p @ zs" using assms(2) by (auto simp: prefix_def)
  have "p \<noteq> u @ ''--'' @ v" for u v
    using assms(1) unfolding slug_shape_def s by (metis append_assoc)
  with assms(1) show ?thesis by (auto simp: slug_shape_def s hd_append)
qed

lemma TrimRight_last: "TrimRight c s \<noteq> [] \<Longrightarrow> last (TrimRight c s) \<noteq> c"
  unfolding TrimRight_def using hd_dropWhile[of "\<lambda>d. d = c" "rev s"]
  by (metis (mono_tags, lifting) dropWhile_eq_Nil_conv last_rev rev_is_Nil_conv)

text \<open>
  Generated slugs are safe container-name parts: not empty, only lower-case letters,
  digits and dashes, no dash at either end, no two dashes in a row, and no longer than the
  limit, except that a text without letters or digits yields the fallback \<open>task\<close>.
\<close>

theorem Slug_shape:
  assumes "1 \<le> maxLen"
  shows "Slug ul s maxLen \<noteq> [] \<and> slug_shape (Slug ul s maxLen) \<and> last (Slug ul s maxLen) \<noteq> CHR ''-''
    \<and> (int (length (Slug ul s maxLen)) \<le> maxLen \<or> Slug ul s maxLen = ''task'')"
proof -
  define b where "b = slug_loop maxLen (map fst (runes (ToLower ul s))) [] True"
  have b: "slug_shape b" "int (length b) \<le> maxLen"
    using slug_loop_shape[of "[]" True maxLen "map fst (runes (ToLower ul s))"] assms
    by (simp_all add: b_def slug_shape_def)
  have "slug_shape ''task''"
    by (auto simp: slug_shape_def slug_char_def is_alnum_def byte_def append_eq_Cons_conv Cons_eq_append_conv)
  moreover have "int (length (TrimRight (CHR ''-'') b)) \<le> maxLen"
    using prefix_length_le[OF TrimRight_prefix[of "CHR ''-''" b]] b(2) by simp
  ultimately show ?thesis
    using slug_shape_prefix[OF b(1) TrimRight_prefix] TrimRight_last[of "CHR ''-''" b]
    by (auto simp: Slug_def b_def[symmetric] Let_def)
qed

theorem Slug_shape_witness:
  "Slug (\<lambda>r. r) ''a: B'' 8 = ''a-b'' \<and> slug_shape ''a-b''"
proof -
  have "ToLower (\<lambda>r. r) ''a: B'' = ''a: b''"
    by (simp add: ToLower_def is_ascii_def byte_def char_of_byte_def lower_byte_def char_of_eq_iff)
  moreover have "runes ''a: b'' = map (\<lambda>c. (byte c, [c])) ''a: b''"
    by (rule runes_ascii) (simp add: is_ascii_def byte_def)
  ultimately have "Slug (\<lambda>r. r) ''a: B'' 8 = ''a-b''"
    by (simp add: Slug_def slug_add_def is_alnum_def TrimRight_def byte_def char_of_byte_def char_of_eq_iff
        del: runes.simps)
  with Slug_shape[of 8 "\<lambda>r. r" "''a: B''"] show ?thesis by simp
qed

section \<open>The slug grammar\<close>

lemma runes_single: "byte c < 128 \<Longrightarrow> runes (c # cs) = (byte c, [c]) # runes cs"
  by (simp add: decode_rune_ascii)

lemma slug_scan_iff:
  "slug_scan (n + length s) n (runes s) \<longleftrightarrow>
     list_all slug_char s \<and> (s \<noteq> [] \<longrightarrow> n = 0 \<longrightarrow> hd s \<noteq> CHR ''-'') \<and> (s \<noteq> [] \<longrightarrow> last s \<noteq> CHR ''-'')"
proof (induction s arbitrary: n)
  case (Cons c cs)
  show ?case
  proof (cases "byte c < 128")
    case True
    have "byte c = byte (CHR ''-'') \<longleftrightarrow> c = CHR ''-''"
      unfolding byte_def by (rule of_char_eq_iff)
    then have dash: "byte c = 45 \<longleftrightarrow> c = CHR ''-''" by (simp add: byte_dash)
    have scan: "slug_scan (n + length (c # cs)) n (runes (c # cs)) \<longleftrightarrow>
        (is_alnum (byte c) \<or> c = CHR ''-'' \<and> n \<noteq> 0 \<and> cs \<noteq> []) \<and> slug_scan (Suc n + length cs) (Suc n) (runes cs)"
      unfolding runes_single[OF True] by (simp add: dash is_alnum_def)
    have "\<not> is_alnum (byte (CHR ''-''))" by (simp add: byte_dash is_alnum_def)
    then show ?thesis
      unfolding scan Cons.IH by (cases "c = CHR ''-''"; cases "cs = []") (auto simp: slug_char_def[of c] slug_char_def[of "CHR ''-''"])
  next
    case False
    then have "\<not> slug_scan (n + length (c # cs)) n (runes (c # cs))"
      using decode_rune_nonascii[of c cs] by (auto simp: is_alnum_def Let_def)
    moreover have "\<not> slug_char c" using False by (auto simp: slug_char_def is_alnum_def byte_def)
    ultimately show ?thesis by simp
  qed
qed simp

text \<open>
  \<open>slugutil.IsValid\<close> decides the documented grammar: 2 to 40 characters, lower-case
  ASCII letters, digits and hyphens, no hyphen first or last. Multi-byte and malformed
  UTF-8 text is rejected.
\<close>

theorem IsValid_iff:
  "IsValid s \<longleftrightarrow> 2 \<le> length s \<and> length s \<le> 40 \<and> list_all slug_char s
     \<and> hd s \<noteq> CHR ''-'' \<and> last s \<noteq> CHR ''-''"
  using slug_scan_iff[of 0 s] by (cases "length s < 2") (auto simp: IsValid_def)

end
