(* ===== verification/Store_Lifecycle.thy ===== *)
theory Store_Lifecycle
  imports Store_Update Text_Util
begin

text \<open>
  The methods of \<open>internal/store/tasks_update.go\<close> that change the status of a task: transitions,
  retry, resume and archive. A clock reading is an argument for each call of
  \<open>time.Now\<close> in the order of the code. Background compactions that a transition schedules
  are queued in \<open>compactions\<close>; calls of the completion callback are recorded in \<open>doneCalls\<close>.
\<close>

section \<open>Transitions\<close>

definition seconds :: "duration \<Rightarrow> real" where
  "seconds d = real_of_int d / 1000000000"

definition build_summary :: "Task \<Rightarrow> Store \<Rightarrow> TaskSummary" where
  "build_summary task s =
     (let phaseCount = (case GetOversight (ID task) s of Inl _ \<Rightarrow> 0 | Inr ov \<Rightarrow> int (length (Phases ov)));
          duration = seconds (UpdatedAt task - CreatedAt task);
          execDuration = (case StartedAt task of None \<Rightarrow> duration | Some st \<Rightarrow> seconds (UpdatedAt task - st))
      in \<lparr>sum_TaskID = ID task, sum_Title = Title task, sum_Status = Status task,
          CompletedAt = UpdatedAt task, sum_CreatedAt = CreatedAt task, DurationSeconds = duration,
          ExecutionDurationSeconds = execDuration, TotalTurns = Turns task,
          TotalCostUSD = CostUSD (Usage task), ByActivity = UsageBreakdown task,
          TestResult = LastTestResult task, PhaseCount = phaseCount,
          sum_FailureCategory = FailureCategory task\<rparr>)"

definition SaveSummary :: "uuid \<Rightarrow> TaskSummary \<Rightarrow> Store \<Rightarrow> unit outcome" where
  "SaveSummary i summary s =
     (case SaveBlob i ''summary.json'' (BSummary summary) (backend s) of (b, r) \<Rightarrow> (s\<lparr>backend := b\<rparr>, r))"

definition LoadSummary :: "uuid \<Rightarrow> Store \<Rightarrow> error + TaskSummary option" where
  "LoadSummary i s =
     (case ReadBlob i ''summary.json'' (backend s) of
        Inl ErrNotExist \<Rightarrow> Inr None
      | Inl e \<Rightarrow> Inl e
      | Inr (BSummary summary) \<Rightarrow> Inr (Some summary)
      | Inr _ \<Rightarrow> Inl ErrCorrupt)"

definition buildAndSaveSummary :: "Task \<Rightarrow> Store \<Rightarrow> Store" where
  "buildAndSaveSummary task s = fst (SaveSummary (ID task) (build_summary task s) s)"

definition scheduleTerminalCompaction :: "uuid \<Rightarrow> Store \<Rightarrow> Store" where
  "scheduleTerminalCompaction i s =
     (if store_closed s then s
      else s\<lparr>compactions := compactions s @ [(i, map_at 0 (nextSeq s) i - 1)]\<rparr>)"

definition complete_done :: "TaskStatus \<Rightarrow> Task \<Rightarrow> Store \<Rightarrow> Store" where
  "complete_done status t s =
     (if status = TaskStatusDone
      then let s1 = buildAndSaveSummary t s
           in if OnDone s1 then s1\<lparr>doneCalls := doneCalls s1 @ [t]\<rparr> else s1
      else s)"

definition with_status :: "TaskStatus \<Rightarrow> time \<Rightarrow> time \<Rightarrow> Task \<Rightarrow> Task" where
  "with_status status startedNow now t =
     (let t1 = t\<lparr>Status := status\<rparr>;
          t2 = (if status = TaskStatusInProgress \<and> StartedAt t1 = None
                then t1\<lparr>StartedAt := Some startedNow\<rparr> else t1)
      in t2\<lparr>UpdatedAt := now\<rparr>)"

definition move_status :: "TaskStatus \<Rightarrow> TaskStatus \<Rightarrow> uuid \<Rightarrow> Store \<Rightarrow> Store" where
  "move_status old new i s = addToStatusIndex new i (removeFromStatusIndex old i s)"

text \<open>The common body of \<open>UpdateTaskStatus\<close> and \<open>ForceUpdateTaskStatus\<close>.\<close>

definition set_status :: "uuid \<Rightarrow> Task \<Rightarrow> TaskStatus \<Rightarrow> time \<Rightarrow> time \<Rightarrow> Store \<Rightarrow> unit outcome" where
  "set_status i t status startedNow now s =
     and_then (write_and_notify i (with_status status startedNow now t) (complete_done status)
                 (move_status (Status t) status i s))
       (\<lambda>_ s1. (if isTerminalStatus status then scheduleTerminalCompaction i s1 else s1, Inr ()))"

definition UpdateTaskStatus :: "uuid \<Rightarrow> TaskStatus \<Rightarrow> time \<Rightarrow> time \<Rightarrow> Store \<Rightarrow> unit outcome" where
  "UpdateTaskStatus i status startedNow now s =
     (case map_get (tasks s) i of
        None \<Rightarrow> (s, Inl (ErrTaskNotFound i))
      | Some t \<Rightarrow>
          (case Validate TaskMachine (Status t) status of
             Inl e \<Rightarrow> (s, Inl (ErrTransition e))
           | Inr _ \<Rightarrow> set_status i t status startedNow now s))"

definition ForceUpdateTaskStatus :: "uuid \<Rightarrow> TaskStatus \<Rightarrow> time \<Rightarrow> time \<Rightarrow> Store \<Rightarrow> unit outcome" where
  "ForceUpdateTaskStatus i status startedNow now s =
     (case map_get (tasks s) i of
        None \<Rightarrow> (s, Inl (ErrTaskNotFound i))
      | Some t \<Rightarrow> set_status i t status startedNow now s)"

definition ResumeTask :: "uuid \<Rightarrow> int option \<Rightarrow> time \<Rightarrow> time \<Rightarrow> Store \<Rightarrow> unit outcome" where
  "ResumeTask i timeout startedNow now s =
     (case map_get (tasks s) i of
        None \<Rightarrow> (s, Inl (ErrTaskNotFound i))
      | Some t \<Rightarrow>
          let t1 = t\<lparr>Status := TaskStatusInProgress\<rparr>;
              t2 = (if StartedAt t1 = None then t1\<lparr>StartedAt := Some startedNow\<rparr> else t1);
              t3 = when_some timeout (\<lambda>v t. t\<lparr>Timeout := clampTimeout v\<rparr>) t2
          in write_and_notify i (t3\<lparr>UpdatedAt := now\<rparr>) (\<lambda>_ s. s)
               (move_status (Status t) TaskStatusInProgress i s))"

section \<open>Retry\<close>

definition retry_record :: "time \<Rightarrow> Task \<Rightarrow> RetryRecord" where
  "retry_record retiredNow t =
     \<lparr>RetiredAt = retiredNow, rr_Prompt = Prompt t, rr_Status = Status t,
      rr_Result = (case Result t of None \<Rightarrow> [] | Some r \<Rightarrow> Truncate r 2000),
      rr_SessionID = (case SessionID t of None \<Rightarrow> [] | Some sid \<Rightarrow> sid),
      rr_Turns = Turns t, rr_CostUSD = CostUSD (Usage t), rr_FailureCategory = FailureCategory t\<rparr>"

definition reset_for_retry :: "string \<Rightarrow> bool \<Rightarrow> time \<Rightarrow> time \<Rightarrow> Task \<Rightarrow> Task" where
  "reset_for_retry newPrompt freshStart retiredNow now t =
     t\<lparr>RetryHistory := RetryHistory t @ [retry_record retiredNow t],
       FailureCategory := FailureCategoryNone,
       PromptHistory := PromptHistory t @ [Prompt t],
       Prompt := newPrompt,
       FreshStart := freshStart,
       Result := None, StopReason := None, Turns := 0,
       Status := TaskStatusBacklog,
       WorktreePaths := (if freshStart then [] else WorktreePaths t),
       BranchName := (if freshStart then [] else BranchName t),
       CommitHashes := [], BaseCommitHashes := [],
       IsTestRun := False, LastTestResult := [], PendingTestFeedback := [], TestFailCount := 0,
       AutoRetryCount := 0, AutoRetryBudget := freshAutoRetryBudget,
       CurrentRefinement := None,
       RefineSessions := (if freshStart then [] else RefineSessions t),
       UpdatedAt := now\<rparr>"

definition ResetTaskForRetry :: "lib \<Rightarrow> uuid \<Rightarrow> string \<Rightarrow> bool \<Rightarrow> time \<Rightarrow> time \<Rightarrow> Store \<Rightarrow> unit outcome" where
  "ResetTaskForRetry L i newPrompt freshStart retiredNow now s =
     (case map_get (tasks s) i of
        None \<Rightarrow> (s, Inl (ErrTaskNotFound i))
      | Some t \<Rightarrow>
          write_and_notify i (reset_for_retry newPrompt freshStart retiredNow now t) (\<lambda>_ s. s)
            (move_status (Status t) TaskStatusBacklog i
              (updateIndexEntry i (\<lambda>entry. entry\<lparr>ix_prompt := lower L newPrompt\<rparr>) s)))"

section \<open>Archiving\<close>

text \<open>The loop ranges over the task map as it was when the loop started.\<close>

fun archive_loop :: "(uuid \<times> Task) list \<Rightarrow> time \<Rightarrow> uuid list \<Rightarrow> Store \<Rightarrow> Store \<times> uuid list \<times> error option" where
  "archive_loop [] now archived s = (s, archived, None)"
| "archive_loop ((i, t) # rest) now archived s =
     (if Archived t then archive_loop rest now archived s
      else if Status t \<noteq> TaskStatusDone \<and> Status t \<noteq> TaskStatusCancelled then archive_loop rest now archived s
      else (case store_task i (t\<lparr>Archived := True, UpdatedAt := now\<rparr>) s of
              (s1, Inl e) \<Rightarrow> (s1, archived, Some e)
            | (s1, Inr t1) \<Rightarrow>
                (case notify t1 False s1 of
                   (s2, Inl e) \<Rightarrow> (s2, archived @ [i], Some e)
                 | (s2, Inr _) \<Rightarrow> archive_loop rest now (archived @ [i]) s2)))"

definition ArchiveAllDone :: "time \<Rightarrow> Store \<Rightarrow> Store \<times> uuid list \<times> error option" where
  "ArchiveAllDone now s = archive_loop (tasks s) now [] s"

section \<open>Contracts of transitions\<close>

lemma frame_complete_done: "frame_step s (complete_done status t s)"
proof -
  have b: "frame_step s (buildAndSaveSummary t s)" for s
    using frame_SaveBlob[of "''summary.json''" s "ID t" "BSummary (build_summary t s)"]
    by (auto simp: buildAndSaveSummary_def SaveSummary_def split: prod.splits)
  show ?thesis
    by (auto simp: complete_done_def Let_def intro: b frame_step_trans[OF b])
qed

lemma frame_schedule: "frame_step s (scheduleTerminalCompaction i s)"
  by (simp add: scheduleTerminalCompaction_def)

lemma move_status_frames [simp]:
  "tasks (move_status old new i s) = tasks s" "deleted (move_status old new i s) = deleted s"
  "store_hub (move_status old new i s) = store_hub s" "backend (move_status old new i s) = backend s"
  "searchIndex (move_status old new i s) = searchIndex s"
  by (simp_all add: move_status_def)

lemma move_status_limits [simp]: "same_limits s (move_status old new i s)"
  by (simp add: move_status_def addToStatusIndex_def removeFromStatusIndex_def same_limits_def split: option.split)

lemma update_index_limits [simp]: "same_limits s (updateIndexEntry i g s)"
  by (simp add: updateIndexEntry_def same_limits_def split: option.split)

lemma status_ok_move:
  assumes "status_ok s" "map_get (tasks s) i = Some t" "Status t' = new"
  shows "status_ok ((move_status (Status t) new i s)\<lparr>tasks := map_put i t' (tasks s)\<rparr>)"
  using assms by (auto simp: status_ok_def move_status_def)

lemma same_limits_trans: "same_limits s s1 \<Longrightarrow> same_limits s1 s2 \<Longrightarrow> same_limits s s2"
  by (simp add: same_limits_def)

text \<open>Changing the status, and possibly the prompt together with its index entry.\<close>

lemma prepares_move:
  assumes inv: "store_inv L s" and t: "map_get (tasks s) i = Some t"
    and t': "ID t' = i" "Status t' = new"
    and e: "\<And>e. entry_ok L t e \<Longrightarrow> entry_ok L t' (g e)"
  shows "prepares L i t' s (move_status (Status t) new i (updateIndexEntry i g s))"
proof -
  define s1 where "s1 = updateIndexEntry i g s"
  have wf: "wf_store L s" using inv by (simp add: store_inv_def)
  have "status_ok s1" using wf by (simp add: wf_store_def status_ok_def s1_def)
  then have "status_ok ((move_status (Status t) new i s1)\<lparr>tasks := map_put i (stamped t') (tasks s)\<rparr>)"
    using status_ok_move[of s1 i t "stamped t'" new] t t' by (simp add: s1_def)
  moreover have "keys_ok ((move_status (Status t) new i s1)\<lparr>tasks := map_put i (stamped t') (tasks s)\<rparr>)"
    using wf t' wf_live_not_deleted[OF wf t] by (auto simp: wf_store_def keys_ok_def s1_def)
  moreover have "index_ok L ((move_status (Status t) new i s1)\<lparr>tasks := map_put i (stamped t') (tasks s)\<rparr>)"
    using wf wf_entry_ex[OF wf t] e entry_ok_cong[of "stamped t'" t' L]
    by (auto simp: wf_store_def index_ok_def s1_def)
  ultimately have "wf_store L ((move_status (Status t) new i s1)\<lparr>tasks := map_put i (stamped t') (tasks s)\<rparr>)"
    using wf by (simp add: wf_store_def s1_def)
  then show ?thesis
    using t' same_limits_trans[OF update_index_limits[of s i g] move_status_limits]
    by (simp add: prepares_def s1_def[symmetric]) (simp add: s1_def)
qed

lemma updateIndexEntry_id [simp]: "updateIndexEntry i (\<lambda>e. e) s = s"
  by (simp add: updateIndexEntry_def map_put_same split: option.split)

lemma with_status_sel [simp]:
  "ID (with_status st n1 n2 t) = ID t" "Status (with_status st n1 n2 t) = st"
  "Title (with_status st n1 n2 t) = Title t" "Prompt (with_status st n1 n2 t) = Prompt t"
  "Tags (with_status st n1 n2 t) = Tags t" "DependsOn (with_status st n1 n2 t) = DependsOn t"
  by (simp_all add: with_status_def Let_def)

lemma set_status_good:
  assumes "store_inv L s" "map_get (tasks s) i = Some t"
  shows "good_step L s (fst (set_status i t status n1 n2 s))"
proof -
  define r where "r = write_and_notify i (with_status status n1 n2 t) (complete_done status)
    (move_status (Status t) status i s)"
  have "prepares L i (with_status status n1 n2 t) s (move_status (Status t) status i s)"
    using prepares_move[OF assms, of "with_status status n1 n2 t" status "\<lambda>e. e"] inv_in_tasks(1)[OF assms]
      entry_ok_cong[of "with_status status n1 n2 t" t L]
    by simp
  then have g: "good_step L s (fst r)"
    unfolding r_def by (rule good_write_and_notify[OF assms]) (rule frame_complete_done)
  have "fst (set_status i t status n1 n2 s) = fst r
      \<or> fst (set_status i t status n1 n2 s) = scheduleTerminalCompaction i (fst r)"
    unfolding set_status_def r_def[symmetric] by (cases r; cases "snd r") auto
  then show ?thesis
    using g good_step_trans[OF g frame_good_step[OF good_step_inv[OF g] frame_schedule]] by auto
qed

lemma transition_good:
  assumes "store_inv L s"
  shows "good_step L s (fst (UpdateTaskStatus i status n1 n2 s))"
    "good_step L s (fst (ForceUpdateTaskStatus i status n1 n2 s))"
  using assms
  by (auto simp: UpdateTaskStatus_def ForceUpdateTaskStatus_def good_step_refl set_status_good
      split: option.split sum.split)

lemma ResumeTask_good:
  assumes "store_inv L s"
  shows "good_step L s (fst (ResumeTask i timeout n1 n2 s))"
proof (cases "map_get (tasks s) i")
  case None
  then show ?thesis using assms by (simp add: ResumeTask_def good_step_refl)
next
  case (Some t)
  define t1 where "t1 = (if StartedAt (t\<lparr>Status := TaskStatusInProgress\<rparr>) = None
      then t\<lparr>Status := TaskStatusInProgress, StartedAt := Some n1\<rparr> else t\<lparr>Status := TaskStatusInProgress\<rparr>)"
  define t3 where "t3 = (when_some timeout (\<lambda>v t. t\<lparr>Timeout := clampTimeout v\<rparr>) t1)\<lparr>UpdatedAt := n2\<rparr>"
  have sel: "ID t3 = i" "Status t3 = TaskStatusInProgress" "Title t3 = Title t" "Prompt t3 = Prompt t" "Tags t3 = Tags t"
    using inv_in_tasks(1)[OF assms Some] by (auto simp: t3_def t1_def when_some_def split: option.split)
  have "prepares L i t3 s (move_status (Status t) TaskStatusInProgress i s)"
    using prepares_move[OF assms Some sel(1,2), of "\<lambda>e. e"] entry_ok_cong[OF sel(3-5)] by simp
  from good_write_and_notify[OF assms Some this, of "\<lambda>_ s. s"] show ?thesis
    by (simp add: ResumeTask_def Some Let_def t3_def t1_def)
qed

lemma reset_sel [simp]:
  "ID (reset_for_retry p f n1 n2 t) = ID t" "Status (reset_for_retry p f n1 n2 t) = TaskStatusBacklog"
  "Title (reset_for_retry p f n1 n2 t) = Title t" "Prompt (reset_for_retry p f n1 n2 t) = p"
  "Tags (reset_for_retry p f n1 n2 t) = Tags t"
  by (simp_all add: reset_for_retry_def)

lemma ResetTaskForRetry_good:
  assumes "store_inv L s"
  shows "good_step L s (fst (ResetTaskForRetry L i p f n1 n2 s))"
proof (cases "map_get (tasks s) i")
  case None
  then show ?thesis using assms by (simp add: ResetTaskForRetry_def good_step_refl)
next
  case (Some t)
  have "prepares L i (reset_for_retry p f n1 n2 t) s
      (move_status (Status t) TaskStatusBacklog i (updateIndexEntry i (\<lambda>e. e\<lparr>ix_prompt := lower L p\<rparr>) s))"
    using inv_in_tasks(1)[OF assms Some] by (intro prepares_move[OF assms Some]) (simp_all add: entry_ok_def)
  from good_write_and_notify[OF assms Some this, of "\<lambda>_ s. s"] show ?thesis
    by (simp add: ResetTaskForRetry_def Some)
qed

lemma prepares_same_text:
  assumes "store_inv L s" "map_get (tasks s) i = Some t" "ID t' = ID t" "Status t' = Status t"
    "Title t' = Title t" "Prompt t' = Prompt t" "Tags t' = Tags t"
  shows "prepares L i t' s s"
proof -
  have wf: "wf_store L s" using assms(1) by (simp add: store_inv_def)
  have "wf_store L (s\<lparr>tasks := map_put i (stamped t') (tasks s)\<rparr>)"
    using wf_entry_ex[OF wf assms(2)] assms(3-) wf_ID[OF wf assms(2)] entry_ok_cong[of "stamped t'" t L]
    by (intro wf_replace[OF wf assms(2)]) auto
  then show ?thesis
    using assms(3) wf_ID[OF wf assms(2)] by (simp add: prepares_def same_limits_def)
qed

lemma write_keeps_others:
  assumes "j \<noteq> i"
  shows "map_get (tasks (fst (store_task i t s))) j = map_get (tasks s) j"
  using assms store_task_eq[of i t s] by auto

lemma notify_tasks [simp]: "tasks (fst (notify t d s)) = tasks s"
  by (simp add: notify_def Let_def split: option.split)

lemma archive_loop_good:
  assumes "store_inv L s" "distinct (map fst rest)" "\<forall>(i, t) \<in> set rest. map_get (tasks s) i = Some t"
  shows "good_step L s (fst (archive_loop rest now archived s))"
  using assms
proof (induction rest arbitrary: archived s)
  case Nil
  then show ?case by (simp add: good_step_refl)
next
  case (Cons p rest)
  obtain i t where p: "p = (i, t)" by (cases p)
  have it: "map_get (tasks s) i = Some t" using Cons.prems p by auto
  define t' where "t' = t\<lparr>Archived := True, UpdatedAt := now\<rparr>"
  have prep: "prepares L i t' s s"
    by (rule prepares_same_text[OF Cons.prems(1) it]) (simp_all add: t'_def)
  show ?case
  proof (cases "Archived t \<or> Status t \<noteq> TaskStatusDone \<and> Status t \<noteq> TaskStatusCancelled")
    case True
    then show ?thesis using Cons.IH[OF Cons.prems(1)] Cons.prems p by auto
  next
    case False
    obtain s1 r1 where st: "store_task i t' s = (s1, r1)" by fastforce
    obtain s2 r2 where w: "write_and_notify i t' (\<lambda>_ s. s) s = (s2, r2)" by fastforce
    have g: "good_step L s s2"
      using good_write_and_notify[OF Cons.prems(1) it prep, of "\<lambda>_ s. s"] w by simp
    show ?thesis
    proof (cases r1)
      case (Inl e)
      then have "s2 = s1" using w st by (simp add: write_and_notify_def)
      then show ?thesis using False Inl st g p by (auto simp: t'_def)
    next
      case (Inr t1)
      then have n: "notify t1 False s1 = (s2, r2)" using w st by (simp add: write_and_notify_def)
      have same: "map_get (tasks s2) j = map_get (tasks s) j" if "j \<noteq> i" for j
        using write_keeps_others[OF that, of t' s] st n notify_tasks[of t1 False s1] by simp
      have "map_get (tasks s2) j = Some u" if "(j, u) \<in> set rest" for j u
        using same[of j] that Cons.prems(2,3) p by (force simp: image_iff)
      then have "good_step L s2 (fst (archive_loop rest now (archived @ [i]) s2))"
        using Cons.prems p by (intro Cons.IH[OF good_step_inv[OF g]]) auto
      with g have "good_step L s (fst (archive_loop rest now (archived @ [i]) s2))" by (rule good_step_trans)
      then show ?thesis
        using False Inr st n g p by (cases r2) (auto simp: t'_def)
    qed
  qed
qed

lemma ArchiveAllDone_good: "store_inv L s \<Longrightarrow> good_step L s (fst (ArchiveAllDone now s))"
  unfolding ArchiveAllDone_def
  by (rule archive_loop_good) (auto simp: store_inv_def wf_store_def keys_ok_def wf_map_get_iff)

end
