(* ===== verification/Go_Slices.thy ===== *)
theory Go_Slices
  imports Prelude
begin

text \<open>
  The parts of Go's \<open>slices\<close> and \<open>cmp\<close> packages that the repository uses. \<open>slices.SortFunc\<close>
  leaves the order of equal elements open; its callers sort a slice collected from a map, so
  the choice is covered by the order of the map. A comparator has a contract, the locale
  below, under which sorting permutes and orders.
\<close>

definition cmp_Compare :: "'a::linorder \<Rightarrow> 'a \<Rightarrow> int" where
  "cmp_Compare a b = (if a < b then -1 else if a = b then 0 else 1)"

fun insert_by :: "('a \<Rightarrow> 'a \<Rightarrow> int) \<Rightarrow> 'a \<Rightarrow> 'a list \<Rightarrow> 'a list" where
  "insert_by cmp x [] = [x]"
| "insert_by cmp x (y # ys) = (if cmp x y \<le> 0 then x # y # ys else y # insert_by cmp x ys)"

definition SortFunc :: "('a \<Rightarrow> 'a \<Rightarrow> int) \<Rightarrow> 'a list \<Rightarrow> 'a list" where
  "SortFunc cmp xs = foldr (insert_by cmp) xs []"

fun IndexFunc :: "('a \<Rightarrow> bool) \<Rightarrow> 'a list \<Rightarrow> nat option" where
  "IndexFunc p [] = None"
| "IndexFunc p (x # xs) = (if p x then Some 0 else map_option Suc (IndexFunc p xs))"

definition or_else :: "('a \<Rightarrow> 'a \<Rightarrow> int) \<Rightarrow> ('a \<Rightarrow> 'a \<Rightarrow> int) \<Rightarrow> 'a \<Rightarrow> 'a \<Rightarrow> int" where
  "or_else c1 c2 a b = (if c1 a b \<noteq> 0 then c1 a b else c2 a b)"

lemma mset_insert_by [simp]: "mset (insert_by cmp x ys) = add_mset x (mset ys)"
  by (induction ys) auto

lemma mset_SortFunc [simp]: "mset (SortFunc cmp xs) = mset xs"
  unfolding SortFunc_def by (induction xs) auto

lemma SortFunc_perm [simp]:
  "set (SortFunc cmp xs) = set xs" "length (SortFunc cmp xs) = length xs"
  "distinct (SortFunc cmp xs) = distinct xs"
  using mset_SortFunc[of cmp xs] by (metis set_mset_mset, metis size_mset, metis mset_eq_imp_distinct_iff)

lemma SortFunc_map: "mset (map f (SortFunc cmp xs)) = mset (map f xs)"
  by simp

lemma IndexFunc_SomeD: "IndexFunc p xs = Some n \<Longrightarrow> n < length xs \<and> p (xs ! n) \<and> (\<forall>m < n. \<not> p (xs ! m))"
  by (induction xs arbitrary: n) (auto split: if_splits simp: less_Suc_eq_0_disj)

lemma IndexFunc_None_iff: "IndexFunc p xs = None \<longleftrightarrow> (\<forall>x \<in> set xs. \<not> p x)"
  by (induction xs) auto

lemma cmp_Compare_simps [simp]:
  "cmp_Compare a b \<le> 0 \<longleftrightarrow> a \<le> b" "cmp_Compare a b = 0 \<longleftrightarrow> a = b" "cmp_Compare a b < 0 \<longleftrightarrow> a < b"
  by (auto simp: cmp_Compare_def)

section \<open>The contract of a comparator\<close>

locale comparator =
  fixes cmp :: "'a \<Rightarrow> 'a \<Rightarrow> int"
  assumes total: "cmp x y \<le> 0 \<or> cmp y x \<le> 0"
    and le_trans: "cmp x y \<le> 0 \<Longrightarrow> cmp y z \<le> 0 \<Longrightarrow> cmp x z \<le> 0"
begin

lemma sorted_insert: "sorted_wrt (\<lambda>a b. cmp a b \<le> 0) ys \<Longrightarrow> sorted_wrt (\<lambda>a b. cmp a b \<le> 0) (insert_by cmp x ys)"
proof (induction ys)
  case (Cons y ys)
  have "set (insert_by cmp x ys) = insert x (set ys)"
    using mset_insert_by[of cmp x ys] by (metis set_mset_add_mset_insert set_mset_mset)
  then show ?case using Cons total[of x y] by (auto intro: le_trans)
qed simp

lemma sorted_SortFunc: "sorted_wrt (\<lambda>a b. cmp a b \<le> 0) (SortFunc cmp xs)"
  unfolding SortFunc_def by (induction xs) (auto intro: sorted_insert)

lemma nth_mono: "i \<le> j \<Longrightarrow> j < length xs \<Longrightarrow> cmp (SortFunc cmp xs ! i) (SortFunc cmp xs ! j) \<le> 0"
  using sorted_SortFunc[of xs] total[of "SortFunc cmp xs ! i" "SortFunc cmp xs ! i"]
  by (cases "i = j") (auto simp: sorted_wrt_iff_nth_less)

end

interpretation cmp_on: comparator "\<lambda>a b. cmp_Compare (f a) (f b)" for f :: "'a \<Rightarrow> 'b::linorder"
  by unfold_locales auto

interpretation cmp_on2: comparator "or_else (\<lambda>a b. cmp_Compare (f a) (f b)) (\<lambda>a b. cmp_Compare (g a) (g b))"
  for f :: "'a \<Rightarrow> 'b::linorder" and g :: "'a \<Rightarrow> 'c::linorder"
  by unfold_locales (auto simp: or_else_def split: if_splits)

text \<open>Descending order compares with the arguments exchanged.\<close>

interpretation cmp_desc: comparator "\<lambda>a b. cmp_Compare (f b) (f a)" for f :: "'a \<Rightarrow> 'b::linorder"
  by unfold_locales auto

interpretation cmp_desc2: comparator "or_else (\<lambda>a b. cmp_Compare (f b) (f a)) (\<lambda>a b. cmp_Compare (g b) (g a))"
  for f :: "'a \<Rightarrow> 'b::linorder" and g :: "'a \<Rightarrow> 'c::linorder"
  by unfold_locales (auto simp: or_else_def split: if_splits)

end
