(* ===== verification/Store_Create_Delete.thy ===== *)
theory Store_Create_Delete
  imports Store_Lifecycle Go_Slices
begin

text \<open>
  Creation, soft deletion, cancellation, restoration and purging
  (\<open>internal/store/tasks_create_delete.go\<close>, \<open>TasksDependingOn\<close> of \<open>tasks_list.go\<close>). \<open>uuid.New\<close>
  is an argument. Restoring is split at its lock boundary: the first part reads the deleted
  task and its oversight text, the second part applies the change.
\<close>

section \<open>Creation\<close>

record TaskCreateOptions =
  opt_ID :: uuid
  opt_Prompt :: string
  opt_Criteria :: string
  opt_Timeout :: int
  opt_MountWorktrees :: bool
  opt_Kind :: TaskKind
  opt_FlowID :: string
  opt_Tags :: "string list"
  opt_Sandbox :: harness_ID
  opt_SandboxByActivity :: "(SandboxActivity, harness_ID) gomap"
  opt_MaxCostUSD :: real
  opt_MaxInputTokens :: int
  opt_ScheduledAt :: "time option"
  opt_DependsOn :: "string list"
  opt_SpecSourcePath :: string
  opt_ModelOverride :: string
  opt_CustomPassPatterns :: "string list"
  opt_CustomFailPatterns :: "string list"
  opt_RoutineIntervalSeconds :: int
  opt_RoutineEnabled :: bool
  opt_RoutineSpawnKind :: TaskKind
  opt_RoutineSpawnFlow :: string
  opt_CreatedBy :: string
  opt_OrgID :: string

definition build_task :: "lib \<Rightarrow> TaskCreateOptions \<Rightarrow> uuid \<Rightarrow> time \<Rightarrow> Task" where
  "build_task L opts i now =
     (let task = zero_task\<lparr>SchemaVersion := CurrentTaskSchemaVersion, ID := i, Prompt := opt_Prompt opts,
            Criteria := opt_Criteria opts, Status := TaskStatusBacklog, Turns := 0,
            Timeout := clampTimeout (opt_Timeout opts), MountWorktrees := opt_MountWorktrees opts,
            Kind := opt_Kind opts, FlowID := opt_FlowID opts, CreatedAt := now, UpdatedAt := now,
            AutoRetryBudget := freshAutoRetryBudget, Tags := opt_Tags opts, DependsOn := opt_DependsOn opts,
            SpecSourcePath := opt_SpecSourcePath opts,
            Sandbox := (if opt_Sandbox opts \<noteq> [] then NormalizeID L (opt_Sandbox opts) else []),
            SandboxByActivity := (if opt_SandboxByActivity opts \<noteq> []
              then normalizeSandboxByActivity L (opt_SandboxByActivity opts) else []),
            MaxCostUSD := clampNonNeg (opt_MaxCostUSD opts),
            MaxInputTokens := clampNonNeg (opt_MaxInputTokens opts),
            ScheduledAt := opt_ScheduledAt opts,
            ModelOverride := (let model = TrimSpace (opt_ModelOverride opts) in
              if model \<noteq> [] then Some model else None),
            CustomPassPatterns := opt_CustomPassPatterns opts,
            CustomFailPatterns := opt_CustomFailPatterns opts,
            CreatedBy := opt_CreatedBy opts, OrgID := opt_OrgID opts\<rparr>
      in if opt_Kind opts = TaskKindRoutine
         then task\<lparr>RoutineIntervalSeconds := opt_RoutineIntervalSeconds opts,
                   RoutineEnabled := opt_RoutineEnabled opts,
                   RoutineSpawnKind := opt_RoutineSpawnKind opts,
                   RoutineSpawnFlow := opt_RoutineSpawnFlow opts\<rparr>
         else task)"

text \<open>The scan for the smallest position in the backlog; \<open>None\<close> stands for \<open>hasBacklog = false\<close>.\<close>

fun min_backlog_position :: "(uuid \<times> Task) list \<Rightarrow> int option \<Rightarrow> int option" where
  "min_backlog_position [] acc = acc"
| "min_backlog_position ((i, t) # rest) acc =
     min_backlog_position rest
       (if Status t = TaskStatusBacklog
        then (case acc of
                None \<Rightarrow> Some (Position t)
              | Some m \<Rightarrow> if Position t < m then Some (Position t) else Some m)
        else acc)"

definition top_of_backlog :: "(uuid, Task) gomap \<Rightarrow> int" where
  "top_of_backlog ts = (case min_backlog_position ts None of None \<Rightarrow> 0 | Some m \<Rightarrow> m - 1)"

definition CreateTaskWithOptions :: "lib \<Rightarrow> TaskCreateOptions \<Rightarrow> uuid \<Rightarrow> time \<Rightarrow> Store \<Rightarrow> Task outcome" where
  "CreateTaskWithOptions L opts newID now s =
     (let i = (if opt_ID opts = 0 then newID else opt_ID opts);
          task0 = build_task L opts i now;
          entry = buildIndexEntry L task0 []
      in case Init i (backend s) of
           (b, Inl e) \<Rightarrow> (s\<lparr>backend := b\<rparr>, Inl e)
         | (b, Inr _) \<Rightarrow>
             let s0 = s\<lparr>backend := b\<rparr>;
                 task1 = task0\<lparr>Position := top_of_backlog (tasks s0)\<rparr>
             in case saveTask task1 s0 of
                  (task2, s1, Inl e) \<Rightarrow> (s1, Inl e)
                | (task2, s1, Inr _) \<Rightarrow>
                    let s2 = addToStatusIndex (Status task2) i (s1\<lparr>tasks := map_put i task2 (tasks s1)\<rparr>);
                        s3 = s2\<lparr>events := map_put i [] (events s2), nextSeq := map_put i 1 (nextSeq s2),
                                eventsLoaded := map_put i True (eventsLoaded s2),
                                searchIndex := map_put i entry (searchIndex s2)\<rparr>
                    in and_then (notify task2 False s3) (\<lambda>_ s4. (s4, Inr task2)))"

section \<open>Deletion and cancellation\<close>

definition TasksDependingOn :: "lib \<Rightarrow> uuid \<Rightarrow> Store \<Rightarrow> Task list" where
  "TasksDependingOn L taskID s =
     map snd (filter (\<lambda>(i, t).
         Status t \<in> {TaskStatusBacklog, TaskStatusInProgress, TaskStatusWaiting, TaskStatusFailed}
         \<and> uuid_String L taskID \<in> set (DependsOn t)) (tasks s))"

definition drop_dependency :: "string \<Rightarrow> Task \<Rightarrow> Task" where
  "drop_dependency dep t = t\<lparr>DependsOn := filter (\<lambda>d. d \<noteq> dep) (DependsOn t)\<rparr>"

definition removeOrphanedDependents :: "lib \<Rightarrow> uuid \<Rightarrow> time \<Rightarrow> Store \<Rightarrow> Store" where
  "removeOrphanedDependents L cancelledID now s =
     fold (\<lambda>dep s. fst (mutateTask (ID dep) (assign (drop_dependency (uuid_String L cancelledID))) now s))
       (TasksDependingOn L cancelledID s) s"

definition DeleteTask :: "lib \<Rightarrow> uuid \<Rightarrow> string \<Rightarrow> time \<Rightarrow> time \<Rightarrow> Store \<Rightarrow> unit outcome" where
  "DeleteTask L i reason deletedNow now s =
     (case map_get (tasks s) i of
        None \<Rightarrow> (s, Inl (ErrTaskNotFound i))
      | Some t \<Rightarrow>
          (case SaveBlob i ''tombstone.json'' (BTombstone \<lparr>DeletedAt = deletedNow, Reason = reason\<rparr>) (backend s) of
             (b, Inl e) \<Rightarrow> (s\<lparr>backend := b\<rparr>, Inl e)
           | (b, Inr _) \<Rightarrow>
               let s1 = removeFromStatusIndex (Status t) i (s\<lparr>backend := b\<rparr>);
                   s2 = s1\<lparr>tasks := map_del i (tasks s1), searchIndex := map_del i (searchIndex s1),
                           deleted := map_put i t (deleted s1)\<rparr>
               in and_then (notify t True s2)
                    (\<lambda>_ s3. (removeOrphanedDependents L i now s3, Inr ()))))"

definition CancelTask :: "lib \<Rightarrow> uuid \<Rightarrow> time \<Rightarrow> time \<Rightarrow> Store \<Rightarrow> unit outcome" where
  "CancelTask L i startedNow now s =
     and_then (ForceUpdateTaskStatus i TaskStatusCancelled startedNow now s)
       (\<lambda>_ s1. (removeOrphanedDependents L i now s1, Inr ()))"

section \<open>Restoring and purging\<close>

definition restore_read :: "lib \<Rightarrow> uuid \<Rightarrow> Store \<Rightarrow> error + Task \<times> indexedTaskText" where
  "restore_read L i s =
     (case map_get (deleted s) i of
        None \<Rightarrow> Inl (ErrDeletedTaskNotFound i)
      | Some t \<Rightarrow> Inr (t, buildIndexEntry L t (fst (LoadOversightText i s))))"

definition restore_apply :: "uuid \<Rightarrow> Task \<Rightarrow> indexedTaskText \<Rightarrow> Store \<Rightarrow> unit outcome" where
  "restore_apply i t entry s =
     (if map_get (deleted s) i = None then (s, Inl (ErrDeletedTaskNotFound i))
      else case DeleteBlob i ''tombstone.json'' (backend s) of
             (b, r) \<Rightarrow>
               if r \<noteq> Inr () \<and> r \<noteq> Inl ErrNotExist then (s\<lparr>backend := b\<rparr>, Inl ErrIO)
               else let s1 = s\<lparr>backend := b, deleted := map_del i (deleted s), tasks := map_put i t (tasks s)\<rparr>;
                        s2 = addToStatusIndex (Status t) i s1;
                        s3 = s2\<lparr>searchIndex := map_put i entry (searchIndex s2)\<rparr>
                    in notify t False s3)"

definition RestoreTask :: "lib \<Rightarrow> uuid \<Rightarrow> Store \<Rightarrow> unit outcome" where
  "RestoreTask L i s =
     (case restore_read L i s of Inl e \<Rightarrow> (s, Inl e) | Inr (t, entry) \<Rightarrow> restore_apply i t entry s)"

definition ListDeletedTasks :: "Store \<Rightarrow> Task list" where
  "ListDeletedTasks s = SortFunc (\<lambda>a b. cmp_Compare (UpdatedAt b) (UpdatedAt a)) (map snd (deleted s))"

definition purgeTaskLocked :: "uuid \<Rightarrow> Store \<Rightarrow> unit outcome" where
  "purgeTaskLocked i s =
     (if map_get (deleted s) i = None then (s, Inl (ErrNoTombstonedTask i))
      else case RemoveTask i (backend s) of
             (b, Inl e) \<Rightarrow> (s\<lparr>backend := b\<rparr>, Inl e)
           | (b, Inr _) \<Rightarrow>
               (s\<lparr>backend := b, deleted := map_del i (deleted s), events := map_del i (events s),
                  nextSeq := map_del i (nextSeq s), eventsLoaded := map_del i (eventsLoaded s)\<rparr>, Inr ()))"

definition PurgeTask :: "uuid \<Rightarrow> Store \<Rightarrow> unit outcome" where
  "PurgeTask i s = purgeTaskLocked i s"

definition purge_if_expired :: "time \<Rightarrow> uuid \<Rightarrow> Store \<Rightarrow> Store" where
  "purge_if_expired threshold i s =
     (case ReadBlob i ''tombstone.json'' (backend s) of
        Inr (BTombstone tomb) \<Rightarrow> if DeletedAt tomb < threshold then fst (purgeTaskLocked i s) else s
      | _ \<Rightarrow> s)"

text \<open>\<open>AddDate(0, 0, -n)\<close> subtracts \<open>n\<close> days.\<close>

definition PurgeExpiredTombstones :: "int \<Rightarrow> time \<Rightarrow> Store \<Rightarrow> Store" where
  "PurgeExpiredTombstones retentionDays now s =
     fold (purge_if_expired (now - retentionDays * 86400 * 1000000000)) (map fst (deleted s)) s"

section \<open>Contracts\<close>

definition same_dirs_but :: "uuid \<Rightarrow> backend \<Rightarrow> backend \<Rightarrow> bool" where
  "same_dirs_but i b b' \<longleftrightarrow> io_fails b' = io_fails b \<and> (\<forall>j. j \<noteq> i \<longrightarrow> map_get (dirs b') j = map_get (dirs b) j)"

lemma same_dirs_butD:
  assumes "same_dirs_but i b b'" "j \<noteq> i"
  shows "dir_at b' j = dir_at b j" "map_get (dirs b') j = map_get (dirs b) j" "tombstoned j b' = tombstoned j b"
proof -
  show 1: "dir_at b' j = dir_at b j" "map_get (dirs b') j = map_get (dirs b) j"
    using assms by (simp_all add: same_dirs_but_def dir_at_def map_at_def)
  show "tombstoned j b' = tombstoned j b" by (simp add: tombstoned_iff 1)
qed

lemma same_dirs_put [simp]: "same_dirs_but i b (put_dir i d b)"
  by (simp add: same_dirs_but_def put_dir_def)

lemma same_dirs_trans: "same_dirs_but i b b1 \<Longrightarrow> same_dirs_but i b1 b2 \<Longrightarrow> same_dirs_but i b b2"
  by (simp add: same_dirs_but_def)

lemma good_insert:
  assumes inv: "store_inv L s" and new: "map_get (tasks s) i = None" "ID t = i" "entry_ok L t e"
    and mem: "map_get (tasks s') = (map_get (tasks s))(i \<mapsto> t)" "wf_map (tasks s')"
      "map_get (deleted s') = (map_get (deleted s))(i := None)" "wf_map (deleted s')"
      "tasksByStatus s' = tasksByStatus (addToStatusIndex (Status t) i s)"
      "map_get (searchIndex s') = (map_get (searchIndex s))(i \<mapsto> e)"
      "store_hub s' = published (update_delta t) (store_hub s)" "same_limits s s'"
    and disk: "same_dirs_but i (backend s) (backend s')" "map_get (dirs (backend s')) i \<noteq> None"
      "\<not> tombstoned i (backend s')"
      "persisted s \<Longrightarrow> task_file (dir_at (backend s') i) = Some (Some (pruneTaskPayload s t))"
  shows "good_step L s s'"
proof -
  have wf: "wf_store L s" using inv by (simp add: store_inv_def)
  have "keys_ok s'" using wf new mem by (auto simp: wf_store_def keys_ok_def split: if_splits)
  moreover have "status_ok s'" using wf new mem(1,5) by (auto simp: wf_store_def status_ok_def)
  moreover have "index_ok L s'" using wf new mem(1,6) by (simp add: wf_store_def index_ok_def)
  ultimately have "wf_store L s'" using wf mem(7) by (simp add: wf_store_def subs_inv_published)
  moreover have "durable s'" "tomb_ok s'"
    using inv mem(1,3) disk(2,3) same_dirs_butD(2,3)[OF disk(1)]
    by (auto simp: store_inv_def durable_def tomb_ok_def)
  moreover have "persisted s'" if "persisted s"
    using that mem(1,3) disk(4) same_dirs_butD(1)[OF disk(1)] same_limits_prune[OF mem(8)]
    by (auto simp: persisted_def)
  moreover have "emits [update_delta t] s s'"
    using mem(1,7) new by (auto simp: emits_def apply_delta_def fun_eq_iff)
  ultimately show ?thesis
    using mem(8) disk(1) by (auto simp: good_step_def store_inv_def same_dirs_but_def)
qed

lemma good_remove:
  assumes inv: "store_inv L s" and old: "map_get (tasks s) i = Some t"
    and mem: "map_get (tasks s') = (map_get (tasks s))(i := None)" "wf_map (tasks s')"
      "deleted s' = map_put i t (deleted s)"
      "tasksByStatus s' = tasksByStatus (removeFromStatusIndex (Status t) i s)"
      "map_get (searchIndex s') = (map_get (searchIndex s))(i := None)"
      "store_hub s' = published (delete_delta i) (store_hub s)" "same_limits s s'"
    and disk: "same_dirs_but i (backend s) (backend s')" "map_get (dirs (backend s')) i \<noteq> None"
      "tombstoned i (backend s')" "task_file (dir_at (backend s') i) = task_file (dir_at (backend s) i)"
  shows "good_step L s s'"
proof -
  have wf: "wf_store L s" using inv by (simp add: store_inv_def)
  have i: "ID t = i" using wf_ID[OF wf old] .
  have "keys_ok s'" using wf i mem by (auto simp: wf_store_def keys_ok_def split: if_splits)
  moreover have "status_ok s'" using wf old mem(1,4) by (auto simp: wf_store_def status_ok_def)
  moreover have "index_ok L s'" using wf mem(1,5) by (simp add: wf_store_def index_ok_def)
  ultimately have "wf_store L s'" using wf mem(6) by (simp add: wf_store_def subs_inv_published)
  moreover have "durable s'" "tomb_ok s'"
    using inv mem(1,3) disk(2,3) same_dirs_butD(2,3)[OF disk(1)]
    by (auto simp: store_inv_def durable_def tomb_ok_def)
  moreover have "persisted s'" if "persisted s"
    using that old mem(1,3) disk(4) same_dirs_butD(1)[OF disk(1)] same_limits_prune[OF mem(7)]
    by (auto simp: persisted_def)
  moreover have "emits [delete_delta i] s s'"
    using mem(1,6) by (auto simp: emits_def apply_delta_def fun_eq_iff)
  ultimately show ?thesis
    using mem(7) disk(1) by (auto simp: good_step_def store_inv_def same_dirs_but_def)
qed

subsection \<open>Creation\<close>

definition fresh_id :: "uuid \<Rightarrow> Store \<Rightarrow> bool" where
  "fresh_id i s \<longleftrightarrow> map_get (tasks s) i = None \<and> map_get (deleted s) i = None \<and> \<not> tombstoned i (backend s)"

lemma build_task_sel [simp]:
  "ID (build_task L opts i now) = i" "Status (build_task L opts i now) = TaskStatusBacklog"
  "Prompt (build_task L opts i now) = opt_Prompt opts" "Title (build_task L opts i now) = []"
  "Tags (build_task L opts i now) = opt_Tags opts" "DependsOn (build_task L opts i now) = opt_DependsOn opts"
  "Kind (build_task L opts i now) = opt_Kind opts" "OrgID (build_task L opts i now) = opt_OrgID opts"
  "CreatedBy (build_task L opts i now) = opt_CreatedBy opts"
  "Timeout (build_task L opts i now) = clampTimeout (opt_Timeout opts)"
  by (simp_all add: build_task_def Let_def zero_task_def)

definition created :: "lib \<Rightarrow> TaskCreateOptions \<Rightarrow> uuid \<Rightarrow> time \<Rightarrow> Store \<Rightarrow> Task" where
  "created L opts i now s = stamped ((build_task L opts i now)\<lparr>Position := top_of_backlog (tasks s)\<rparr>)"

definition after_create :: "lib \<Rightarrow> TaskCreateOptions \<Rightarrow> uuid \<Rightarrow> time \<Rightarrow> Store \<Rightarrow> Store" where
  "after_create L opts i now s =
     (let t = created L opts i now s;
          s1 = s\<lparr>backend := written (s\<lparr>backend := fst (Init i (backend s))\<rparr>) t,
                 tasks := map_put i t (tasks s)\<rparr>;
          s2 = addToStatusIndex TaskStatusBacklog i s1
      in s2\<lparr>events := map_put i [] (events s), nextSeq := map_put i 1 (nextSeq s),
            eventsLoaded := map_put i True (eventsLoaded s),
            searchIndex := map_put i (buildIndexEntry L (build_task L opts i now) []) (searchIndex s),
            store_hub := published (update_delta t) (store_hub s)\<rparr>)"

lemma stamped_stamped [simp]: "stamped (stamped t) = stamped t"
  by (simp add: stamped_def)

lemma saveTask_eq:
  "\<exists>e. saveTask t s = (stamped t, if save_ok (ID t) s then s\<lparr>backend := written s t\<rparr> else s,
     if save_ok (ID t) s then Inr () else Inl e)"
  by (cases "map_get (dirs (backend s)) (ID t)")
    (simp_all add: saveTask_def SaveTask_def save_ok_def stamped_def[symmetric] written_def dir_at_def map_at_def Let_def)

lemma CreateTaskWithOptions_eq:
  assumes s0_def: "s0 = s\<lparr>backend := fst (Init i (backend s))\<rparr>"
    and "subs_inv (store_hub s)" "i = (if opt_ID opts = 0 then n else opt_ID opts)"
  shows "\<exists>e. CreateTaskWithOptions L opts n now s =
    (if \<not> io_fails (backend s) (IOInit i) \<and> \<not> io_fails (backend s) (IOSaveTask i)
     then (after_create L opts i now s, Inr (created L opts i now s)) else (s0, Inl e))"
proof -
  define t where "t = (build_task L opts i now)\<lparr>Position := top_of_backlog (tasks s)\<rparr>"
  obtain e where sv: "saveTask t s0 = (stamped t, if save_ok (ID t) s0 then s0\<lparr>backend := written s0 t\<rparr> else s0,
     if save_ok (ID t) s0 then Inr () else Inl e)"
    using saveTask_eq by blast
  have w: "written s0 (stamped t) = written s0 t" by (simp add: written_def)
  have id: "ID t = i" by (simp add: t_def)
  show ?thesis
  proof (cases "io_fails (backend s) (IOInit i)")
    case True
    then show ?thesis by (simp add: CreateTaskWithOptions_def Init_def s0_def assms(3)[symmetric] Let_def)
  next
    case False
    then have init: "Init i (backend s) = (backend s0, Inr ())" "save_ok i s0 = (\<not> io_fails (backend s) (IOSaveTask i))"
      by (simp_all add: Init_def s0_def assms(3)[symmetric] save_ok_def put_dir_def)
    have s0: "s\<lparr>backend := backend s0\<rparr> = s0" "tasks s0 = tasks s" by (simp_all add: s0_def)
    show ?thesis
      using assms(2) False
      by (simp add: CreateTaskWithOptions_def assms(3)[symmetric] init s0 t_def[symmetric] sv id Let_def
          notify_eq w[symmetric] after_create_def created_def)
        (use assms(2) in \<open>simp add: s0_def addToStatusIndex_def t_def notify_eq\<close>)
  qed
qed

lemma CreateTaskWithOptions_good:
  assumes inv: "store_inv L s" and "fresh_id i s" "i = (if opt_ID opts = 0 then n else opt_ID opts)"
  shows "good_step L s (fst (CreateTaskWithOptions L opts n now s))"
proof -
  have fr: "frame_step s (s\<lparr>backend := fst (Init i (backend s))\<rparr>)"
    by (auto simp: Init_def intro!: frame_put_dir)
  have "same_dirs_but i (backend s) (fst (Init i (backend s)))"
    by (simp add: Init_def) (simp add: same_dirs_but_def)
  then have disk: "same_dirs_but i (backend s) (backend (after_create L opts i now s))"
    by (auto simp: after_create_def Let_def same_dirs_but_def created_def)
  have tomb: "\<not> tombstoned i (backend (after_create L opts i now s))"
    using assms(2) by (simp add: fresh_id_def after_create_def Let_def tombstoned_iff created_def Init_def)
  have e: "entry_ok L (created L opts i now s) (buildIndexEntry L (build_task L opts i now) [])"
    using entry_ok_cong[of "created L opts i now s" "build_task L opts i now" L] by (simp add: created_def)
  have "good_step L s (after_create L opts i now s)"
    by (rule good_insert[OF inv _ _ e])
      (use assms(2) disk tomb inv in \<open>auto simp: fresh_id_def created_def after_create_def Let_def fun_eq_iff
        store_inv_def wf_store_def keys_ok_def addToStatusIndex_def same_limits_def pruneTaskPayload_def\<close>)
  then show ?thesis
    using CreateTaskWithOptions_eq[OF refl wf_subs assms(3), of L s L now] inv frame_good_step[OF inv fr] assms(3)
    by (auto simp: store_inv_def)
qed

lemma top_of_backlog_above:
  assumes "(i, t) \<in> set ts" "Status t = TaskStatusBacklog"
  shows "top_of_backlog ts < Position t"
proof -
  have acc: "\<exists>m. min_backlog_position ts a = Some m
      \<and> (\<forall>x. a = Some x \<longrightarrow> m \<le> x) \<and> (\<forall>(i, t) \<in> set ts. Status t = TaskStatusBacklog \<longrightarrow> m \<le> Position t)"
    if "a \<noteq> None \<or> (\<exists>(i, t) \<in> set ts. Status t = TaskStatusBacklog)" for a :: "int option" and ts :: "(uuid \<times> Task) list"
    using that
  proof (induction ts arbitrary: a)
    case (Cons p ts)
    obtain j u where p: "p = (j, u)" by (cases p)
    define b where "b = (if Status u = TaskStatusBacklog
        then (case a of None \<Rightarrow> Some (Position u) | Some m \<Rightarrow> if Position u < m then Some (Position u) else Some m)
        else a)"
    have "b \<noteq> None \<or> (\<exists>(i, t) \<in> set ts. Status t = TaskStatusBacklog)"
      using Cons.prems p by (auto simp: b_def split: option.split if_splits)
    from Cons.IH[OF this] obtain m where m: "min_backlog_position ts b = Some m" "\<forall>x. b = Some x \<longrightarrow> m \<le> x"
      "\<forall>(i, t) \<in> set ts. Status t = TaskStatusBacklog \<longrightarrow> m \<le> Position t" by blast
    have "\<forall>x. a = Some x \<longrightarrow> m \<le> x" "Status u = TaskStatusBacklog \<longrightarrow> m \<le> Position u"
      using m(2) by (auto simp: b_def split: option.splits if_splits)
    with m(1,3) show ?case by (simp add: p b_def[symmetric])
  qed auto
  from acc[of None ts] assms obtain m where "min_backlog_position ts None = Some m" "m \<le> Position t" by fastforce
  then show ?thesis by (simp add: top_of_backlog_def)
qed

subsection \<open>Dependents\<close>

lemma drop_dependency_sel [simp]:
  "ID (drop_dependency d t) = ID t" "Status (drop_dependency d t) = Status t" "Title (drop_dependency d t) = Title t"
  "Prompt (drop_dependency d t) = Prompt t" "Tags (drop_dependency d t) = Tags t"
  "DependsOn (drop_dependency d t) = filter (\<lambda>x. x \<noteq> d) (DependsOn t)"
  by (simp_all add: drop_dependency_def)

interpretation dropDependency_m: field_mutator L i "\<lambda>_. None" "drop_dependency d" for L i d
  by unfold_locales simp_all

lemma mutateTask_assign_get:
  "map_get (tasks (fst (mutateTask i (assign f) now s))) j =
     (if j = i then map_option (\<lambda>t. stamped ((f t)\<lparr>UpdatedAt := now\<rparr>)) (map_get (tasks s) i) else map_get (tasks s) j)"
proof (cases "map_get (tasks s) i")
  case None
  then show ?thesis by (simp add: mutateTask_def)
next
  case (Some t)
  obtain e where "store_task i ((f t)\<lparr>UpdatedAt := now\<rparr>) s =
     (if save_ok (ID ((f t)\<lparr>UpdatedAt := now\<rparr>)) s
      then (s\<lparr>backend := written s ((f t)\<lparr>UpdatedAt := now\<rparr>),
              tasks := map_put i (stamped ((f t)\<lparr>UpdatedAt := now\<rparr>)) (tasks s)\<rparr>,
            Inr (stamped ((f t)\<lparr>UpdatedAt := now\<rparr>)))
      else (s\<lparr>tasks := map_put i (stamped ((f t)\<lparr>UpdatedAt := now\<rparr>)) (tasks s)\<rparr>, Inl e))"
    using store_task_eq by blast
  with Some show ?thesis by (simp add: mutateTask_def assign_def)
qed

lemma fold_mutate_get:
  assumes "distinct (map ID ds)"
  shows "map_get (tasks (fold (\<lambda>dep s. fst (mutateTask (ID dep) (assign f) now s)) ds s)) j =
     (if j \<in> ID ` set ds then map_option (\<lambda>t. stamped ((f t)\<lparr>UpdatedAt := now\<rparr>)) (map_get (tasks s) j)
      else map_get (tasks s) j)"
  using assms by (induction ds arbitrary: s) (auto simp: mutateTask_assign_get)

lemma fold_good:
  assumes "store_inv L s"
    and "\<And>x s. x \<in> set xs \<Longrightarrow> store_inv L s \<Longrightarrow> good_step L s (f x s)"
  shows "good_step L s (fold f xs s)"
  using assms
proof (induction xs arbitrary: s)
  case (Cons y ys)
  have g: "good_step L s (f y s)" using Cons.prems by simp
  show ?case
    using good_step_trans[OF g] Cons.IH[OF good_step_inv[OF g]] Cons.prems(2) by simp
qed (simp add: good_step_refl)

lemma depending_distinct:
  assumes "store_inv L s"
  shows "distinct (map ID (TasksDependingOn L i s))"
    "j \<in> ID ` set (TasksDependingOn L i s) \<longleftrightarrow> (\<exists>t. map_get (tasks s) j = Some t
       \<and> Status t \<in> {TaskStatusBacklog, TaskStatusInProgress, TaskStatusWaiting, TaskStatusFailed}
       \<and> uuid_String L i \<in> set (DependsOn t))"
proof -
  have k: "wf_map (tasks s)" "\<And>j t. (j, t) \<in> set (tasks s) \<Longrightarrow> ID t = j"
    using assms by (auto simp: store_inv_def wf_store_def keys_ok_def wf_map_get_iff)
  have "map ID (TasksDependingOn L i s) = map fst (filter (\<lambda>(j, t).
         Status t \<in> {TaskStatusBacklog, TaskStatusInProgress, TaskStatusWaiting, TaskStatusFailed}
         \<and> uuid_String L i \<in> set (DependsOn t)) (tasks s))"
    unfolding TasksDependingOn_def map_map by (rule map_cong) (use k(2) in auto)
  moreover have "distinct (map fst (filter P (tasks s)))" for P
    using k(1) by (simp add: distinct_map_filter)
  ultimately show "distinct (map ID (TasksDependingOn L i s))" by simp
  show "j \<in> ID ` set (TasksDependingOn L i s) \<longleftrightarrow> (\<exists>t. map_get (tasks s) j = Some t
       \<and> Status t \<in> {TaskStatusBacklog, TaskStatusInProgress, TaskStatusWaiting, TaskStatusFailed}
       \<and> uuid_String L i \<in> set (DependsOn t))"
    using k unfolding TasksDependingOn_def by (force simp: wf_map_get_iff image_iff)
qed

lemma removeOrphanedDependents_good:
  assumes "store_inv L s"
  shows "good_step L s (removeOrphanedDependents L i now s)"
  unfolding removeOrphanedDependents_def
  using dropDependency_m.good[of L] assms by (intro fold_good) (auto simp: assign_is_assign_if)

definition unblocked :: "string \<Rightarrow> time \<Rightarrow> Task \<Rightarrow> Task" where
  "unblocked dep now t =
     (if Status t \<in> {TaskStatusBacklog, TaskStatusInProgress, TaskStatusWaiting, TaskStatusFailed}
         \<and> dep \<in> set (DependsOn t)
      then stamped ((drop_dependency dep t)\<lparr>UpdatedAt := now\<rparr>) else t)"

lemma removeOrphanedDependents_get:
  assumes "store_inv L s"
  shows "map_get (tasks (removeOrphanedDependents L i now s)) j =
    map_option (unblocked (uuid_String L i) now) (map_get (tasks s) j)"
  using depending_distinct(1)[OF assms, of i] depending_distinct(2)[OF assms, of j i]
  by (cases "map_get (tasks s) j") (auto simp: removeOrphanedDependents_def fold_mutate_get unblocked_def)

subsection \<open>Deletion, restoration, purge\<close>

definition after_delete :: "uuid \<Rightarrow> Task \<Rightarrow> Tombstone \<Rightarrow> Store \<Rightarrow> Store" where
  "after_delete i t tomb s =
     (removeFromStatusIndex (Status t) i
        (s\<lparr>backend := fst (SaveBlob i ''tombstone.json'' (BTombstone tomb) (backend s))\<rparr>))\<lparr>
       tasks := map_del i (tasks s), searchIndex := map_del i (searchIndex s), deleted := map_put i t (deleted s),
       store_hub := published (delete_delta i) (store_hub s)\<rparr>"

lemma DeleteTask_eq:
  assumes "store_inv L s" "map_get (tasks s) i = Some t"
  shows "\<exists>e. DeleteTask L i reason n1 n2 s =
    (if io_fails (backend s) (IOSaveBlob i ''tombstone.json'') then (s, Inl e)
     else (removeOrphanedDependents L i n2 (after_delete i t \<lparr>DeletedAt = n1, Reason = reason\<rparr> s), Inr ()))"
  using assms inv_in_tasks(1)[OF assms]
  by (simp add: DeleteTask_def SaveBlob_def Let_def store_inv_def wf_store_def notify_eq after_delete_def
      removeFromStatusIndex_def split: option.split)

lemma after_delete_good:
  assumes "store_inv L s" "map_get (tasks s) i = Some t" "\<not> io_fails (backend s) (IOSaveBlob i ''tombstone.json'')"
  shows "good_step L s (after_delete i t tomb s)"
  by (rule good_remove[OF assms(1,2)])
    (use assms in \<open>auto simp: after_delete_def fun_eq_iff SaveBlob_def tombstoned_iff put_dir_def store_inv_def
      wf_store_def keys_ok_def removeFromStatusIndex_def same_limits_def same_dirs_but_def dir_at_def
      split: option.split\<close>)

lemma DeleteTask_good:
  assumes "store_inv L s"
  shows "good_step L s (fst (DeleteTask L i reason n1 n2 s))"
proof (cases "map_get (tasks s) i")
  case None
  then show ?thesis using assms by (simp add: DeleteTask_def good_step_refl)
next
  case (Some t)
  obtain e where eq: "DeleteTask L i reason n1 n2 s =
    (if io_fails (backend s) (IOSaveBlob i ''tombstone.json'') then (s, Inl e)
     else (removeOrphanedDependents L i n2 (after_delete i t \<lparr>DeletedAt = n1, Reason = reason\<rparr> s), Inr ()))"
    using DeleteTask_eq[OF assms Some] by blast
  show ?thesis
    using eq assms after_delete_good[OF assms Some]
      good_step_trans[OF _ removeOrphanedDependents_good[OF good_step_inv[OF after_delete_good[OF assms Some]]]]
    by (auto simp: good_step_refl)
qed

lemma CancelTask_good:
  assumes "store_inv L s"
  shows "good_step L s (fst (CancelTask L i n1 n2 s))"
proof -
  obtain s1 r where f: "ForceUpdateTaskStatus i TaskStatusCancelled n1 n2 s = (s1, r)" by fastforce
  then have "good_step L s s1" using transition_good(2)[OF assms, of i TaskStatusCancelled n1 n2] by simp
  then show ?thesis
    using f good_step_trans[OF _ removeOrphanedDependents_good[OF good_step_inv]]
    by (cases r) (auto simp: CancelTask_def)
qed

definition after_restore :: "lib \<Rightarrow> uuid \<Rightarrow> Task \<Rightarrow> Store \<Rightarrow> Store" where
  "after_restore L i t s =
     (addToStatusIndex (Status t) i s)\<lparr>backend := fst (DeleteBlob i ''tombstone.json'' (backend s)),
       deleted := map_del i (deleted s), tasks := map_put i t (tasks s),
       searchIndex := map_put i (buildIndexEntry L t (fst (LoadOversightText i s))) (searchIndex s),
       store_hub := published (update_delta t) (store_hub s)\<rparr>"

lemma inv_in_deleted:
  assumes "store_inv L s" "map_get (deleted s) i = Some t"
  shows "ID t = i" "map_get (tasks s) i = None" "map_get (dirs (backend s)) i \<noteq> None" "tombstoned i (backend s)"
  using assms by (auto simp: store_inv_def wf_store_def keys_ok_def durable_def tomb_ok_def)

lemma RestoreTask_eq:
  assumes "store_inv L s" "map_get (deleted s) i = Some t"
  shows "\<exists>e. RestoreTask L i s =
    (if io_fails (backend s) (IODeleteBlob i ''tombstone.json'') then (s, Inl e) else (after_restore L i t s, Inr ()))"
proof -
  obtain d where "map_get (blobs (dir_at (backend s) i)) ''tombstone.json'' = Some d"
    using inv_in_deleted(4)[OF assms] by (auto simp: tombstoned_iff)
  then show ?thesis
    using assms
    by (simp add: RestoreTask_def restore_read_def restore_apply_def DeleteBlob_def Let_def
        store_inv_def wf_store_def notify_eq after_restore_def addToStatusIndex_def)
qed

lemma RestoreTask_good:
  assumes "store_inv L s"
  shows "good_step L s (fst (RestoreTask L i s))"
proof (cases "map_get (deleted s) i")
  case None
  then show ?thesis using assms by (simp add: RestoreTask_def restore_read_def good_step_refl)
next
  case (Some t)
  note d = inv_in_deleted[OF assms Some]
  have disk: "same_dirs_but i (backend s) (fst (DeleteBlob i ''tombstone.json'' (backend s)))"
    "map_get (dirs (fst (DeleteBlob i ''tombstone.json'' (backend s)))) i \<noteq> None"
    "task_file (dir_at (fst (DeleteBlob i ''tombstone.json'' (backend s))) i) = task_file (dir_at (backend s) i)"
    using d(3) by (auto simp: DeleteBlob_def same_dirs_but_def put_dir_def dir_at_def split: option.split)
  have "good_step L s (after_restore L i t s)" if "\<not> io_fails (backend s) (IODeleteBlob i ''tombstone.json'')"
  proof (rule good_insert[OF assms d(2) d(1) entry_ok_build])
    show "\<not> tombstoned i (backend (after_restore L i t s))"
      using that by (auto simp: after_restore_def DeleteBlob_def tombstoned_iff split: option.split)
    show "persisted s \<Longrightarrow> task_file (dir_at (backend (after_restore L i t s)) i) = Some (Some (pruneTaskPayload s t))"
      using Some disk by (auto simp: persisted_def after_restore_def)
  qed (use assms disk in \<open>auto simp: after_restore_def fun_eq_iff store_inv_def wf_store_def keys_ok_def
      addToStatusIndex_def same_limits_def\<close>)
  then show ?thesis
    using RestoreTask_eq[OF assms Some] assms by (auto simp: good_step_refl)
qed

lemma purge_good:
  assumes "store_inv L s"
  shows "good_step L s (fst (purgeTaskLocked i s))"
proof (cases "map_get (deleted s) i = None \<or> io_fails (backend s) (IORemoveTask i)")
  case True
  then show ?thesis using assms by (auto simp: purgeTaskLocked_def RemoveTask_def good_step_refl)
next
  case False
  then obtain t where t: "map_get (deleted s) i = Some t" by auto
  define s' where "s' = fst (purgeTaskLocked i s)"
  have eq: "tasks s' = tasks s" "tasksByStatus s' = tasksByStatus s" "searchIndex s' = searchIndex s"
    "store_hub s' = store_hub s" "deleted s' = map_del i (deleted s)" "same_limits s s'"
    "backend s' = (backend s)\<lparr>dirs := map_del i (dirs (backend s))\<rparr>"
    using False by (auto simp: s'_def purgeTaskLocked_def RemoveTask_def same_limits_def)
  have b: "same_dirs_but i (backend s) (backend s')" by (simp add: same_dirs_but_def eq)
  have "wf_store L s'"
    using assms by (auto simp: store_inv_def wf_store_def keys_ok_def status_ok_def index_ok_def eq(1-5))
  moreover have "durable s'" "tomb_ok s'"
    using assms inv_in_deleted(2)[OF assms t] same_dirs_butD(2,3)[OF b]
    by (auto simp: store_inv_def durable_def tomb_ok_def eq(1,5) split: if_splits)
  moreover have "persisted s'" if "persisted s"
    using that inv_in_deleted(2)[OF assms t] same_dirs_butD(1)[OF b] same_limits_prune[OF eq(6)]
    by (auto simp: persisted_def eq(1,5) split: if_splits)
  moreover have "emits [] s s'" by (simp add: emits_def eq)
  ultimately show ?thesis
    unfolding s'_def[symmetric] using eq(6,7) by (auto simp: good_step_def store_inv_def)
qed

lemma PurgeExpiredTombstones_good:
  assumes "store_inv L s"
  shows "good_step L s (PurgeExpiredTombstones days now s)"
  unfolding PurgeExpiredTombstones_def
  using assms by (intro fold_good)
    (auto simp: purge_if_expired_def purge_good good_step_refl split: sum.split blob.split)

end
