(* ===== verification/Store_Samples.thy ===== *)
theory Store_Samples
  imports Store_Create_Delete
begin

text \<open>
  Concrete stores: a list of tasks with distinct identifiers, installed one by one in an
  empty store whose disk never fails. They satisfy the invariant and mirror the disk.
\<close>

definition install :: "lib \<Rightarrow> Task \<Rightarrow> Store \<Rightarrow> Store" where
  "install L t s =
     (addToStatusIndex (Status t) (ID t) s)\<lparr>
       backend := put_dir (ID t) (empty_dir\<lparr>task_file := Some (Some (pruneTaskPayload s t)), has_traces := True\<rparr>) (backend s),
       tasks := map_put (ID t) t (tasks s),
       searchIndex := map_put (ID t) (buildIndexEntry L t []) (searchIndex s),
       events := map_put (ID t) [] (events s), nextSeq := map_put (ID t) 1 (nextSeq s),
       eventsLoaded := map_put (ID t) True (eventsLoaded s),
       store_hub := published (update_delta t) (store_hub s)\<rparr>"

definition quiet_disk :: backend where
  "quiet_disk = \<lparr>dirs = [], io_fails = (\<lambda>_. False)\<rparr>"

definition sample_store :: "lib \<Rightarrow> Task list \<Rightarrow> Store" where
  "sample_store L ts = fold (install L) ts (empty_store DefaultLimits quiet_disk)"

lemma empty_store_inv:
  "store_inv L (empty_store lm quiet_disk)" "persisted (empty_store lm quiet_disk)"
  "no_save_faults (empty_store lm quiet_disk)"
  by (simp_all add: store_inv_def wf_store_def keys_ok_def status_ok_def index_ok_def durable_def tomb_ok_def
      persisted_def no_save_faults_def empty_store_def quiet_disk_def NewHub_def WithClone_def subs_inv_def)

lemma install_good:
  assumes "store_inv L s" "map_get (tasks s) (ID t) = None" "map_get (deleted s) (ID t) = None"
  shows "good_step L s (install L t s)"
  by (rule good_insert[OF assms(1,2) refl entry_ok_build])
    (use assms in \<open>auto simp: install_def fun_eq_iff store_inv_def wf_store_def keys_ok_def same_limits_def
      addToStatusIndex_def tombstoned_iff put_dir_def same_dirs_but_def empty_dir_def dir_at_def\<close>)

lemma install_frames [simp]:
  "map_get (tasks (install L t s)) j = (if j = ID t then Some t else map_get (tasks s) j)"
  "deleted (install L t s) = deleted s" "io_fails (backend (install L t s)) = io_fails (backend s)"
  by (simp_all add: install_def)

lemma fold_install_good:
  assumes "store_inv L s" "distinct (map ID ts)"
    "\<forall>t \<in> set ts. map_get (tasks s) (ID t) = None \<and> map_get (deleted s) (ID t) = None"
  shows "good_step L s (fold (install L) ts s)"
  using assms
proof (induction ts arbitrary: s)
  case (Cons t ts)
  have g: "good_step L s (install L t s)" using Cons.prems by (intro install_good) auto
  have "good_step L (install L t s) (fold (install L) ts (install L t s))"
    using Cons.prems by (intro Cons.IH[OF good_step_inv[OF g]]) (auto simp: image_iff)
  with g show ?case using good_step_trans by simp
qed (simp add: good_step_refl)

lemma fold_install_frames:
  "distinct (map ID ts) \<Longrightarrow> map_get (tasks (fold (install L) ts s)) j
     = (case map_of (map (\<lambda>t. (ID t, t)) ts) j of Some t \<Rightarrow> Some t | None \<Rightarrow> map_get (tasks s) j)"
  "deleted (fold (install L) ts s) = deleted s" "io_fails (backend (fold (install L) ts s)) = io_fails (backend s)"
proof (induction ts arbitrary: s)
  case (Cons t ts)
  {
    case 1
    then have "map_of (map (\<lambda>t. (ID t, t)) ts) (ID t) = None"
      by (auto simp: map_of_eq_None_iff image_iff)
    then show ?case using 1 Cons by (auto split: option.split)
  next
    case 2
    then show ?case using Cons by simp
  next
    case 3
    then show ?case using Cons by simp
  }
qed simp_all

lemma sample_store_ok:
  assumes "distinct (map ID ts)"
  shows "store_inv L (sample_store L ts)" "persisted (sample_store L ts)" "no_save_faults (sample_store L ts)"
    "map_get (tasks (sample_store L ts)) j = map_of (map (\<lambda>t. (ID t, t)) ts) j"
    "map_get (deleted (sample_store L ts)) j = None" "\<not> io_fails (backend (sample_store L ts)) c"
proof -
  have g: "good_step L (empty_store DefaultLimits quiet_disk) (sample_store L ts)"
    unfolding sample_store_def
    by (rule fold_install_good[OF empty_store_inv(1) assms]) (simp add: empty_store_def)
  show "store_inv L (sample_store L ts)" "persisted (sample_store L ts)" "no_save_faults (sample_store L ts)"
    using g empty_store_inv by (auto simp: good_step_def no_save_faults_def)
  show "map_get (tasks (sample_store L ts)) j = map_of (map (\<lambda>t. (ID t, t)) ts) j"
    by (simp add: sample_store_def fold_install_frames(1)[OF assms] empty_store_def split: option.split)
  show "map_get (deleted (sample_store L ts)) j = None" "\<not> io_fails (backend (sample_store L ts)) c"
    by (simp_all add: sample_store_def fold_install_frames empty_store_def quiet_disk_def)
qed

end
