(* ===== verification/Dag.thy ===== *)
theory Dag
  imports Prelude
begin

text \<open>
  The graph packages \<open>internal/pkg/dag\<close> and \<open>internal/pkg/dagscorer\<close> over adjacency maps:
  edge reversal, cycle detection by a coloured depth-first search, breadth-first
  reachability, and the memoised longest-chain score. Each is compared with its
  mathematical meaning. The recursion of \<open>DetectCycles\<close> and its walk along the parent
  pointers are bounded by fuel; \<open>detect_total\<close> shows that \<open>length adj + 2\<close> is enough.
\<close>

type_synonym 'k graph = "('k, 'k list) gomap"

abbreviation succs :: "'k graph \<Rightarrow> 'k \<Rightarrow> 'k list" where
  "succs adj n \<equiv> map_at [] adj n"

definition edges :: "'k graph \<Rightarrow> ('k \<times> 'k) set" where
  "edges adj = {(a, b). b \<in> set (succs adj a)}"

section \<open>Reversal\<close>

definition reverse_entry :: "'k \<times> 'k list \<Rightarrow> 'k graph \<Rightarrow> 'k graph" where
  "reverse_entry p rv =
     (case p of (from, tos) \<Rightarrow>
        let rv1 = fold (\<lambda>to rv. map_put to (succs rv to @ [from]) rv) tos rv
        in if map_get rv1 from = None then map_put from [] rv1 else rv1)"

definition ReverseEdges :: "'k graph \<Rightarrow> 'k graph" where
  "ReverseEdges adj = fold reverse_entry adj []"

lemma succs_fold_put:
  "succs (fold (\<lambda>to rv. map_put to (succs rv to @ [from]) rv) tos rv) b
     = succs rv b @ replicate (count_list tos b) from"
  by (induction tos arbitrary: rv) (auto simp: replicate_append_same)

lemma succs_reverse_entry:
  "succs (reverse_entry (from, tos) rv) b = succs rv b @ replicate (count_list tos b) from"
  using succs_fold_put[of "from" tos rv b]
  by (auto simp: reverse_entry_def Let_def) (auto simp: map_at_def)

lemma count_reverse_fold:
  "wf_map adj \<Longrightarrow> count_list (succs (fold reverse_entry adj rv) b) a
     = count_list (succs rv b) a + count_list (succs adj a) b"
proof (induction adj arbitrary: rv)
  case (Cons p adj)
  obtain f tos where p: "p = (f, tos)" by (cases p)
  have c: "count_list (replicate n f) a = (if a = f then n else 0)" for n by (induction n) auto
  have "succs ((f, tos) # adj) a = (if a = f then tos else succs adj a)" by (simp add: map_at_def)
  moreover have "succs adj f = []" using Cons.prems p map_of_eq_None_iff[of adj f] by (auto simp: map_at_def)
  ultimately show ?case
    using Cons.IH[of "reverse_entry p rv"] Cons.prems by (simp add: p succs_reverse_entry c)
qed simp

text \<open>
  Reversal keeps every edge with its multiplicity and adds none, so reversing twice
  gives back the same edges.
\<close>

theorem ReverseEdges_correct:
  assumes "wf_map adj"
  shows "count_list (succs (ReverseEdges adj) b) a = count_list (succs adj a) b
    \<and> edges (ReverseEdges adj) = (edges adj)\<inverse>"
proof -
  have c: "count_list (succs (ReverseEdges adj) b) a = count_list (succs adj a) b" for a b
    using count_reverse_fold[OF assms, of "[]" b a] by (simp add: ReverseEdges_def)
  then have "a \<in> set (succs (ReverseEdges adj) b) \<longleftrightarrow> b \<in> set (succs adj a)" for a b
    by (metis count_list_0_iff)
  with c show ?thesis by (auto simp: edges_def)
qed

theorem ReverseEdges_witness:
  "wf_map [(1::nat, [2, 2, 3]), (2, [3])] \<and> succs (ReverseEdges [(1::nat, [2, 2, 3]), (2, [3])]) 2 = [1, 1]"
proof -
  have "count_list (succs (ReverseEdges [(1::nat, [2, 2, 3]), (2, [3])]) 2) 1 = 2"
    using ReverseEdges_correct[of "[(1::nat, [2, 2, 3]), (2, [3])]" 2 1] by (simp add: map_at_def)
  then show ?thesis by (simp add: ReverseEdges_def reverse_entry_def map_at_def)
qed

section \<open>Reachability\<close>

fun visit_all :: "'k list \<Rightarrow> ('k, bool) gomap \<times> ('k, bool) gomap \<times> 'k list \<Rightarrow> ('k, bool) gomap \<times> ('k, bool) gomap \<times> 'k list" where
  "visit_all [] st = st"
| "visit_all (next # ns) (visited, result, queue) =
     visit_all ns (if map_at False visited next then (visited, result, queue)
                   else (map_put next True visited, map_put next True result, queue @ [next]))"

definition marked :: "('k, bool) gomap \<Rightarrow> 'k set" where
  "marked m = {k. map_at False m k}"

definition targets :: "'k graph \<Rightarrow> 'k set" where
  "targets adj = \<Union> (set ` snd ` set adj)"

lemma finite_targets [simp]: "finite (targets adj)"
  by (simp add: targets_def)

lemma succs_in_targets: "set (succs adj n) \<subseteq> targets adj"
proof (cases "map_get adj n")
  case (Some ns)
  from map_of_SomeD[OF this] have "set ns \<subseteq> targets adj" by (force simp: targets_def)
  with Some show ?thesis by (simp add: map_at_def)
qed (simp add: map_at_def)

lemma marked_put [simp]: "marked (map_put k True m) = insert k (marked m)"
  by (auto simp: marked_def)

lemma visit_all_spec:
  "visit_all ns (v, r, q) = (v', r', q') \<Longrightarrow>
     \<exists>new. q' = q @ new \<and> distinct new \<and> set new = set ns - marked v
       \<and> marked v' = marked v \<union> set ns \<and> marked r' = marked r \<union> (set ns - marked v)"
proof (induction ns arbitrary: v r q)
  case (Cons n ns)
  show ?case
  proof (cases "n \<in> marked v")
    case True
    then show ?thesis using Cons.IH[of v r q] Cons.prems by (auto simp: marked_def)
  next
    case False
    then have "visit_all ns (map_put n True v, map_put n True r, q @ [n]) = (v', r', q')"
      using Cons.prems by (simp add: marked_def)
    from Cons.IH[OF this] obtain new where "q' = (q @ [n]) @ new" "distinct new"
      "set new = set ns - insert n (marked v)" "marked v' = insert n (marked v) \<union> set ns"
      "marked r' = insert n (marked r) \<union> (set ns - insert n (marked v))" by auto
    with False show ?thesis by (intro exI[of _ "n # new"]) auto
  qed
qed auto

function (sequential) reach_loop ::
  "'k graph \<Rightarrow> ('k, bool) gomap \<Rightarrow> ('k, bool) gomap \<Rightarrow> 'k list \<Rightarrow> ('k, bool) gomap" where
  "reach_loop adj visited result [] = result"
| "reach_loop adj visited result (cur # queue) =
     (case visit_all (succs adj cur) (visited, result, queue) of
        (visited', result', queue') \<Rightarrow> reach_loop adj visited' result' queue')"
  by pat_completeness auto

termination
proof (relation "measure (\<lambda>(adj, v, r, q). card (targets adj - marked v) + length q)", simp)
  fix adj :: "'k graph" and v r :: "('k, bool) gomap" and cur q v' r' q' y
  assume a: "(v', y) = visit_all (succs adj cur) (v, r, q)" "(r', q') = y"
  then obtain new where n: "q' = q @ new" "distinct new" "set new = set (succs adj cur) - marked v"
      "marked v' = marked v \<union> set (succs adj cur)"
    using visit_all_spec[of "succs adj cur" v r q v' r' q'] by metis
  have sub: "set new \<subseteq> targets adj - marked v" using n(3) succs_in_targets[of adj cur] by blast
  have "targets adj - marked v' = (targets adj - marked v) - set new" using n(3,4) by blast
  then have "card (targets adj - marked v') = card (targets adj - marked v) - length new"
    using sub n(2) by (simp add: card_Diff_subset distinct_card)
  moreover have "length new \<le> card (targets adj - marked v)"
    using card_mono[OF _ sub] n(2) by (simp add: distinct_card)
  ultimately show "((adj, v', r', q'), adj, v, r, cur # q)
      \<in> measure (\<lambda>(adj, v, r, q). card (targets adj - marked v) + length q)"
    by (simp add: n(1))
qed

definition Reachable :: "'k graph \<Rightarrow> 'k \<Rightarrow> ('k, bool) gomap" where
  "Reachable adj start = reach_loop adj (map_put start True []) [] [start]"

definition bfs_inv :: "'k graph \<Rightarrow> 'k \<Rightarrow> ('k, bool) gomap \<Rightarrow> ('k, bool) gomap \<Rightarrow> 'k list \<Rightarrow> bool" where
  "bfs_inv adj s v r q \<longleftrightarrow> marked r = marked v - {s} \<and> s \<in> marked v \<and> set q \<subseteq> marked v
     \<and> marked v \<subseteq> (edges adj)\<^sup>* `` {s} \<and> (\<forall>n \<in> marked v - set q. set (succs adj n) \<subseteq> marked v)"

lemma bfs_inv_step:
  assumes "bfs_inv adj s v r (cur # q)" "visit_all (succs adj cur) (v, r, q) = (v', r', q')"
  shows "bfs_inv adj s v' r' q'"
proof -
  obtain new where n: "q' = q @ new" "set new = set (succs adj cur) - marked v"
      "marked v' = marked v \<union> set (succs adj cur)" "marked r' = marked r \<union> (set (succs adj cur) - marked v)"
    using visit_all_spec[OF assms(2)] by blast
  have "(s, cur) \<in> (edges adj)\<^sup>*" using assms(1) by (auto simp: bfs_inv_def)
  then have "set (succs adj cur) \<subseteq> (edges adj)\<^sup>* `` {s}"
    by (auto simp: edges_def intro: rtrancl_into_rtrancl)
  then have sound: "marked v' \<subseteq> (edges adj)\<^sup>* `` {s}" using assms(1) n(3) by (auto simp: bfs_inv_def)
  have closed: "\<forall>n \<in> marked v' - set q'. set (succs adj n) \<subseteq> marked v'"
  proof
    fix n assume "n \<in> marked v' - set q'"
    then have "n \<in> marked v - set (cur # q) \<or> n = cur" using n(1-3) by auto
    then show "set (succs adj n) \<subseteq> marked v'" using assms(1) n(3) by (auto simp: bfs_inv_def)
  qed
  have i: "marked r = marked v - {s}" "s \<in> marked v" "set q \<subseteq> marked v"
    using assms(1) by (simp_all add: bfs_inv_def)
  then have q: "s \<in> marked v'" "set q' \<subseteq> marked v'" unfolding n(1,3) using n(2) by auto
  have "marked r' = marked v' - {s}" unfolding n(3,4) i(1) using i(2) by blast
  with q sound closed show ?thesis unfolding bfs_inv_def by (intro conjI)
qed

lemma reach_loop_spec:
  "bfs_inv adj s v r q \<Longrightarrow> marked (reach_loop adj v r q) = (edges adj)\<^sup>* `` {s} - {s}"
proof (induction adj v r q rule: reach_loop.induct)
  case (1 adj v r)
  have "x \<in> marked v" if "(s, x) \<in> (edges adj)\<^sup>*" for x
    using that by induction (use 1 in \<open>auto simp: bfs_inv_def edges_def\<close>)
  with 1 show ?case by (auto simp: bfs_inv_def)
next
  case (2 adj v r cur q)
  obtain v' r' q' where st: "visit_all (succs adj cur) (v, r, q) = (v', r', q')" by (metis prod_cases3)
  show ?case using "2.IH"[OF st[symmetric] refl bfs_inv_step[OF "2.prems" st]] by (simp add: st)
qed

text \<open>
  The breadth-first search ends on every graph and returns exactly the nodes that can be
  reached from the start, the start itself left out.
\<close>

theorem Reachable_correct: "marked (Reachable adj start) = (edges adj)\<^sup>* `` {start} - {start}"
  unfolding Reachable_def by (rule reach_loop_spec) (auto simp: bfs_inv_def marked_def map_at_def split: if_splits)

section \<open>Longest chains\<close>

definition keys :: "('k, 'v) gomap \<Rightarrow> 'k set" where
  "keys m = fst ` set m"

lemma keys_finite [simp]: "finite (keys m)"
  by (simp add: keys_def)

lemma succs_outside: "n \<notin> keys adj \<Longrightarrow> succs adj n = []"
  using map_of_eq_None_iff[of adj n] by (simp add: keys_def map_at_def)

text \<open>
  A search that enters a node decreases the number of keys it has not entered, or the node has
  no successors.
\<close>

lemma enter_decreases:
  assumes "n \<notin> marked vis"
  shows "((card (keys adj - marked (map_put n True vis)), 2 * length (succs adj n)), card (keys adj - marked vis), 1)
    \<in> less_than <*lex*> less_than"
proof (cases "n \<in> keys adj")
  case True
  then have "card (keys adj - marked (map_put n True vis)) < card (keys adj - marked vis)"
    using assms by (intro psubset_card_mono) auto
  then show ?thesis by simp
next
  case False
  then have "keys adj - insert n (marked vis) = keys adj - marked vis" by blast
  then show ?thesis using False by (simp add: succs_outside)
qed

text \<open>
  \<open>visiting\<close> is reset when a call returns, so every call sees the entries of its callers only;
  it is passed down. The memo table is threaded through.
\<close>

function (sequential) score ::
  "'k graph \<Rightarrow> 'k \<Rightarrow> ('k, int) gomap \<Rightarrow> ('k, bool) gomap \<Rightarrow> int \<times> ('k, int) gomap"
  and score_children ::
  "'k graph \<Rightarrow> 'k list \<Rightarrow> int \<Rightarrow> ('k, int) gomap \<Rightarrow> ('k, bool) gomap \<Rightarrow> int \<times> ('k, int) gomap" where
  "score adj n memo visiting =
     (case map_get memo n of
        Some v \<Rightarrow> (v, memo)
      | None \<Rightarrow>
          if map_at False visiting n then (1, memo)
          else case score_children adj (succs adj n) 0 memo (map_put n True visiting) of
                 (best, memo1) \<Rightarrow> (1 + best, map_put n (1 + best) memo1))"
| "score_children adj [] best memo visiting = (best, memo)"
| "score_children adj (child # cs) best memo visiting =
     (case score adj child memo visiting of
        (s, memo1) \<Rightarrow> score_children adj cs (if s > best then s else best) memo1 visiting)"
  by pat_completeness auto

termination
proof (relation "inv_image (less_than <*lex*> less_than) (\<lambda>x. case x of
    Inl (adj, n, memo, vis) \<Rightarrow> (card (keys adj - marked vis), 1)
  | Inr (adj, cs, best, memo, vis) \<Rightarrow> (card (keys adj - marked vis), 2 * length cs))", goal_cases)
  case (2 adj n memo vis)
  then have "n \<notin> marked vis" by (simp add: marked_def)
  from enter_decreases[OF this, of adj] show ?case by simp
qed auto

definition dag_Score :: "'k graph \<Rightarrow> 'k \<Rightarrow> int" where
  "dag_Score adj start = fst (score adj start [] [])"

inductive chain :: "'k graph \<Rightarrow> 'k \<Rightarrow> int \<Rightarrow> bool" for adj where
  single: "chain adj n 1"
| extend: "(n, m) \<in> edges adj \<Longrightarrow> chain adj m k \<Longrightarrow> chain adj n (1 + k)"

definition longest :: "'k graph \<Rightarrow> 'k \<Rightarrow> int \<Rightarrow> bool" where
  "longest adj n v \<longleftrightarrow> chain adj n v \<and> (\<forall>k. chain adj n k \<longrightarrow> k \<le> v)"

lemma longest_pos: "longest adj n v \<Longrightarrow> 1 \<le> v"
  using chain.single[of adj n] unfolding longest_def by blast

lemma longest_step:
  assumes "list_all2 (longest adj) (succs adj n) ws" "r = Max (insert 0 (set ws))"
  shows "longest adj n (1 + r)"
proof -
  have "chain adj n (1 + r)"
  proof (cases "ws = []")
    case False
    then have "longest adj (succs adj n ! 0) (ws ! 0)" "ws ! 0 \<in> set ws"
      using assms(1) by (auto simp: list_all2_conv_all_nth)
    then have "1 \<le> ws ! 0" "ws ! 0 \<le> r" using longest_pos assms(2) by (auto intro: Max_ge)
    moreover have "r \<in> insert 0 (set ws)" unfolding assms(2) by (rule Max_in) auto
    ultimately have "r \<in> set ws" by auto
    then obtain i where "i < length ws" "ws ! i = r" by (auto simp: in_set_conv_nth)
    then have "longest adj (succs adj n ! i) r" "succs adj n ! i \<in> set (succs adj n)"
      using assms(1) by (auto simp: list_all2_conv_all_nth)
    then show ?thesis by (auto simp: longest_def edges_def intro: chain.extend)
  qed (use assms in \<open>auto intro: chain.single\<close>)
  moreover have "k \<le> 1 + r" if "chain adj n k" for k
    using that
  proof cases
    case (extend m j)
    then obtain i where "i < length ws" "longest adj m (ws ! i)"
      using assms(1) by (auto simp: edges_def list_all2_conv_all_nth in_set_conv_nth)
    moreover from this have "ws ! i \<le> r" using assms(2) by (auto intro: Max_ge)
    ultimately show ?thesis using extend by (auto simp: longest_def)
  qed (use assms in simp)
  ultimately show ?thesis by (simp add: longest_def)
qed

definition memo_ok :: "'k graph \<Rightarrow> ('k, int) gomap \<Rightarrow> bool" where
  "memo_ok adj memo \<longleftrightarrow> (\<forall>n v. map_get memo n = Some v \<longrightarrow> longest adj n v)"

lemma score_correct:
  assumes ac: "acyclic (edges adj0)"
  shows "adj = adj0 \<Longrightarrow> memo_ok adj memo \<Longrightarrow> \<forall>v \<in> marked vis. (v, n) \<in> (edges adj)\<^sup>+ \<Longrightarrow>
      longest adj n (fst (score adj n memo vis)) \<and> memo_ok adj (snd (score adj n memo vis))"
    and "adj = adj0 \<Longrightarrow> memo_ok adj memo \<Longrightarrow> \<forall>v \<in> marked vis. \<forall>c \<in> set cs. (v, c) \<in> (edges adj)\<^sup>+ \<Longrightarrow>
      memo_ok adj (snd (score_children adj cs best memo vis))
      \<and> (\<exists>ws. list_all2 (longest adj) cs ws \<and> fst (score_children adj cs best memo vis) = Max (insert best (set ws)))"
proof (induction adj n memo vis and adj cs best memo vis rule: score_score_children.induct)
  case (1 adj n memo vis)
  show ?case
  proof (cases "map_get memo n")
    case None
    have "n \<notin> marked vis" using "1.prems" ac by (auto simp: acyclic_def)
    then have nv: "\<not> map_at False vis n" by (simp add: marked_def)
    have "\<forall>v \<in> marked (map_put n True vis). \<forall>c \<in> set (succs adj n). (v, c) \<in> (edges adj)\<^sup>+"
      using "1.prems"(3) by (auto simp: edges_def intro: trancl_into_trancl)
    from "1.IH"[OF None nv "1.prems"(1,2) this] show ?thesis
      using None nv longest_step[of adj n]
      by (auto simp: memo_ok_def split: prod.split)
  qed (use "1.prems" in \<open>auto simp: memo_ok_def\<close>)
next
  case (3 adj c cs best memo vis)
  obtain s memo1 where sc: "score adj c memo vis = (s, memo1)" by fastforce
  have s: "longest adj c s" "memo_ok adj memo1" using "3.IH"(1) "3.prems" sc by auto
  from "3.IH"(2)[OF sc[symmetric] "3.prems"(1) s(2)] "3.prems"(3)
  obtain ws where ws: "memo_ok adj (snd (score_children adj cs (if s > best then s else best) memo1 vis))"
    "list_all2 (longest adj) cs ws"
    "fst (score_children adj cs (if s > best then s else best) memo1 vis) = Max (insert (if s > best then s else best) (set ws))"
    by auto
  have "Max (insert (if s > best then s else best) (set ws)) = Max (insert best (set (s # ws)))"
    by (cases "ws = []") (auto simp: Max_insert max_def)
  then show ?case using ws s sc by (auto intro!: exI[of _ "s # ws"])
qed simp

text \<open>
  On an acyclic graph the memoised score of a node is the length of the longest chain
  that starts there: such a chain exists and none is longer. The search ends on every graph,
  cyclic or not.
\<close>

theorem dag_Score_longest:
  assumes "acyclic (edges adj)"
  shows "chain adj n (dag_Score adj n) \<and> (\<forall>k. chain adj n k \<longrightarrow> k \<le> dag_Score adj n)"
  using score_correct(1)[OF assms refl, of "[]" "[]" n]
  by (simp add: dag_Score_def longest_def memo_ok_def marked_def)

theorem dag_Score_longest_witness:
  "dag_Score [(1::nat, [2, 3]), (2, [3])] 1 = 3 \<and> chain [(1::nat, [2, 3]), (2, [3])] 1 3"
proof -
  have "edges [(1::nat, [2, 3]), (2, [3])] \<subseteq> less_than"
    by (auto simp: edges_def map_at_def split: if_splits)
  then have "acyclic (edges [(1::nat, [2, 3]), (2, [3])])"
    by (metis acyclic_subset wf_acyclic wf_less_than)
  from dag_Score_longest[OF this, of 1] show ?thesis
    by (simp add: dag_Score_def map_at_def)
qed

section \<open>Cycle detection\<close>

datatype color = White | Gray | Black

record 'k dfs_state =
  colors :: "('k, color) gomap"
  parent :: "('k, 'k) gomap"
  cycles :: "'k list list"

text \<open>\<open>z\<close> is the zero value of the node type, which \<open>parent[cur]\<close> yields for a missing key.\<close>

fun walk_back :: "nat \<Rightarrow> 'k \<Rightarrow> ('k, 'k) gomap \<Rightarrow> 'k \<Rightarrow> 'k \<Rightarrow> 'k list \<Rightarrow> 'k list option" where
  "walk_back 0 z par nx cur cycle = None"
| "walk_back (Suc fuel) z par nx cur cycle =
     (if cur = nx then Some cycle
      else walk_back fuel z par nx (map_at z par cur) (cycle @ [map_at z par cur]))"

fun dfs :: "nat \<Rightarrow> 'k \<Rightarrow> 'k graph \<Rightarrow> 'k \<Rightarrow> 'k dfs_state \<Rightarrow> 'k dfs_state option"
  and dfs_succs :: "nat \<Rightarrow> 'k \<Rightarrow> 'k graph \<Rightarrow> 'k list \<Rightarrow> 'k \<Rightarrow> 'k dfs_state \<Rightarrow> 'k dfs_state option" where
  "dfs 0 z adj node st = None"
| "dfs (Suc fuel) z adj node st =
     map_option (\<lambda>st1. st1\<lparr>colors := map_put node Black (colors st1)\<rparr>)
       (dfs_succs fuel z adj (succs adj node) node (st\<lparr>colors := map_put node Gray (colors st)\<rparr>))"
| "dfs_succs fuel z adj [] node st = Some st"
| "dfs_succs fuel z adj (nx # ns) node st =
     (case (case map_at White (colors st) nx of
              White \<Rightarrow> dfs fuel z adj nx (st\<lparr>parent := map_put nx node (parent st)\<rparr>)
            | Gray \<Rightarrow> map_option (\<lambda>c. st\<lparr>cycles := cycles st @ [rev c]\<rparr>)
                (walk_back (length adj + 2) z (parent st) nx node [nx, node])
            | Black \<Rightarrow> Some st) of
        None \<Rightarrow> None
      | Some st1 \<Rightarrow> dfs_succs fuel z adj ns node st1)"

fun dfs_roots :: "'k \<Rightarrow> 'k graph \<Rightarrow> ('k \<times> 'k list) list \<Rightarrow> 'k dfs_state \<Rightarrow> 'k dfs_state option" where
  "dfs_roots z adj [] st = Some st"
| "dfs_roots z adj ((node, tos) # rest) st =
     (if map_at White (colors st) node = White
      then case dfs (length adj + 2) z adj node st of
             None \<Rightarrow> None
           | Some st1 \<Rightarrow> dfs_roots z adj rest st1
      else dfs_roots z adj rest st)"

definition DetectCycles :: "'k \<Rightarrow> 'k graph \<Rightarrow> 'k list list option" where
  "DetectCycles z adj =
     map_option cycles (dfs_roots z adj adj \<lparr>colors = [], parent = [], cycles = []\<rparr>)"

definition is_cycle :: "'k graph \<Rightarrow> 'k list \<Rightarrow> bool" where
  "is_cycle adj c \<longleftrightarrow> 2 \<le> length c \<and> hd c = last c \<and> successively (\<lambda>a b. (a, b) \<in> edges adj) c"

subsection \<open>Walking back\<close>

definition linked :: "'k graph \<Rightarrow> ('k, 'k) gomap \<Rightarrow> 'k list \<Rightarrow> bool" where
  "linked adj par stack \<longleftrightarrow> successively (\<lambda>a b. map_get par a = Some b \<and> (b, a) \<in> edges adj) stack"

lemma walk_back_linked:
  assumes "linked adj par (pre @ nx # post)" "nx \<notin> set pre" "length pre < fuel" "cur = hd (pre @ [nx])"
  shows "walk_back fuel z par nx cur acc = Some (acc @ tl (pre @ [nx]))"
  using assms
proof (induction pre arbitrary: fuel cur acc)
  case Nil
  then show ?case by (cases fuel) auto
next
  case (Cons p pre)
  then obtain f where f: "fuel = Suc f" by (cases fuel) auto
  have l: "linked adj par (pre @ nx # post)" "map_get par p = Some (hd (pre @ [nx]))"
    using Cons.prems(1) by (cases pre; simp add: linked_def successively_Cons)+
  have "walk_back f z par nx (hd (pre @ [nx])) (acc @ [hd (pre @ [nx])]) = Some ((acc @ [hd (pre @ [nx])]) @ tl (pre @ [nx]))"
    using Cons.prems by (intro Cons.IH[OF l(1)]) (auto simp: f)
  then show ?case using Cons.prems l(2) by (auto simp: f map_at_def)
qed

lemma walk_back_cycle:
  assumes "linked adj par (node # stack)" "nx \<in> set (node # stack)" "length (node # stack) < fuel"
    "(node, nx) \<in> edges adj"
  shows "\<exists>c. walk_back fuel z par nx node [nx, node] = Some c \<and> is_cycle adj (rev c)"
proof -
  obtain pre post where s: "node # stack = pre @ nx # post" "nx \<notin> set pre"
    using split_list_first[OF assms(2)] by metis
  have l: "linked adj par (pre @ nx # post)" using assms(1) s(1) by simp
  have h: "node = hd (pre @ [nx])" using s(1) by (cases pre) auto
  have "length pre < fuel" using assms(3) s(1) by (metis add_lessD1 length_append)
  from walk_back_linked[OF l s(2) this h]
  have w: "walk_back fuel z par nx node [nx, node] = Some ([nx, node] @ tl (pre @ [nx]))" .
  moreover have "[nx, node] @ tl (pre @ [nx]) = nx # pre @ [nx]" using h by (cases pre) auto
  moreover have "is_cycle adj (rev (nx # pre @ [nx]))"
  proof -
    have "successively (\<lambda>a b. (b, a) \<in> edges adj) (pre @ [nx])"
      using l unfolding linked_def by (auto simp: successively_append_iff intro: successively_mono)
    then have "successively (\<lambda>a b. (b, a) \<in> edges adj) (nx # pre @ [nx])"
      using assms(4) h by (cases "pre @ [nx]") (auto simp: successively_Cons)
    then show ?thesis by (simp add: is_cycle_def successively_rev del: rev.simps) (simp add: hd_rev last_rev)
  qed
  ultimately show ?thesis by auto
qed

subsection \<open>Invariant of the search\<close>

definition blacks :: "'k dfs_state \<Rightarrow> 'k set" where
  "blacks st = {n. map_at White (colors st) n = Black}"

definition dfs_inv :: "'k graph \<Rightarrow> 'k list \<Rightarrow> 'k dfs_state \<Rightarrow> bool" where
  "dfs_inv adj stack st \<longleftrightarrow> (\<forall>n. map_at White (colors st) n = Gray \<longleftrightarrow> n \<in> set stack) \<and> distinct stack
     \<and> linked adj (parent st) stack \<and> set (tl stack) \<subseteq> keys adj
     \<and> (\<forall>c \<in> set (cycles st). is_cycle adj c)
     \<and> (cycles st = [] \<longrightarrow> blacks st \<subseteq> Wellfounded.acc ((edges adj)\<inverse>))"

definition extends :: "'k dfs_state \<Rightarrow> 'k dfs_state \<Rightarrow> bool" where
  "extends st st' \<longleftrightarrow> blacks st \<subseteq> blacks st' \<and> (cycles st' = [] \<longrightarrow> cycles st = [])"

lemma extends_trans: "extends st st1 \<Longrightarrow> extends st1 st2 \<Longrightarrow> extends st st2"
  by (auto simp: extends_def)

lemma linked_put:
  "nx \<notin> set stack \<Longrightarrow> linked adj par stack \<Longrightarrow> linked adj (map_put nx v par) stack"
  unfolding linked_def by (erule successively_mono) auto

lemma dfs_inv_push:
  assumes "dfs_inv adj stack st" "map_at White (colors st) node = White"
    "stack \<noteq> [] \<Longrightarrow> hd stack \<in> keys adj \<and> map_get (parent st) node = Some (hd stack) \<and> (hd stack, node) \<in> edges adj"
  shows "dfs_inv adj (node # stack) (st\<lparr>colors := map_put node Gray (colors st)\<rparr>)"
proof -
  have "node \<notin> set stack" using assms(1,2) unfolding dfs_inv_def by (metis color.distinct(1))
  moreover have "set stack \<subseteq> keys adj" using assms(1,3) by (cases stack) (auto simp: dfs_inv_def)
  moreover have "blacks (st\<lparr>colors := map_put node Gray (colors st)\<rparr>) \<subseteq> blacks st" by (auto simp: blacks_def)
  moreover have "linked adj (parent st) (node # stack)"
    using assms(1,3) by (cases stack) (auto simp: dfs_inv_def linked_def)
  ultimately show ?thesis using assms(1) by (auto simp: dfs_inv_def)
qed

lemma dfs_inv_pop:
  assumes "dfs_inv adj (node # stack) st" "cycles st = [] \<longrightarrow> set (succs adj node) \<subseteq> blacks st"
  shows "dfs_inv adj stack (st\<lparr>colors := map_put node Black (colors st)\<rparr>)"
proof -
  have b: "blacks (st\<lparr>colors := map_put node Black (colors st)\<rparr>) = insert node (blacks st)" by (auto simp: blacks_def)
  have i: "\<forall>n. map_at White (colors st) n = Gray \<longleftrightarrow> n \<in> set (node # stack)" "distinct (node # stack)"
    "linked adj (parent st) (node # stack)" "set stack \<subseteq> keys adj" "\<forall>c \<in> set (cycles st). is_cycle adj c"
    "cycles st = [] \<longrightarrow> blacks st \<subseteq> Wellfounded.acc ((edges adj)\<inverse>)"
    using assms(1) by (auto simp: dfs_inv_def)
  have "node \<in> Wellfounded.acc ((edges adj)\<inverse>)" if c: "cycles st = []"
  proof (rule accI)
    fix y assume "(y, node) \<in> (edges adj)\<inverse>"
    then have "y \<in> set (succs adj node)" by (simp add: edges_def)
    with assms(2) i(6) c show "y \<in> Wellfounded.acc ((edges adj)\<inverse>)" by blast
  qed
  moreover have "set (tl stack) \<subseteq> keys adj" using i(4) by (cases stack) auto
  moreover have "linked adj (parent st) stack"
    using i(3) by (cases stack) (auto simp: linked_def)
  moreover have "\<forall>n. map_at White (map_put node Black (colors st)) n = Gray \<longleftrightarrow> n \<in> set stack"
    using i(1,2) by simp
  ultimately show ?thesis unfolding dfs_inv_def b using i by simp
qed

lemma dfs_inv_stack_le:
  assumes "dfs_inv adj (node # stack) st" "node \<in> keys adj"
  shows "length (node # stack) \<le> length adj"
proof -
  have "set (node # stack) \<subseteq> keys adj" "distinct (node # stack)" using assms by (auto simp: dfs_inv_def)
  then have "length (node # stack) \<le> card (keys adj)"
    using card_mono[OF keys_finite] distinct_card by metis
  also have "\<dots> \<le> length adj" unfolding keys_def by (metis card_image_le card_length finite_set le_trans)
  finally show ?thesis .
qed

lemma dfs_inv_parent:
  assumes "dfs_inv adj (node # stack) st" "map_at White (colors st) nx = White" 
  shows "dfs_inv adj (node # stack) (st\<lparr>parent := map_put nx node (parent st)\<rparr>)"
proof -
  have "nx \<notin> set (node # stack)" using assms unfolding dfs_inv_def by (metis color.distinct(1))
  with assms(1) show ?thesis
    unfolding dfs_inv_def using linked_put[of nx "node # stack" adj "parent st" node] by (simp add: blacks_def)
qed

lemma dfs_inv_cycle:
  assumes "dfs_inv adj stack st" "is_cycle adj c"
  shows "dfs_inv adj stack (st\<lparr>cycles := cycles st @ [c]\<rparr>)"
  using assms by (simp add: dfs_inv_def)

definition returns :: "'k graph \<Rightarrow> 'k list \<Rightarrow> 'k list \<Rightarrow> 'k dfs_state \<Rightarrow> 'k dfs_state option \<Rightarrow> bool" where
  "returns adj stack done' st r \<longleftrightarrow> (\<exists>st'. r = Some st' \<and> dfs_inv adj stack st' \<and> extends st st'
     \<and> (cycles st' = [] \<longrightarrow> set done' \<subseteq> blacks st'))"

lemma returns_succ:
  assumes inv: "dfs_inv adj (node # stack) st" and node: "node \<in> keys adj" "(node, nx) \<in> edges adj"
    and rec: "map_at White (colors st) nx = White \<Longrightarrow>
      dfs_inv adj (node # stack) (st\<lparr>parent := map_put nx node (parent st)\<rparr>) \<Longrightarrow>
      returns adj (node # stack) [nx] (st\<lparr>parent := map_put nx node (parent st)\<rparr>)
        (dfs fuel z adj nx (st\<lparr>parent := map_put nx node (parent st)\<rparr>))"
  shows "returns adj (node # stack) [nx] st (case map_at White (colors st) nx of
              White \<Rightarrow> dfs fuel z adj nx (st\<lparr>parent := map_put nx node (parent st)\<rparr>)
            | Gray \<Rightarrow> map_option (\<lambda>c. st\<lparr>cycles := cycles st @ [rev c]\<rparr>)
                (walk_back (length adj + 2) z (parent st) nx node [nx, node])
            | Black \<Rightarrow> Some st)"
proof (cases "map_at White (colors st) nx")
  case White
  then have "returns adj (node # stack) [nx] (st\<lparr>parent := map_put nx node (parent st)\<rparr>)
      (dfs fuel z adj nx (st\<lparr>parent := map_put nx node (parent st)\<rparr>))"
    by (intro rec dfs_inv_parent[OF inv])
  then show ?thesis using White by (auto simp: returns_def extends_def blacks_def)
next
  case Gray
  then have "nx \<in> set (node # stack)" using inv by (simp add: dfs_inv_def)
  then obtain c where "walk_back (length adj + 2) z (parent st) nx node [nx, node] = Some c" "is_cycle adj (rev c)"
    using walk_back_cycle[of adj "parent st" node stack nx "length adj + 2" z] node dfs_inv_stack_le[OF inv node(1)] inv
    by (auto simp: dfs_inv_def)
  then show ?thesis using Gray dfs_inv_cycle[OF inv] by (simp add: returns_def extends_def blacks_def)
next
  case Black
  then show ?thesis using inv by (simp add: returns_def extends_def) (simp add: blacks_def)
qed

lemma returns_Cons:
  assumes "returns adj stack [nx] st r" "\<And>st1. r = Some st1 \<Longrightarrow> dfs_inv adj stack st1 \<Longrightarrow> returns adj stack ns st1 (k st1)"
  shows "returns adj stack (nx # ns) st (case r of None \<Rightarrow> None | Some st1 \<Rightarrow> k st1)"
  using assms unfolding returns_def extends_def by fastforce

lemma dfs_returns:
  shows "dfs_inv adj stack st \<Longrightarrow> map_at White (colors st) node = White \<Longrightarrow>
      (stack \<noteq> [] \<longrightarrow> hd stack \<in> keys adj \<and> map_get (parent st) node = Some (hd stack) \<and> (hd stack, node) \<in> edges adj) \<Longrightarrow>
      card (keys adj - set stack) < fuel \<Longrightarrow> returns adj stack [node] st (dfs fuel z adj node st)"
    and "dfs_inv adj (node # stack) st \<Longrightarrow> set ns \<subseteq> set (succs adj node) \<Longrightarrow>
      ns = [] \<or> card (keys adj - set (node # stack)) < fuel \<Longrightarrow>
      returns adj (node # stack) ns st (dfs_succs fuel z adj ns node st)"
proof (induction fuel z adj node st and fuel z adj ns node st arbitrary: stack and stack rule: dfs_dfs_succs.induct)
  case (2 fuel z adj node st)
  define st1 where "st1 = st\<lparr>colors := map_put node Gray (colors st)\<rparr>"
  have inv1: "dfs_inv adj (node # stack) st1" unfolding st1_def using "2.prems" by (intro dfs_inv_push) auto
  have "node \<notin> set stack" using "2.prems"(1,2) unfolding dfs_inv_def by (metis color.distinct(1))
  have "succs adj node = [] \<or> card (keys adj - set (node # stack)) < fuel"
  proof (cases "node \<in> keys adj")
    case True
    with \<open>node \<notin> set stack\<close> have "card (keys adj - set (node # stack)) < card (keys adj - set stack)"
      by (intro psubset_card_mono) auto
    with "2.prems"(4) show ?thesis by simp
  qed (simp add: succs_outside)
  from "2.IH"[folded st1_def, OF inv1 subset_refl this] obtain st2 where
    r: "dfs_succs fuel z adj (succs adj node) node st1 = Some st2" and
    st2: "dfs_inv adj (node # stack) st2" "extends st1 st2" "cycles st2 = [] \<longrightarrow> set (succs adj node) \<subseteq> blacks st2"
    by (auto simp: returns_def)
  have "blacks st1 = blacks st" using "2.prems"(2) by (auto simp: st1_def blacks_def)
  then have "extends st (st2\<lparr>colors := map_put node Black (colors st2)\<rparr>)"
    using st2(2) by (auto simp: extends_def blacks_def st1_def)
  then show ?case
    using r dfs_inv_pop[OF st2(1,3)] by (simp add: returns_def st1_def[symmetric]) (simp add: blacks_def)
next
  case (3 fuel z adj node st)
  then show ?case by (simp add: returns_def extends_def)
next
  case (4 fuel z adj nx ns node st)
  have e: "(node, nx) \<in> edges adj" using "4.prems"(2) by (simp add: edges_def)
  then have node: "node \<in> keys adj" using succs_outside[of node adj] by (cases "node \<in> keys adj") (auto simp: edges_def)
  have fuel: "card (keys adj - set (node # stack)) < fuel" using "4.prems"(3) by simp
  show ?case unfolding dfs_succs.simps
  proof (rule returns_Cons[OF returns_succ[OF "4.prems"(1) node e]])
    show "returns adj (node # stack) [nx] (st\<lparr>parent := map_put nx node (parent st)\<rparr>)
        (dfs fuel z adj nx (st\<lparr>parent := map_put nx node (parent st)\<rparr>))"
      if "map_at White (colors st) nx = White" "dfs_inv adj (node # stack) (st\<lparr>parent := map_put nx node (parent st)\<rparr>)"
      using that node e fuel by (intro "4.IH"(1)) simp_all
  qed (use "4.prems"(2) fuel in \<open>auto intro!: "4.IH"(2)\<close>)
qed simp

lemma dfs_roots_returns:
  assumes "dfs_inv adj [] st" "set rest \<subseteq> set adj"
  shows "returns adj [] (map fst rest) st (dfs_roots z adj rest st)"
  using assms
proof (induction rest arbitrary: st)
  case Nil
  then show ?case by (simp add: returns_def extends_def)
next
  case (Cons p rest)
  obtain n tos where p: "p = (n, tos)" by (cases p)
  have rest: "returns adj [] (map fst rest) st1 (dfs_roots z adj rest st1)" if "dfs_inv adj [] st1" for st1
    using Cons.IH[OF that] Cons.prems(2) by simp
  show ?case
  proof (cases "map_at White (colors st) n = White")
    case True
    have "card (keys adj) < length adj + 2"
      using card_image_le[of "set adj" fst] card_length[of adj] by (simp add: keys_def)
    then have "returns adj [] [n] st (dfs (length adj + 2) z adj n st)"
      using dfs_returns(1)[OF Cons.prems(1) True, of "length adj + 2" z] by (simp del: dfs.simps)
    from returns_Cons[OF this rest] show ?thesis using True by (simp add: p del: dfs.simps)
  next
    case False
    then have "n \<in> blacks st" using Cons.prems(1) unfolding dfs_inv_def blacks_def
      by (cases "map_at White (colors st) n") auto
    with False rest[OF Cons.prems(1)] show ?thesis by (auto simp: p returns_def extends_def)
  qed
qed

lemma successively_rtrancl:
  "successively (\<lambda>a b. (a, b) \<in> r) (x # xs) \<Longrightarrow> (x, last (x # xs)) \<in> r\<^sup>*"
  by (induction xs arbitrary: x) (auto intro: converse_rtrancl_into_rtrancl)

lemma cycle_not_acyclic: "is_cycle adj c \<Longrightarrow> \<not> acyclic (edges adj)"
proof -
  assume c: "is_cycle adj c"
  then obtain x y zs where xs: "c = x # y # zs" by (cases c rule: list.exhaust; cases "tl c") (auto simp: is_cycle_def)
  with c have "(x, y) \<in> edges adj" "(y, x) \<in> (edges adj)\<^sup>*"
    using successively_rtrancl[of "edges adj" y zs] by (auto simp: is_cycle_def)
  then have "(x, x) \<in> (edges adj)\<^sup>+" by (rule rtrancl_into_trancl2)
  then show ?thesis by (auto simp: acyclic_def)
qed

text \<open>
  (C31) The search ends on every graph, every path it reports is a closed walk along edges,
  and it reports none exactly when the graph is acyclic.
\<close>

theorem DetectCycles_correct:
  "\<exists>cs. DetectCycles z adj = Some cs \<and> (cs = [] \<longleftrightarrow> acyclic (edges adj)) \<and> list_all (is_cycle adj) cs"
proof -
  define st0 :: "'a dfs_state" where "st0 = \<lparr>colors = [], parent = [], cycles = []\<rparr>"
  have "dfs_inv adj [] st0" by (simp add: st0_def dfs_inv_def linked_def blacks_def)
  from dfs_roots_returns[OF this subset_refl, of z] obtain st where
    st: "dfs_roots z adj adj st0 = Some st" "dfs_inv adj [] st" "cycles st = [] \<longrightarrow> keys adj \<subseteq> blacks st"
    unfolding returns_def keys_def by auto
  have ac: "acyclic (edges adj)" if c: "cycles st = []"
  proof -
    have k: "keys adj \<subseteq> Wellfounded.acc ((edges adj)\<inverse>)" using st(2,3) c unfolding dfs_inv_def by blast
    have "x \<in> Wellfounded.acc ((edges adj)\<inverse>)" for x
    proof (cases "x \<in> keys adj")
      case False
      have "(x, y) \<notin> edges adj" for y using succs_outside[OF False] by (simp add: edges_def)
      show ?thesis by (rule accI) (use \<open>\<And>y. (x, y) \<notin> edges adj\<close> in blast)
    qed (use k in blast)
    then have "wf ((edges adj)\<inverse>)" by (intro acc_wfI allI)
    from wf_acyclic[OF this] show ?thesis by (simp only: acyclic_converse)
  qed
  have cyc: "is_cycle adj c" if "c \<in> set (cycles st)" for c using st(2) that by (simp add: dfs_inv_def)
  have "cycles st = []" if "acyclic (edges adj)"
    using that cyc cycle_not_acyclic[of adj "hd (cycles st)"] by (metis hd_in_set)
  with ac have "cycles st = [] \<longleftrightarrow> acyclic (edges adj)" by blast
  moreover have "list_all (is_cycle adj) (cycles st)" unfolding list_all_iff using cyc by blast
  moreover have "DetectCycles z adj = Some (cycles st)" using st(1) by (simp add: DetectCycles_def st0_def)
  ultimately show ?thesis by blast
qed

end
