(* ===== verification/Store_Query.thy ===== *)
theory Store_Query
  imports Store_Samples Dag
begin

text \<open>
  The read side of the store: listings (\<open>tasks_list.go\<close>), search (\<open>tasks_worktree.go\<close>),
  visibility per principal (\<open>principal.go\<close>), dependency checks (\<open>tasks_update.go\<close>), critical
  path scores (\<open>dep_graph.go\<close>) and the index rebuild (\<open>reconcile.go\<close>). The listings that use
  the status index are compared with a scan of the task map. \<open>None\<close> as the result of the
  search is a run-time panic.
\<close>

section \<open>Listings\<close>

definition cmpTaskPositionCreatedAt :: "Task \<Rightarrow> Task \<Rightarrow> int" where
  "cmpTaskPositionCreatedAt =
     or_else (\<lambda>a b. cmp_Compare (Position a) (Position b)) (\<lambda>a b. cmp_Compare (CreatedAt a) (CreatedAt b))"

definition indexed_tasks :: "TaskStatus \<Rightarrow> Store \<Rightarrow> Task list" where
  "indexed_tasks status s = List.map_filter (map_get (tasks s)) (map_at [] (tasksByStatus s) status)"

definition ListTasksByStatus :: "TaskStatus \<Rightarrow> Store \<Rightarrow> Task list" where
  "ListTasksByStatus status s = SortFunc cmpTaskPositionCreatedAt (indexed_tasks status s)"

definition CountByStatus :: "TaskStatus \<Rightarrow> Store \<Rightarrow> int" where
  "CountByStatus status s = int (length (map_at [] (tasksByStatus s) status))"

definition CountRegularInProgress :: "Store \<Rightarrow> int" where
  "CountRegularInProgress s = int (length (filter (\<lambda>t. \<not> IsTestRun t) (indexed_tasks TaskStatusInProgress s)))"

definition ListSummaries :: "Store \<Rightarrow> error + TaskSummary list" where
  "ListSummaries s =
     (case ListBlobOwners ''summary.json'' (backend s) of
        Inl e \<Rightarrow> Inl e
      | Inr owners \<Rightarrow> Inr (List.map_filter (\<lambda>i. case LoadSummary i s of Inl _ \<Rightarrow> None | Inr sm \<Rightarrow> sm) owners))"

definition ListTasks :: "bool \<Rightarrow> Store \<Rightarrow> Task list" where
  "ListTasks includeArchived s =
     SortFunc cmpTaskPositionCreatedAt (filter (\<lambda>t. includeArchived \<or> \<not> Archived t) (map snd (tasks s)))"

definition ListTasksAndSeq :: "bool \<Rightarrow> Store \<Rightarrow> Task list \<times> int" where
  "ListTasksAndSeq includeArchived s =
     (SortFunc cmpTaskPositionCreatedAt (filter (\<lambda>t. includeArchived \<or> \<not> Archived t) (map snd (tasks s))),
      LatestSeq (store_hub s))"

definition cmpArchived :: "lib \<Rightarrow> Task \<Rightarrow> Task \<Rightarrow> int" where
  "cmpArchived L = or_else (\<lambda>a b. cmp_Compare (UpdatedAt b) (UpdatedAt a))
     (\<lambda>a b. cmp_Compare (uuid_String L (ID b)) (uuid_String L (ID a)))"

definition archived_list :: "lib \<Rightarrow> Store \<Rightarrow> Task list" where
  "archived_list L s = SortFunc (cmpArchived L) (filter Archived (map snd (tasks s)))"

text \<open>The page, the total, \<open>hasMoreBefore\<close>, \<open>hasMoreAfter\<close> and the error.\<close>

definition ListArchivedTasksPage ::
  "lib \<Rightarrow> int \<Rightarrow> uuid option \<Rightarrow> uuid option \<Rightarrow> Store \<Rightarrow> Task list \<times> int \<times> bool \<times> bool \<times> error option" where
  "ListArchivedTasksPage L pageSize0 beforeID afterID s =
     (let pageSize = (if pageSize0 < 1 then 1 else pageSize0) in
      if beforeID \<noteq> None \<and> afterID \<noteq> None then ([], 0, False, False, Some ErrCursorsExclusive)
      else
        let archived = archived_list L s; total = int (length archived) in
        if total = 0 then ([], 0, False, False, None)
        else
          case (case beforeID of
                  Some bid \<Rightarrow>
                    (case IndexFunc (\<lambda>t. ID t = bid) archived of
                       None \<Rightarrow> Inl ErrBeforeCursor
                     | Some idx \<Rightarrow> let start = min (int idx + 1) total in Inr (start, min (start + pageSize) total))
                | None \<Rightarrow>
                    (case afterID of
                       Some aid \<Rightarrow>
                         (case IndexFunc (\<lambda>t. ID t = aid) archived of
                            None \<Rightarrow> Inl ErrAfterCursor
                          | Some idx \<Rightarrow> Inr (max 0 (int idx - pageSize), int idx))
                     | None \<Rightarrow> Inr (0, min pageSize total))) of
            Inl e \<Rightarrow> ([], total, False, False, Some e)
          | Inr (start, end') \<Rightarrow>
              (if start < end' then take (nat (end' - start)) (drop (nat start) archived) else [],
               total, end' < total, start > 0, None))"

definition ListWaitingTasksWithSession :: "Store \<Rightarrow> Task list" where
  "ListWaitingTasksWithSession s =
     SortFunc cmpTaskPositionCreatedAt
       (filter (\<lambda>t. (case SessionID t of None \<Rightarrow> False | Some sid \<Rightarrow> sid \<noteq> []) \<and> ReviewUnresolved t = None)
          (indexed_tasks TaskStatusWaiting s))"

definition GetTask :: "uuid \<Rightarrow> Store \<Rightarrow> error + Task" where
  "GetTask i s = (case map_get (tasks s) i of None \<Rightarrow> Inl (ErrTaskNotFound i) | Some t \<Rightarrow> Inr t)"

section \<open>Dependencies\<close>

fun dependencies_done :: "lib \<Rightarrow> Store \<Rightarrow> string list \<Rightarrow> bool" where
  "dependencies_done L s [] = True"
| "dependencies_done L s (depStr # deps) =
     (case uuid_Parse L depStr of
        None \<Rightarrow> False
      | Some depID \<Rightarrow>
          (case map_get (tasks s) depID of
             None \<Rightarrow> False
           | Some dep \<Rightarrow> if Status dep \<noteq> TaskStatusDone then False else dependencies_done L s deps))"

definition AreDependenciesSatisfied :: "lib \<Rightarrow> uuid \<Rightarrow> Store \<Rightarrow> error + bool" where
  "AreDependenciesSatisfied L i s =
     (case map_get (tasks s) i of
        None \<Rightarrow> Inl (ErrTaskNotFound i)
      | Some t \<Rightarrow> Inr (dependencies_done L s (DependsOn t)))"

definition reverse_dependencies :: "lib \<Rightarrow> Store \<Rightarrow> uuid graph" where
  "reverse_dependencies L s =
     fold (\<lambda>(i, t) adj.
         fold (\<lambda>depStr adj. case uuid_Parse L depStr of
                 None \<Rightarrow> adj
               | Some depID \<Rightarrow> map_put depID (map_at [] adj depID @ [ID t]) adj) (DependsOn t) adj)
       (tasks s) []"

definition CriticalPathScores :: "lib \<Rightarrow> uuid list \<Rightarrow> Store \<Rightarrow> (uuid, int) gomap" where
  "CriticalPathScores L ids s =
     (let reverseAdj = reverse_dependencies L s in
      fold (\<lambda>i scores.
          if map_get (tasks s) i = None then map_put i 0 scores
          else map_put i (dag_Score reverseAdj i) scores) ids [])"

definition CriticalPathScore :: "lib \<Rightarrow> uuid \<Rightarrow> Store \<Rightarrow> int" where
  "CriticalPathScore L i s = map_at 0 (CriticalPathScores L [i] s) i"

section \<open>Visibility\<close>

record Principal =
  Sub :: string
  pr_OrgID :: string

definition principalSeesTask :: "Principal option \<Rightarrow> Task \<Rightarrow> bool" where
  "principalSeesTask p t =
     (case p of
        None \<Rightarrow> True
      | Some p \<Rightarrow>
          if pr_OrgID p \<noteq> [] then OrgID t = pr_OrgID p
          else if OrgID t \<noteq> [] then False
          else CreatedBy t = [] \<or> CreatedBy t = Sub p)"

definition TasksForPrincipal :: "Principal option \<Rightarrow> bool \<Rightarrow> Store \<Rightarrow> Task list" where
  "TasksForPrincipal p includeArchived s =
     SortFunc cmpTaskPositionCreatedAt
       (filter (\<lambda>t. (includeArchived \<or> \<not> Archived t) \<and> principalSeesTask p t) (map snd (tasks s)))"

section \<open>Search\<close>

record TaskSearchResult =
  sr_Task :: Task
  MatchedField :: string
  Snippet :: string

definition escape_char :: "char \<Rightarrow> string" where
  "escape_char c =
     (if c = CHR ''&'' then ''&amp;''
      else if byte c = 39 then ''&#39;''
      else if c = CHR ''<'' then ''&lt;''
      else if c = CHR ''>'' then ''&gt;''
      else if byte c = 34 then ''&#34;''
      else [c])"

definition EscapeString :: "string \<Rightarrow> string" where
  "EscapeString s = concat (map escape_char s)"

definition SnippetPadding :: nat where
  "SnippetPadding = 60"

definition MaxSearchResults :: nat where
  "MaxSearchResults = 50"

definition ellipsis :: string where
  "ellipsis = encode_rune 8230"

fun align_start :: "string \<Rightarrow> nat \<Rightarrow> nat option" where
  "align_start src 0 = Some 0"
| "align_start src (Suc n) =
     (if Suc n < length src
      then (if RuneStart (src ! Suc n) then Some (Suc n) else align_start src n)
      else None)"

function align_end :: "string \<Rightarrow> nat \<Rightarrow> nat" where
  "align_end src n = (if n < length src \<and> \<not> RuneStart (src ! n) then align_end src (Suc n) else n)"
  by pat_completeness auto

termination
  by (relation "measure (\<lambda>(src, n). length src - n)") auto

declare align_end.simps [simp del]

definition buildSnippet :: "string \<Rightarrow> nat \<Rightarrow> nat \<Rightarrow> string option" where
  "buildSnippet src idx matchLen =
     (let (start, pre) = (if idx \<le> SnippetPadding then (0, []) else (idx - SnippetPadding, ellipsis));
          (end', suf) = (if idx + matchLen + SnippetPadding \<ge> length src then (length src, [])
                         else (idx + matchLen + SnippetPadding, ellipsis))
      in case align_start src start of
           None \<Rightarrow> None
         | Some start1 \<Rightarrow>
             let end1 = align_end src end'
             in if start1 \<le> end1
                then Some (EscapeString (pre @ take (end1 - start1) (drop start1 src) @ suf)) else None)"

text \<open>The outer option is a panic, the inner one whether the task matches.\<close>

definition matchTask :: "Task \<Rightarrow> indexedTaskText \<Rightarrow> string \<Rightarrow> (string \<times> string) option option" where
  "matchTask t entry q =
     (let hit = (\<lambda>field src idx. map_option (\<lambda>sn. Some (field, sn)) (buildSnippet src idx (length q))) in
      case Index (ix_title entry) q of
        Some idx \<Rightarrow> hit ''title'' (Title t) idx
      | None \<Rightarrow>
          (case Index (ix_prompt entry) q of
             Some idx \<Rightarrow> hit ''prompt'' (Prompt t) idx
           | None \<Rightarrow>
               (case Index (ix_tags entry) q of
                  Some idx \<Rightarrow> hit ''tags'' (Join (Tags t) '' '') idx
                | None \<Rightarrow>
                    if ix_oversight entry \<noteq> []
                    then (case Index (ix_oversight entry) q of
                            Some idx \<Rightarrow> hit ''oversight'' (ix_oversightRaw entry) idx
                          | None \<Rightarrow> Some None)
                    else Some None)))"

definition zero_entry :: indexedTaskText where
  "zero_entry = \<lparr>ix_title = [], ix_prompt = [], ix_tags = [], ix_oversight = [], ix_oversightRaw = []\<rparr>"

fun search_loop ::
  "(uuid \<times> Task) list \<Rightarrow> (uuid, indexedTaskText) gomap \<Rightarrow> string \<Rightarrow> (uuid \<times> string \<times> string) list
     \<Rightarrow> (uuid \<times> string \<times> string) list option" where
  "search_loop [] ix q matches = Some matches"
| "search_loop ((i, t) # rest) ix q matches =
     (if length matches \<ge> MaxSearchResults then Some matches
      else case matchTask t (map_at zero_entry ix i) q of
             None \<Rightarrow> None
           | Some None \<Rightarrow> search_loop rest ix q matches
           | Some (Some (field, sn)) \<Rightarrow> search_loop rest ix q (matches @ [(i, field, sn)]))"

definition SearchTasks :: "lib \<Rightarrow> string \<Rightarrow> Store \<Rightarrow> TaskSearchResult list option" where
  "SearchTasks L query s =
     map_option (List.map_filter (\<lambda>(i, field, sn). case GetTask i s of
           Inl _ \<Rightarrow> None
         | Inr t \<Rightarrow> Some \<lparr>sr_Task = t, MatchedField = field, Snippet = sn\<rparr>))
       (search_loop (tasks s) (searchIndex s) (lower L query) [])"

section \<open>Rebuilding the index\<close>

text \<open>
  One task of the rebuild, split where the lock is released: the snapshot of the indexed
  fields with the oversight text, and the write of the entry. \<open>ctxErr\<close> is what \<open>ctx.Err()\<close>
  returns before the task is processed.
\<close>

definition rebuild_snapshot :: "lib \<Rightarrow> uuid \<Rightarrow> Store \<Rightarrow> indexedTaskText option" where
  "rebuild_snapshot L i s =
     (case map_get (tasks s) i of
        None \<Rightarrow> None
      | Some task \<Rightarrow>
          Some (buildIndexEntry L (zero_task\<lparr>Title := Title task, Prompt := Prompt task, Tags := Tags task\<rparr>)
                  (fst (LoadOversightText i s))))"

definition rebuild_write :: "uuid \<Rightarrow> indexedTaskText \<Rightarrow> Store \<Rightarrow> Store \<times> bool" where
  "rebuild_write i entry s =
     (if map_get (searchIndex s) i \<noteq> Some entry
      then (s\<lparr>searchIndex := map_put i entry (searchIndex s)\<rparr>, True) else (s, False))"

fun rebuild_loop :: "lib \<Rightarrow> (uuid \<Rightarrow> error option) \<Rightarrow> uuid list \<Rightarrow> int \<Rightarrow> Store \<Rightarrow> Store \<times> int \<times> error option" where
  "rebuild_loop L ctxErr [] repaired s = (s, repaired, None)"
| "rebuild_loop L ctxErr (i # ids) repaired s =
     (case ctxErr i of
        Some e \<Rightarrow> (s, repaired, Some e)
      | None \<Rightarrow>
          (case rebuild_snapshot L i s of
             None \<Rightarrow> rebuild_loop L ctxErr ids repaired s
           | Some entry \<Rightarrow>
               (case rebuild_write i entry s of
                  (s1, changed) \<Rightarrow> rebuild_loop L ctxErr ids (if changed then repaired + 1 else repaired) s1)))"

definition RebuildSearchIndex :: "lib \<Rightarrow> (uuid \<Rightarrow> error option) \<Rightarrow> Store \<Rightarrow> Store \<times> int \<times> error option" where
  "RebuildSearchIndex L ctxErr s = rebuild_loop L ctxErr (map fst (tasks s)) 0 s"

section \<open>The index agrees with a scan\<close>

lemma task_values:
  assumes "store_inv L s"
  shows "distinct (map snd (tasks s))" "t \<in> set (map snd (tasks s)) \<longleftrightarrow> map_get (tasks s) (ID t) = Some t"
proof -
  have k: "wf_map (tasks s)" "\<And>j t. (j, t) \<in> set (tasks s) \<Longrightarrow> ID t = j"
    using assms by (auto simp: store_inv_def wf_store_def keys_ok_def wf_map_get_iff)
  have "map fst (tasks s) = map ID (map snd (tasks s))" using k(2) by auto
  with k(1) have "distinct (map ID (map snd (tasks s)))" by simp
  then show "distinct (map snd (tasks s))" unfolding distinct_map by blast
  show "t \<in> set (map snd (tasks s)) \<longleftrightarrow> map_get (tasks s) (ID t) = Some t"
    unfolding wf_map_get_iff[OF k(1)] using k(2) by (force simp: image_iff)
qed

lemma indexed_scan:
  assumes "store_inv L s"
  shows "mset (indexed_tasks status s) = mset (filter (\<lambda>t. Status t = status) (map snd (tasks s)))"
proof -
  define ids where "ids = map_at [] (tasksByStatus s) status"
  have ids: "distinct ids" "\<And>i. i \<in> set ids \<longleftrightarrow> (\<exists>t. map_get (tasks s) i = Some t \<and> Status t = status)"
    using assms by (auto simp: store_inv_def wf_store_def status_ok_def ids_def)
  have id: "\<And>i t. map_get (tasks s) i = Some t \<Longrightarrow> ID t = i" using inv_in_tasks(1)[OF assms] by blast
  have eq: "indexed_tasks status s = map (\<lambda>i. the (map_get (tasks s) i)) ids"
    unfolding indexed_tasks_def ids_def[symmetric] map_filter_def
    by (rule map_cong[OF filter_True]) (use ids(2) in auto)
  have "inj_on (\<lambda>i. the (map_get (tasks s) i)) (set ids)"
  proof (rule inj_onI)
    fix i j assume "i \<in> set ids" "j \<in> set ids" "the (map_get (tasks s) i) = the (map_get (tasks s) j)"
    then show "i = j" using ids(2) id by (metis option.sel)
  qed
  then have "distinct (indexed_tasks status s)" unfolding eq distinct_map using ids(1) by blast
  moreover have "set (indexed_tasks status s) = {t. map_get (tasks s) (ID t) = Some t \<and> Status t = status}"
  proof (rule set_eqI, rule iffI)
    fix t assume "t \<in> set (indexed_tasks status s)"
    then obtain i where "i \<in> set ids" "t = the (map_get (tasks s) i)" unfolding eq by auto
    then show "t \<in> {t. map_get (tasks s) (ID t) = Some t \<and> Status t = status}" using ids(2)[of i] id by auto
  next
    fix t assume "t \<in> {t. map_get (tasks s) (ID t) = Some t \<and> Status t = status}"
    then have "ID t \<in> set ids" "t = the (map_get (tasks s) (ID t))" using ids(2)[of "ID t"] by auto
    then show "t \<in> set (indexed_tasks status s)" unfolding eq by (metis (no_types) image_eqI list.set_map)
  qed
  moreover have "set (filter (\<lambda>t. Status t = status) (map snd (tasks s)))
      = {t. map_get (tasks s) (ID t) = Some t \<and> Status t = status}"
    unfolding set_filter using task_values(2)[OF assms] by blast
  moreover have "distinct (filter (\<lambda>t. Status t = status) (map snd (tasks s)))"
    using task_values(1)[OF assms] by (rule distinct_filter)
  ultimately show ?thesis by (metis set_eq_iff_mset_eq_distinct)
qed

definition board_le :: "Task \<Rightarrow> Task \<Rightarrow> bool" where
  "board_le a b \<longleftrightarrow> Position a < Position b \<or> Position a = Position b \<and> CreatedAt a \<le> CreatedAt b"

lemma cmp_board: "cmpTaskPositionCreatedAt a b \<le> 0 \<longleftrightarrow> board_le a b"
  by (auto simp: cmpTaskPositionCreatedAt_def or_else_def board_le_def cmp_Compare_def)

lemma board_sorted: "sorted_wrt board_le (SortFunc cmpTaskPositionCreatedAt xs)"
  using cmp_on2.sorted_SortFunc[of Position CreatedAt xs]
  unfolding cmpTaskPositionCreatedAt_def[symmetric] cmp_board .

text \<open>
  (C27) Listing and counting by status through the index give the same tasks as a scan of the
  whole task map, in board order: by position, then by creation time.
\<close>

theorem ListTasksByStatus_scan:
  assumes "store_inv L s"
  shows "mset (ListTasksByStatus status s) = mset (filter (\<lambda>t. Status t = status) (map snd (tasks s)))
    \<and> sorted_wrt board_le (ListTasksByStatus status s)
    \<and> CountByStatus status s = int (length (filter (\<lambda>t. Status t = status) (map snd (tasks s))))"
proof -
  have "length (indexed_tasks status s) = length (map_at [] (tasksByStatus s) status)"
    unfolding indexed_tasks_def map_filter_def length_map
    using assms by (intro arg_cong[of _ _ length] filter_True) (auto simp: store_inv_def wf_store_def status_ok_def)
  moreover have "length (indexed_tasks status s) = length (filter (\<lambda>t. Status t = status) (map snd (tasks s)))"
    using arg_cong[OF indexed_scan[OF assms], of size status] unfolding size_mset .
  ultimately show ?thesis
    unfolding ListTasksByStatus_def CountByStatus_def mset_SortFunc
    using indexed_scan[OF assms, of status] board_sorted by (intro conjI) simp_all
qed

theorem ListTasksByStatus_scan_witness:
  "ListTasksByStatus TaskStatusBacklog (sample_store unary_lib [sample_task]) = [sample_task]
   \<and> CountByStatus TaskStatusBacklog (sample_store unary_lib [sample_task]) = 1"
proof -
  have "store_inv unary_lib (sample_store unary_lib [sample_task])" by (rule sample_store_ok) simp
  from ListTasksByStatus_scan[OF this, of TaskStatusBacklog] show ?thesis
    by (simp add: sample_store_def install_def empty_store_def addToStatusIndex_def)
qed

section \<open>Dependencies\<close>

lemma dependencies_done_iff:
  "dependencies_done L s deps \<longleftrightarrow> (\<forall>d \<in> set deps. \<exists>i t. uuid_Parse L d = Some i
     \<and> map_get (tasks s) i = Some t \<and> Status t = TaskStatusDone)"
  by (induction deps) (auto split: option.split)

lemma unblocked_sel [simp]:
  "ID (unblocked d now t) = ID t" "Status (unblocked d now t) = Status t"
  by (simp_all add: unblocked_def)

lemma DeleteTask_get:
  assumes "store_inv L s" "map_get (tasks s) i = Some t" "is_ok (snd (DeleteTask L i reason n1 n2 s))"
  shows "map_get (tasks (fst (DeleteTask L i reason n1 n2 s))) j =
     (if j = i then None else map_option (unblocked (uuid_String L i) n2) (map_get (tasks s) j))"
proof -
  have f: "\<not> io_fails (backend s) (IOSaveBlob i ''tombstone.json'')"
    using DeleteTask_eq[OF assms(1,2), of reason n1 n2] assms(3) by auto
  then have "fst (DeleteTask L i reason n1 n2 s)
      = removeOrphanedDependents L i n2 (after_delete i t \<lparr>DeletedAt = n1, Reason = reason\<rparr> s)"
    using DeleteTask_eq[OF assms(1,2), of reason n1 n2] by auto
  moreover have "map_get (tasks (after_delete i t tomb s)) j = (if j = i then None else map_get (tasks s) j)" for tomb
    by (simp add: after_delete_def)
  ultimately show ?thesis
    using removeOrphanedDependents_get[OF good_step_inv[OF after_delete_good[OF assms(1,2) f]]] by simp
qed


lemma ResetTaskForRetry_get:
  "map_get (tasks (fst (ResetTaskForRetry L i p f n1 n2 s))) j =
     (if j = i then map_option (\<lambda>t. stamped (reset_for_retry p f n1 n2 t)) (map_get (tasks s) i)
      else map_get (tasks s) j)"
proof (cases "map_get (tasks s) i")
  case (Some t)
  define s1 where "s1 = move_status (Status t) TaskStatusBacklog i (updateIndexEntry i (\<lambda>e. e\<lparr>ix_prompt := lower L p\<rparr>) s)"
  obtain e where st: "store_task i (reset_for_retry p f n1 n2 t) s1 =
     (if save_ok (ID (reset_for_retry p f n1 n2 t)) s1
      then (s1\<lparr>backend := written s1 (reset_for_retry p f n1 n2 t),
               tasks := map_put i (stamped (reset_for_retry p f n1 n2 t)) (tasks s1)\<rparr>,
            Inr (stamped (reset_for_retry p f n1 n2 t)))
      else (s1\<lparr>tasks := map_put i (stamped (reset_for_retry p f n1 n2 t)) (tasks s1)\<rparr>, Inl e))"
    using store_task_eq by blast
  have "tasks s1 = tasks s" by (simp add: s1_def)
  then show ?thesis
    using Some by (simp add: ResetTaskForRetry_def s1_def[symmetric] write_and_notify_def st)
qed (simp add: ResetTaskForRetry_def)


definition blocked_pair :: "Task list" where
  "blocked_pair = [sample_task, sample_task\<lparr>ID := 2, Status := TaskStatusCancelled, DependsOn := [''xx'']\<rparr>]"



section \<open>Archive pages\<close>

lemma IndexFunc_nth:
  "distinct (map f xs) \<Longrightarrow> k < length xs \<Longrightarrow> IndexFunc (\<lambda>x. f x = f (xs ! k)) xs = Some k"
proof (induction xs arbitrary: k)
  case (Cons x xs)
  show ?case
  proof (cases k)
    case (Suc m)
    then have "f x \<noteq> f (xs ! m)" using Cons.prems by (metis Suc_less_eq distinct.simps(2) length_Cons length_map list.simps(9) nth_map nth_mem)
    then show ?thesis using Cons Suc by simp
  qed simp
qed simp

lemma archived_list_props:
  assumes "store_inv L s"
  shows "distinct (map ID (archived_list L s))"
    "t \<in> set (archived_list L s) \<longleftrightarrow> map_get (tasks s) (ID t) = Some t \<and> Archived t"
    "sorted_wrt (\<lambda>a b. UpdatedAt b \<le> UpdatedAt a) (archived_list L s)"
proof -
  have mem: "t \<in> set (archived_list L s) \<longleftrightarrow> map_get (tasks s) (ID t) = Some t \<and> Archived t" for t
    unfolding archived_list_def SortFunc_perm set_filter using task_values(2)[OF assms, of t] by blast
  then show "t \<in> set (archived_list L s) \<longleftrightarrow> map_get (tasks s) (ID t) = Some t \<and> Archived t" .
  have "distinct (archived_list L s)"
    unfolding archived_list_def SortFunc_perm using task_values(1)[OF assms] by (rule distinct_filter)
  moreover have "inj_on ID (set (archived_list L s))" by (rule inj_onI) (metis mem option.inject)
  ultimately show "distinct (map ID (archived_list L s))" by (simp add: distinct_map)
  have "sorted_wrt (\<lambda>a b. cmpArchived L a b \<le> 0) (archived_list L s)"
    unfolding archived_list_def cmpArchived_def by (rule cmp_desc2.sorted_SortFunc)
  then show "sorted_wrt (\<lambda>a b. UpdatedAt b \<le> UpdatedAt a) (archived_list L s)"
    by (rule sorted_wrt_mono_rel[rotated]) (auto simp: cmpArchived_def or_else_def cmp_Compare_def split: if_splits)
qed

text \<open>
  Paging through the archive: the order lists exactly the archived tasks, newest first;
  the page before the \<open>k\<close>-th task holds the tasks that follow it in that order, the page after
  it the tasks that precede it, each cut to the page size, with flags that say whether more
  follow on either side.
\<close>

theorem ListArchivedTasksPage_correct:
  assumes "store_inv L s" "k < length (archived_list L s)" "1 \<le> p"
  shows "set (archived_list L s) = {t. map_get (tasks s) (ID t) = Some t \<and> Archived t}
    \<and> sorted_wrt (\<lambda>a b. UpdatedAt b \<le> UpdatedAt a) (archived_list L s)
    \<and> ListArchivedTasksPage L p None None s
        = (take (nat p) (archived_list L s), int (length (archived_list L s)),
           p < int (length (archived_list L s)), False, None)
    \<and> ListArchivedTasksPage L p (Some (ID (archived_list L s ! k))) None s
        = (take (nat p) (drop (Suc k) (archived_list L s)), int (length (archived_list L s)),
           int (Suc k) + p < int (length (archived_list L s)), True, None)
    \<and> ListArchivedTasksPage L p None (Some (ID (archived_list L s ! k))) s
        = (drop (k - nat p) (take k (archived_list L s)), int (length (archived_list L s)),
           True, p < int k, None)"
proof -
  define xs where "xs = archived_list L s"
  have i: "IndexFunc (\<lambda>t. ID t = ID (xs ! k)) xs = Some k"
    using IndexFunc_nth[of ID xs k] archived_list_props(1)[OF assms(1)] assms(2) by (simp add: xs_def)
  have k: "k < length xs" using assms(2) by (simp add: xs_def)
  have 1: "ListArchivedTasksPage L p None None s = (take (nat p) xs, int (length xs), p < int (length xs), False, None)"
    using assms(3) k by (auto simp: ListArchivedTasksPage_def xs_def[symmetric] Let_def min_def)
  have 2: "ListArchivedTasksPage L p (Some (ID (xs ! k))) None s
      = (take (nat p) (drop (Suc k) xs), int (length xs), int (Suc k) + p < int (length xs), True, None)"
    using assms(3) k
    by (auto simp: ListArchivedTasksPage_def xs_def[symmetric] Let_def i min_def nat_add_distrib nat_diff_distrib)
  have 3: "ListArchivedTasksPage L p None (Some (ID (xs ! k))) s
      = (drop (k - nat p) (take k xs), int (length xs), True, p < int k, None)"
    using assms(3) k
    by (auto simp: ListArchivedTasksPage_def xs_def[symmetric] Let_def i max_def drop_take nat_diff_distrib)
  show ?thesis
    using archived_list_props(2,3)[OF assms(1)] 1 2 3 unfolding xs_def by blast
qed

section \<open>Visibility\<close>



theorem ListArchivedTasksPage_correct_witness:
  "ListArchivedTasksPage unary_lib 1 (Some 2) None (sample_store unary_lib
      [sample_task\<lparr>Archived := True\<rparr>, sample_task\<lparr>ID := 2, Archived := True, UpdatedAt := 9\<rparr>])
     = ([sample_task\<lparr>Archived := True\<rparr>], 2, False, True, None)"
proof -
  let ?ts = "[sample_task\<lparr>Archived := True\<rparr>, sample_task\<lparr>ID := 2, Archived := True, UpdatedAt := 9\<rparr>]"
  have d: "distinct (map ID ?ts)" by simp
  have a: "archived_list unary_lib (sample_store unary_lib ?ts)
      = [sample_task\<lparr>ID := 2, Archived := True, UpdatedAt := 9\<rparr>, sample_task\<lparr>Archived := True\<rparr>]"
    by (simp add: archived_list_def sample_store_def install_def empty_store_def SortFunc_def cmpArchived_def
        or_else_def cmp_Compare_def)
  from ListArchivedTasksPage_correct[OF sample_store_ok(1)[OF d, of unary_lib], of 0 1] show ?thesis
    unfolding a by simp
qed

section \<open>Critical paths\<close>

lemma reverse_deps_one:
  "set (succs (fold (\<lambda>depStr adj. case uuid_Parse L depStr of
                 None \<Rightarrow> adj
               | Some depID \<Rightarrow> map_put depID (map_at [] adj depID @ [i]) adj) deps adj) d)
     = set (succs adj d) \<union> {i |dep. dep \<in> set deps \<and> uuid_Parse L dep = Some d}"
  by (induction deps arbitrary: adj) (auto split: option.splits)

lemma edges_reverse_dependencies:
  assumes "store_inv L s"
  shows "edges (reverse_dependencies L s) = {(d, i). \<exists>t dep. map_get (tasks s) i = Some t
     \<and> dep \<in> set (DependsOn t) \<and> uuid_Parse L dep = Some d}"
proof -
  have f: "set (succs (fold (\<lambda>(i, t) adj. fold (\<lambda>depStr adj. case uuid_Parse L depStr of
                 None \<Rightarrow> adj
               | Some depID \<Rightarrow> map_put depID (map_at [] adj depID @ [ID t]) adj) (DependsOn t) adj) ts adj) d)
     = set (succs adj d) \<union> {ID t |i t dep. (i, t) \<in> set ts \<and> dep \<in> set (DependsOn t) \<and> uuid_Parse L dep = Some d}" for ts adj d
  proof (induction ts arbitrary: adj)
    case (Cons p ts)
    obtain i t where "p = (i, t)" by (cases p)
    with Cons.IH show ?case by (auto simp: reverse_deps_one)
  qed simp
  have k: "\<And>j t. (j, t) \<in> set (tasks s) \<longleftrightarrow> map_get (tasks s) j = Some t" "\<And>j t. map_get (tasks s) j = Some t \<Longrightarrow> ID t = j"
    using assms by (auto simp: store_inv_def wf_store_def keys_ok_def wf_map_get_iff)
  show ?thesis
    unfolding edges_def reverse_dependencies_def f k(1) using k(2) by auto
qed

lemma scores_fold:
  "map_get (fold (\<lambda>i scores. if P i then map_put i 0 scores else map_put i (h i) scores) ids m) j
     = (if j \<in> set ids then Some (if P j then 0 else h j) else map_get m j)"
  by (induction ids arbitrary: m) auto



section \<open>Rebuilding the index\<close>

lemma rebuild_write_good:
  assumes "store_inv L s" "rebuild_snapshot L i s = Some entry"
  shows "good_step L s (fst (rebuild_write i entry s))"
proof -
  obtain t where t: "map_get (tasks s) i = Some t" using assms(2) by (auto simp: rebuild_snapshot_def split: option.splits)
  have "entry_ok L t entry"
    using assms(2) by (auto simp: rebuild_snapshot_def t entry_ok_def buildIndexEntry_def)
  with t assms(1) have "wf_store L (fst (rebuild_write i entry s))"
    by (auto simp: rebuild_write_def store_inv_def wf_store_def keys_ok_def status_ok_def index_ok_def)
  then show ?thesis
    using assms(1) by (auto simp: good_step_def store_inv_def durable_def tomb_ok_def persisted_def same_limits_def
        rebuild_write_def emits_def pruneTaskPayload_def intro: exI[of _ "[]"])
qed

lemma rebuild_write_frames [simp]:
  "tasks (fst (rebuild_write i entry s)) = tasks s" "backend (fst (rebuild_write i entry s)) = backend s"
  "map_get (searchIndex (fst (rebuild_write i entry s))) j = (if j = i then Some entry else map_get (searchIndex s) j)"
  by (simp_all add: rebuild_write_def)

definition fresh_entry :: "lib \<Rightarrow> Store \<Rightarrow> uuid \<Rightarrow> indexedTaskText option" where
  "fresh_entry L s i = map_option (\<lambda>t. buildIndexEntry L t (fst (LoadOversightText i s))) (map_get (tasks s) i)"

lemma rebuild_snapshot_fresh: "rebuild_snapshot L i s = fresh_entry L s i"
  by (simp add: rebuild_snapshot_def fresh_entry_def buildIndexEntry_def split: option.split)

lemma rebuild_loop_spec:
  assumes "store_inv L s" "distinct ids" "\<forall>i \<in> set ids. map_get (tasks s) i \<noteq> None"
  shows "good_step L s (fst (rebuild_loop L (\<lambda>_. None) ids n s))
    \<and> (\<forall>i. map_get (searchIndex (fst (rebuild_loop L (\<lambda>_. None) ids n s))) i =
          (if i \<in> set ids then fresh_entry L s i else map_get (searchIndex s) i))
    \<and> snd (rebuild_loop L (\<lambda>_. None) ids n s)
        = (n + int (length (filter (\<lambda>i. map_get (searchIndex s) i \<noteq> fresh_entry L s i) ids)), None)"
  using assms
proof (induction ids arbitrary: n s)
  case (Cons i ids)
  obtain entry where e: "rebuild_snapshot L i s = Some entry"
    using Cons.prems by (auto simp: rebuild_snapshot_fresh fresh_entry_def)
  define s1 where "s1 = fst (rebuild_write i entry s)"
  have w: "rebuild_write i entry s = (s1, map_get (searchIndex s) i \<noteq> Some entry)"
    by (simp add: s1_def rebuild_write_def)
  have g: "good_step L s s1" unfolding s1_def by (rule rebuild_write_good[OF Cons.prems(1) e])
  have f: "fresh_entry L s1 = fresh_entry L s"
    by (rule ext) (simp add: fresh_entry_def s1_def LoadOversightText_def)
  have t1: "tasks s1 = tasks s" by (simp add: s1_def)
  define n1 where "n1 = (if map_get (searchIndex s) i \<noteq> Some entry then n + 1 else n)"
  have ih: "good_step L s1 (fst (rebuild_loop L (\<lambda>_. None) ids n1 s1))
    \<and> (\<forall>i. map_get (searchIndex (fst (rebuild_loop L (\<lambda>_. None) ids n1 s1))) i =
          (if i \<in> set ids then fresh_entry L s i else map_get (searchIndex s1) i))
    \<and> snd (rebuild_loop L (\<lambda>_. None) ids n1 s1)
        = (n1 + int (length (filter (\<lambda>i. map_get (searchIndex s1) i \<noteq> fresh_entry L s i) ids)), None)"
    using Cons.IH[OF good_step_inv[OF g], of n1, unfolded f] Cons.prems by (simp add: s1_def[symmetric] t1)
  have "filter (\<lambda>j. map_get (searchIndex s1) j \<noteq> fresh_entry L s j) ids
      = filter (\<lambda>j. map_get (searchIndex s) j \<noteq> fresh_entry L s j) ids"
    by (rule filter_cong) (use Cons.prems(2) in \<open>auto simp: s1_def\<close>)
  moreover have "rebuild_loop L (\<lambda>_. None) (i # ids) n s = rebuild_loop L (\<lambda>_. None) ids n1 s1"
    by (simp add: e w n1_def)
  moreover have "fresh_entry L s i = Some entry" using e by (simp add: rebuild_snapshot_fresh)
  ultimately show ?case
    using ih good_step_trans[OF g] by (auto simp: s1_def n1_def)
qed (simp add: good_step_refl)

text \<open>
  A rebuild that runs undisturbed leaves every live task with the entry computed from its
  fields and its oversight text on disk, keeps the store invariant, and returns the number
  of entries that were wrong before.
\<close>

theorem RebuildSearchIndex_correct:
  assumes "store_inv L s"
  shows "store_inv L (fst (RebuildSearchIndex L (\<lambda>_. None) s))
    \<and> map_get (searchIndex (fst (RebuildSearchIndex L (\<lambda>_. None) s))) = fresh_entry L s
    \<and> snd (RebuildSearchIndex L (\<lambda>_. None) s)
        = (int (length (filter (\<lambda>i. map_get (searchIndex s) i \<noteq> fresh_entry L s i) (map fst (tasks s)))), None)"
proof -
  have k: "distinct (map fst (tasks s))" using assms by (simp add: store_inv_def wf_store_def keys_ok_def)
  have p: "\<forall>i \<in> set (map fst (tasks s)). map_get (tasks s) i \<noteq> None"
    using map_of_eq_None_iff[of "tasks s"] by auto
  note loop = rebuild_loop_spec[OF assms k p, of 0, folded RebuildSearchIndex_def]
  have "map_get (searchIndex s) i = None" if "map_get (tasks s) i = None" for i
    using assms that by (auto simp: store_inv_def wf_store_def index_ok_def dest!: spec[of _ i])
  then have "(if i \<in> set (map fst (tasks s)) then fresh_entry L s i else map_get (searchIndex s) i) = fresh_entry L s i" for i
    using map_of_eq_None_iff[of "tasks s" i] by (auto simp: fresh_entry_def)
  with loop show ?thesis by (auto simp: good_step_inv fun_eq_iff)
qed

theorem RebuildSearchIndex_correct_witness:
  "snd (RebuildSearchIndex unary_lib (\<lambda>_. None) (sample_store unary_lib [sample_task])) = (0, None)"
proof -
  have d: "distinct (map ID [sample_task])" by simp
  from RebuildSearchIndex_correct[OF sample_store_ok(1)[OF d, of unary_lib]] show ?thesis
    by (simp add: fresh_entry_def sample_store_def install_def empty_store_def LoadOversightText_def ReadBlob_def
        empty_dir_def)
qed

lemma mutateTask_indexed_get:
  assumes "map_get (tasks s) i = Some t"
  shows "map_get (tasks (fst (mutateTask i (assign_indexed i (\<lambda>_. None) f g) now s))) i
     = Some (stamped ((f t)\<lparr>UpdatedAt := now\<rparr>))"
proof -
  obtain e where "store_task i ((f t)\<lparr>UpdatedAt := now\<rparr>) (updateIndexEntry i g s) =
     (if save_ok (ID ((f t)\<lparr>UpdatedAt := now\<rparr>)) (updateIndexEntry i g s)
      then ((updateIndexEntry i g s)\<lparr>backend := written (updateIndexEntry i g s) ((f t)\<lparr>UpdatedAt := now\<rparr>),
              tasks := map_put i (stamped ((f t)\<lparr>UpdatedAt := now\<rparr>)) (tasks (updateIndexEntry i g s))\<rparr>,
            Inr (stamped ((f t)\<lparr>UpdatedAt := now\<rparr>)))
      else ((updateIndexEntry i g s)\<lparr>tasks := map_put i (stamped ((f t)\<lparr>UpdatedAt := now\<rparr>)) (tasks (updateIndexEntry i g s))\<rparr>, Inl e))"
    using store_task_eq by blast
  with assms show ?thesis by (simp add: mutateTask_def assign_indexed_def)
qed

text \<open>
  The rebuild releases the lock between reading the fields of a task and writing its
  entry. A title update that runs in between is undone in the index: the entry then holds
  the old title, and the store invariant fails.
\<close>

theorem rebuild_race_stale:
  assumes "map_get (tasks s) i = Some t" "rebuild_snapshot L i s = Some entry"
    "lower L title \<noteq> lower L (Title t)"
    "s' = fst (rebuild_write i entry (fst (UpdateTaskTitle L i title now s)))"
  shows "map_option Title (map_get (tasks s') i) = Some title
    \<and> map_option ix_title (map_get (searchIndex s') i) = Some (lower L (Title t)) \<and> \<not> wf_store L s'"
proof -
  have t': "map_get (tasks s') i = Some (stamped (t\<lparr>Title := title, UpdatedAt := now\<rparr>))"
    using assms(4) mutateTask_indexed_get[OF assms(1)] by (simp add: UpdateTaskTitle_def)
  have e: "map_get (searchIndex s') i = Some entry" "ix_title entry = lower L (Title t)"
    using assms(1,2,4) by (auto simp: rebuild_snapshot_def buildIndexEntry_def)
  then have "\<not> wf_store L s'"
    using t' assms(3) wf_entry_ex[OF _ t', of L] by (auto simp: entry_ok_def)
  with t' e show ?thesis by simp
qed

theorem rebuild_race_stale_witness:
  "\<not> wf_store unary_lib (fst (rebuild_write 1 (buildIndexEntry unary_lib sample_task [])
      (fst (UpdateTaskTitle unary_lib 1 ''New'' 7 (sample_store unary_lib [sample_task])))))"
proof -
  have d: "distinct (map ID [sample_task])" by simp
  have g: "map_get (tasks (sample_store unary_lib [sample_task])) 1 = Some sample_task"
    by (simp add: sample_store_ok(4)[OF d])
  have sn: "rebuild_snapshot unary_lib 1 (sample_store unary_lib [sample_task]) = Some (buildIndexEntry unary_lib sample_task [])"
    by (simp add: rebuild_snapshot_fresh fresh_entry_def g)
      (simp add: sample_store_def install_def empty_store_def LoadOversightText_def ReadBlob_def empty_dir_def)
  have "lower unary_lib ''New'' \<noteq> lower unary_lib (Title sample_task)"
    by (simp add: ToLower_def runes_ascii is_ascii_def byte_def lower_rune_def lower_byte_def encode_rune_def
        char_of_byte_def char_of_eq_iff del: runes.simps)
  from rebuild_race_stale[OF g sn this refl] show ?thesis by blast
qed

section \<open>Search\<close>

definition contains :: "string \<Rightarrow> string \<Rightarrow> bool" where
  "contains x q \<longleftrightarrow> (\<exists>a b. x = a @ q @ b)"

lemma contains_iff: "contains x q \<longleftrightarrow> (\<exists>i. Index x q = Some i)"
proof -
  have "contains x q \<longleftrightarrow> (\<exists>i \<le> length x. HasPrefix (drop i x) q)"
  proof
    assume "contains x q"
    then obtain a b where "x = a @ q @ b" by (auto simp: contains_def)
    then have "length a \<le> length x \<and> HasPrefix (drop (length a) x) q" by (auto simp: HasPrefix_iff)
    then show "\<exists>i \<le> length x. HasPrefix (drop i x) q" by blast
  next
    assume "\<exists>i \<le> length x. HasPrefix (drop i x) q"
    then obtain i r where "drop i x = q @ r" by (auto simp: HasPrefix_iff)
    then show "contains x q" unfolding contains_def by (metis append_take_drop_id)
  qed
  then show ?thesis using Index_None_iff[of x q] by auto
qed

lemma align_start_ok: "n < length src \<or> n = 0 \<Longrightarrow> \<exists>m \<le> n. align_start src n = Some m"
  by (induction n) (auto intro: le_SucI)

lemma align_end_ge: "n \<le> align_end src n"
proof (induction src n rule: align_end.induct)
  case (1 src n)
  then show ?case by (subst align_end.simps) (use Suc_leD in auto)
qed

lemma buildSnippet_ok: "idx + m \<le> length src \<Longrightarrow> \<exists>sn. buildSnippet src idx m = Some sn"
proof -
  assume i: "idx + m \<le> length src"
  define st where "st = (if idx \<le> SnippetPadding then 0 else idx - SnippetPadding)"
  define en where "en = (if idx + m + SnippetPadding \<ge> length src then length src else idx + m + SnippetPadding)"
  have "st < length src \<or> st = 0" using i by (auto simp: st_def SnippetPadding_def)
  then obtain k where k: "align_start src st = Some k" "k \<le> st" using align_start_ok by blast
  moreover have "st \<le> en" using i by (auto simp: st_def en_def SnippetPadding_def)
  ultimately have "k \<le> align_end src en" using align_end_ge[of en src] by linarith
  then show ?thesis using k(1) unfolding buildSnippet_def st_def en_def Let_def by (auto split: if_splits)
qed

text \<open>The indexed texts of a task, with the texts that snippets are cut from.\<close>

definition search_texts :: "Task \<Rightarrow> indexedTaskText \<Rightarrow> string list" where
  "search_texts t e = [Title t, Prompt t, Join (Tags t) '' '', ix_oversightRaw e]"

definition entry_matches :: "indexedTaskText \<Rightarrow> string \<Rightarrow> bool" where
  "entry_matches e q \<longleftrightarrow> contains (ix_title e) q \<or> contains (ix_prompt e) q \<or> contains (ix_tags e) q
     \<or> ix_oversight e \<noteq> [] \<and> contains (ix_oversight e) q"

lemma matchTask_total:
  assumes "entry_ok L t e" "\<forall>x \<in> set (search_texts t e). length (lower L x) = length x"
  shows "\<exists>r. matchTask t e q = Some r \<and> (r \<noteq> None \<longleftrightarrow> entry_matches e q)"
proof -
  have sn: "\<exists>sn. buildSnippet x idx (length q) = Some sn" if "Index (lower L x) q = Some idx" "x \<in> set (search_texts t e)" for x idx
    using Index_SomeD[OF that(1)] assms(2) that(2) by (intro buildSnippet_ok) auto
  have e: "ix_title e = lower L (Title t)" "ix_prompt e = lower L (Prompt t)"
    "ix_tags e = lower L (Join (Tags t) '' '')" "ix_oversight e = lower L (ix_oversightRaw e)"
    using assms(1) by (auto simp: entry_ok_def)
  show ?thesis
    using sn[of "Title t"] sn[of "Prompt t"] sn[of "Join (Tags t) '' ''"] sn[of "ix_oversightRaw e"]
    unfolding matchTask_def entry_matches_def contains_iff e Let_def search_texts_def
    by (fastforce split: option.splits)
qed

lemma search_loop_spec:
  assumes "\<forall>(i, t) \<in> set ts. \<exists>e. map_get ix i = Some e \<and> entry_ok L t e \<and> (\<forall>x \<in> set (search_texts t e). length (lower L x) = length x)"
    "length ms \<le> MaxSearchResults"
  shows "\<exists>new. search_loop ts ix q ms = Some (ms @ new) \<and> length (ms @ new) \<le> MaxSearchResults
    \<and> (\<forall>i \<in> fst ` set new. i \<in> fst ` set ts \<and> entry_matches (map_at zero_entry ix i) q)
    \<and> (length (ms @ new) < MaxSearchResults \<longrightarrow>
         (\<forall>(i, t) \<in> set ts. entry_matches (map_at zero_entry ix i) q \<longrightarrow> i \<in> fst ` set new))"
  using assms
proof (induction ts arbitrary: ms)
  case (Cons p ts)
  obtain i t where p: "p = (i, t)" by (cases p)
  show ?case
  proof (cases "length ms \<ge> MaxSearchResults")
    case False
    obtain e where e: "map_get ix i = Some e" "entry_ok L t e" "\<forall>x \<in> set (search_texts t e). length (lower L x) = length x"
      using Cons.prems(1) p by auto
    then obtain r where r: "matchTask t (map_at zero_entry ix i) q = Some r" "r \<noteq> None \<longleftrightarrow> entry_matches (map_at zero_entry ix i) q"
      using matchTask_total[of L t e q] by (auto simp: map_at_def)
    show ?thesis
    proof (cases r)
      case None
      have "\<exists>new. search_loop ts ix q ms = Some (ms @ new) \<and> length (ms @ new) \<le> MaxSearchResults
        \<and> (\<forall>i \<in> fst ` set new. i \<in> fst ` set ts \<and> entry_matches (map_at zero_entry ix i) q)
        \<and> (length (ms @ new) < MaxSearchResults \<longrightarrow>
             (\<forall>(i, t) \<in> set ts. entry_matches (map_at zero_entry ix i) q \<longrightarrow> i \<in> fst ` set new))"
        using Cons.IH[of ms] Cons.prems by simp
      then show ?thesis using None False r by (auto simp: p)
    next
      case (Some fs)
      obtain fd sn where fs: "fs = (fd, sn)" by (cases fs)
      obtain new where "search_loop ts ix q (ms @ [(i, fd, sn)]) = Some ((ms @ [(i, fd, sn)]) @ new)"
        "length ((ms @ [(i, fd, sn)]) @ new) \<le> MaxSearchResults"
        "\<forall>i \<in> fst ` set new. i \<in> fst ` set ts \<and> entry_matches (map_at zero_entry ix i) q"
        "length ((ms @ [(i, fd, sn)]) @ new) < MaxSearchResults \<longrightarrow>
             (\<forall>(i, t) \<in> set ts. entry_matches (map_at zero_entry ix i) q \<longrightarrow> i \<in> fst ` set new)"
        using Cons.IH[of "ms @ [(i, fd, sn)]"] Cons.prems False by auto
      then show ?thesis
        using Some fs False r by (intro exI[of _ "(i, fd, sn) # new"]) (auto simp: p)
    qed
  qed (use Cons.prems(2) in \<open>auto simp: p\<close>)
qed auto

text \<open>
  When lower-casing keeps the length of the indexed texts, as it does for ASCII, a search
  does not panic and returns at most fifty live tasks, each with a field that contains the
  query up to case; when it returns fewer than fifty it returns all of them.
\<close>

theorem SearchTasks_correct:
  assumes "store_inv L s"
    "\<forall>i t e. map_get (tasks s) i = Some t \<longrightarrow> map_get (searchIndex s) i = Some e \<longrightarrow>
       (\<forall>x \<in> set (search_texts t e). length (lower L x) = length x)"
  shows "\<exists>rs. SearchTasks L query s = Some rs \<and> length rs \<le> MaxSearchResults
    \<and> (\<forall>t \<in> sr_Task ` set rs. map_get (tasks s) (ID t) = Some t
         \<and> entry_matches (map_at zero_entry (searchIndex s) (ID t)) (lower L query))
    \<and> (length rs < MaxSearchResults \<longrightarrow> (\<forall>i t. map_get (tasks s) i = Some t \<longrightarrow>
         entry_matches (map_at zero_entry (searchIndex s) i) (lower L query) \<longrightarrow> t \<in> sr_Task ` set rs))"
proof -
  have wf: "wf_store L s" "wf_map (tasks s)" using assms(1) by (auto simp: store_inv_def wf_store_def keys_ok_def)
  have "\<forall>(i, t) \<in> set (tasks s). \<exists>e. map_get (searchIndex s) i = Some e \<and> entry_ok L t e
      \<and> (\<forall>x \<in> set (search_texts t e). length (lower L x) = length x)"
    using wf_entry_ex[OF wf(1)] assms(2) unfolding wf_map_get_iff[OF wf(2)] by (auto; blast)
  from search_loop_spec[OF this, of "[]" "lower L query"] obtain ms where
    ms: "search_loop (tasks s) (searchIndex s) (lower L query) [] = Some ms" "length ms \<le> MaxSearchResults"
    "\<forall>i \<in> fst ` set ms. i \<in> fst ` set (tasks s) \<and> entry_matches (map_at zero_entry (searchIndex s) i) (lower L query)"
    "length ms < MaxSearchResults \<longrightarrow> (\<forall>(i, t) \<in> set (tasks s).
         entry_matches (map_at zero_entry (searchIndex s) i) (lower L query) \<longrightarrow> i \<in> fst ` set ms)" by auto
  have live: "\<exists>t. map_get (tasks s) i = Some t \<and> ID t = i" if "(i, fs) \<in> set ms" for i fs
    using ms(3) that wf_ID[OF wf(1)] wf_map_get_iff[OF wf(2)] by fastforce
  define res where "res = (\<lambda>(i, field, sn). \<lparr>sr_Task = the (map_get (tasks s) i), MatchedField = field, Snippet = sn\<rparr>)"
  have "List.map_filter (\<lambda>(i, field, sn). case GetTask i s of
           Inl _ \<Rightarrow> None | Inr t \<Rightarrow> Some \<lparr>sr_Task = t, MatchedField = field, Snippet = sn\<rparr>) ms = map res ms"
    using live by (induction ms) (fastforce simp: map_filter_def GetTask_def res_def)+
  then have sr: "SearchTasks L query s = Some (map res ms)" by (simp add: SearchTasks_def ms(1))
  have "\<forall>t \<in> sr_Task ` set (map res ms). map_get (tasks s) (ID t) = Some t
         \<and> entry_matches (map_at zero_entry (searchIndex s) (ID t)) (lower L query)"
  proof
    fix t assume "t \<in> sr_Task ` set (map res ms)"
    then obtain i fs where i: "(i, fs) \<in> set ms" "t = the (map_get (tasks s) i)" by (force simp: res_def)
    with live[OF i(1)] ms(3) show "map_get (tasks s) (ID t) = Some t
         \<and> entry_matches (map_at zero_entry (searchIndex s) (ID t)) (lower L query)" by force
  qed
  moreover have "t \<in> sr_Task ` set (map res ms)" if "length (map res ms) < MaxSearchResults"
    "map_get (tasks s) i = Some t" "entry_matches (map_at zero_entry (searchIndex s) i) (lower L query)" for i t
  proof -
    have "i \<in> fst ` set ms" using ms(4) that wf_map_get_iff[OF wf(2), of i t] by auto
    then obtain fs where "(i, fs) \<in> set ms" by force
    then have "res (i, fs) \<in> set (map res ms)" by simp
    moreover have "sr_Task (res (i, fs)) = t" using that(2) by (cases fs) (simp add: res_def)
    ultimately show ?thesis by (metis imageI)
  qed
  ultimately show ?thesis using sr ms(2) by (intro exI[of _ "map res ms"]) auto
qed

theorem SearchTasks_correct_witness:
  "\<exists>rs. SearchTasks unary_lib ''FI'' (sample_store unary_lib [sample_task]) = Some rs \<and> sample_task \<in> sr_Task ` set rs"
proof -
  let ?s = "sample_store unary_lib [sample_task]"
  have d: "distinct (map ID [sample_task])" by simp
  note ok = sample_store_ok[OF d, of unary_lib]
  have ix: "searchIndex ?s = [(1, buildIndexEntry unary_lib sample_task [])]"
    by (simp add: sample_store_def install_def empty_store_def addToStatusIndex_def)
  have one: "map_get (tasks ?s) i = Some t \<longleftrightarrow> i = 1 \<and> t = sample_task" for i t by (auto simp: ok(4))
  have asc: "is_ascii (Title sample_task)" "is_ascii (Prompt sample_task)" by (simp_all add: is_ascii_def byte_def)
  have len: "\<forall>i t e. map_get (tasks ?s) i = Some t \<longrightarrow> map_get (searchIndex ?s) i = Some e \<longrightarrow>
       (\<forall>x \<in> set (search_texts t e). length (lower unary_lib x) = length x)"
    using asc unfolding one ix by (auto simp: search_texts_def buildIndexEntry_def length_ToLower_ascii)
  have "entry_matches (map_at zero_entry (searchIndex ?s) 1) (lower unary_lib ''FI'')"
  proof -
    have "lower unary_lib ''Fix'' = ''fix''" "lower unary_lib ''FI'' = ''fi''"
      by (simp_all add: ToLower_def runes_ascii is_ascii_def byte_def lower_rune_def lower_byte_def encode_rune_def
        char_of_byte_def char_of_eq_iff del: runes.simps)
    then show ?thesis by (simp add: ix map_at_def entry_matches_def buildIndexEntry_def contains_iff Index.simps)
  qed
  moreover obtain rs where "SearchTasks unary_lib ''FI'' ?s = Some rs" "length rs \<le> MaxSearchResults"
      "\<forall>t \<in> sr_Task ` set rs. map_get (tasks ?s) (ID t) = Some t"
      "length rs < MaxSearchResults \<longrightarrow> (\<forall>i t. map_get (tasks ?s) i = Some t \<longrightarrow>
         entry_matches (map_at zero_entry (searchIndex ?s) i) (lower unary_lib ''FI'') \<longrightarrow> t \<in> sr_Task ` set rs)"
    using SearchTasks_correct[OF ok(1) len, of "''FI''"] by blast
  moreover from this(3) have "sample_task \<in> sr_Task ` set rs" if "rs \<noteq> []"
    using that unfolding one by (cases rs) auto
  ultimately show ?thesis using one[of 1 sample_task] by (cases "rs = []") (auto simp: MaxSearchResults_def)
qed

text \<open>
  The letter U+023A has two bytes and its lower case U+2C65 three, so the lower-cased title
  below is longer than the title, and an offset in the one need not lie in the other.
\<close>

definition stretched :: "nat \<Rightarrow> string" where
  "stretched n = concat (replicate n (encode_rune 570)) @ ''x''"

lemma stretch_bytes: "encode_rune 570 = [char_of_byte 200, char_of_byte 186]"
  "encode_rune 11365 = [char_of_byte 226, char_of_byte 177, char_of_byte 165]"
  by (simp_all add: encode_rune_def)

lemma decode_stretch: "decode_rune (char_of_byte 200 # char_of_byte 186 # s) = (570, 2)"
  by (simp add: decode_rune_def byte_char_of_byte accept2_def is_cont_def rune2_def)

lemma runes_stretched:
  "runes (stretched n) = replicate n (570, encode_rune 570) @ [(120, ''x'')]"
proof (induction n)
  case 0
  then show ?case by (simp add: stretched_def runes_ascii is_ascii_def byte_def del: runes.simps)
next
  case (Suc n)
  have "stretched (Suc n) = char_of_byte 200 # char_of_byte 186 # stretched n"
    by (simp add: stretched_def stretch_bytes)
  with Suc show ?case by (simp add: decode_stretch stretch_bytes)
qed

lemma encode_x: "encode_rune 120 = ''x''"
  by (simp add: encode_rune_def char_of_byte_def char_of_eq_iff)

lemma lower_stretched:
  assumes "unicode_lower L 570 = 11365"
  shows "lower L (stretched n) = concat (replicate n (encode_rune 11365)) @ ''x''"
proof (cases n)
  case 0
  then show ?thesis by (simp add: stretched_def ToLower_def is_ascii_def byte_def lower_byte_def char_of_byte_def char_of_eq_iff)
next
  case (Suc m)
  have "\<not> is_ascii (stretched n)" by (simp add: Suc stretched_def stretch_bytes is_ascii_def byte_char_of_byte)
  then show ?thesis
    using assms by (simp add: ToLower_def runes_stretched lower_rune_def lower_byte_def encode_x)
qed

lemma Index_stretched: "Index (concat (replicate n (encode_rune 11365)) @ ''x'') ''x'' = Some (3 * n)"
proof (induction n)
  case 0
  then show ?case by (simp add: Index.simps)
next
  case (Suc n)
  have "char_of_byte 226 \<noteq> CHR ''x''" "char_of_byte 177 \<noteq> CHR ''x''" "char_of_byte 165 \<noteq> CHR ''x''"
    by (simp_all add: char_of_byte_def char_of_eq_iff)
  with Suc show ?case by (simp add: stretch_bytes Index.simps[of "_ # _"])
qed

lemma align_start_out: "length src \<le> n \<Longrightarrow> 0 < n \<Longrightarrow> align_start src n = None"
  by (cases n) auto

text \<open>
  The offset of a match in the lower-cased title is used to cut the title itself. With
  a title whose lower case is longer, and a match far enough to the right, the cut is out of
  range and the search panics.
\<close>

theorem SearchTasks_panics:
  assumes "unicode_lower L 570 = 11365" "61 \<le> n" "tasks s = [(i, t)]" "Title t = stretched n"
    "map_get (searchIndex s) i = Some (buildIndexEntry L t raw)"
  shows "SearchTasks L ''x'' s = None"
proof -
  have q: "lower L ''x'' = ''x''" using lower_stretched[OF assms(1), of 0] by (simp add: stretched_def)
  have len: "length (stretched n) = 2 * n + 1"
    by (induction n) (simp_all add: stretched_def stretch_bytes)
  have "buildSnippet (stretched n) (3 * n) 1 = None"
    using assms(2) by (simp add: buildSnippet_def SnippetPadding_def align_start_out len)
  then have "matchTask t (buildIndexEntry L t raw) ''x'' = None"
    by (simp add: matchTask_def buildIndexEntry_def assms(4) lower_stretched[OF assms(1)] Index_stretched Let_def)
  then show ?thesis
    using assms(3,5) by (simp add: SearchTasks_def q map_at_def MaxSearchResults_def)
qed

definition stretch_lib :: lib where
  "stretch_lib = unary_lib\<lparr>unicode_lower := (\<lambda>r. if r = 570 then 11365 else r)\<rparr>"

theorem SearchTasks_panics_witness:
  "SearchTasks stretch_lib ''x'' (sample_store stretch_lib [sample_task\<lparr>Title := stretched 61\<rparr>]) = None"
  by (rule SearchTasks_panics[of _ 61 _ 1 "sample_task\<lparr>Title := stretched 61\<rparr>" "[]"])
    (simp_all add: stretch_lib_def sample_store_def install_def empty_store_def)

end
