(* ===== verification/Pagination.thy ===== *)
theory Pagination
  imports Prelude
begin

text \<open>
  \<open>internal/pkg/pagination\<close>: cursor pagination over a sorted slice. The main result is that a
  client which follows \<open>NextCursor\<close> while \<open>HasMore\<close> holds receives every matching item once,
  in order.
\<close>

record 'a Page =
  Items :: "'a list"
  NextCursor :: int
  HasMore :: bool
  TotalFiltered :: int

fun paginate_loop ::
  "'a list \<Rightarrow> ('a \<Rightarrow> int) \<Rightarrow> int \<Rightarrow> int \<Rightarrow> ('a \<Rightarrow> bool) option \<Rightarrow> 'a list \<times> int \<Rightarrow> 'a list \<times> int" where
  "paginate_loop [] cursor afterCursor limit filt acc = acc"
| "paginate_loop (item # items) cursor afterCursor limit filt (result, totalFiltered) =
     paginate_loop items cursor afterCursor limit filt
       (if afterCursor > 0 \<and> cursor item \<le> afterCursor then (result, totalFiltered)
        else if (case filt of None \<Rightarrow> False | Some f \<Rightarrow> \<not> f item) then (result, totalFiltered)
        else (if int (length result) < limit then result @ [item] else result, totalFiltered + 1))"

definition clamp_limit :: "int \<Rightarrow> int \<Rightarrow> int \<Rightarrow> int" where
  "clamp_limit limit defaultLimit maxLimit =
     (let limit1 = (if limit \<le> 0 then defaultLimit else limit)
      in if limit1 > maxLimit then maxLimit else limit1)"

definition Paginate ::
  "'a list \<Rightarrow> ('a \<Rightarrow> int) \<Rightarrow> int \<Rightarrow> int \<Rightarrow> int \<Rightarrow> int \<Rightarrow> ('a \<Rightarrow> bool) option \<Rightarrow> 'a Page" where
  "Paginate items cursor afterCursor limit defaultLimit maxLimit filt =
     (case paginate_loop items cursor afterCursor (clamp_limit limit defaultLimit maxLimit) filt ([], 0) of
        (result, totalFiltered) \<Rightarrow>
          \<lparr>Items = result, NextCursor = (if result = [] then 0 else cursor (last result)),
           HasMore = (totalFiltered > int (length result)), TotalFiltered = totalFiltered\<rparr>)"

section \<open>What a page holds\<close>

definition selects :: "('a \<Rightarrow> bool) option \<Rightarrow> 'a \<Rightarrow> bool" where
  "selects filt x = (case filt of None \<Rightarrow> True | Some f \<Rightarrow> f x)"

definition remaining :: "'a list \<Rightarrow> ('a \<Rightarrow> int) \<Rightarrow> int \<Rightarrow> ('a \<Rightarrow> bool) option \<Rightarrow> 'a list" where
  "remaining items cursor after filt =
     filter (\<lambda>x. \<not> (after > 0 \<and> cursor x \<le> after) \<and> selects filt x) items"

lemma paginate_loop_eq:
  "int (length r) \<le> max 0 limit \<Longrightarrow>
   paginate_loop items cursor after limit filt (r, n)
     = (r @ take (nat limit - length r) (remaining items cursor after filt),
        n + int (length (remaining items cursor after filt)))"
proof (induction items arbitrary: r n)
  case (Cons x xs)
  show ?case
  proof (cases "(after > 0 \<and> cursor x \<le> after) \<or> \<not> selects filt x")
    case True
    then show ?thesis
      using Cons by (auto simp: remaining_def selects_def split: option.splits)
  next
    case False
    then have f: "remaining (x # xs) cursor after filt = x # remaining xs cursor after filt"
      by (simp add: remaining_def)
    have step: "paginate_loop (x # xs) cursor after limit filt (r, n)
        = paginate_loop xs cursor after limit filt (if int (length r) < limit then r @ [x] else r, n + 1)"
      using False by (auto simp: selects_def split: option.splits)
    show ?thesis
    proof (cases "int (length r) < limit")
      case True
      then have "nat limit - length r = Suc (nat limit - length (r @ [x]))" by simp
      then show ?thesis using True Cons.IH[of "r @ [x]" "n + 1"] unfolding step f by simp
    next
      case False
      then have "nat limit - length r = 0" by simp
      then show ?thesis using False Cons.IH[of r "n + 1"] Cons.prems unfolding step f by simp
    qed
  qed
qed (simp add: remaining_def)

lemma Paginate_eq:
  assumes lm_def: "lm = nat (clamp_limit limit dl ml)"
  shows "Items (Paginate items cursor after limit dl ml filt) = take lm (remaining items cursor after filt)"
    "TotalFiltered (Paginate items cursor after limit dl ml filt) = int (length (remaining items cursor after filt))"
    "HasMore (Paginate items cursor after limit dl ml filt) \<longleftrightarrow> lm < length (remaining items cursor after filt)"
    "NextCursor (Paginate items cursor after limit dl ml filt) =
       (if take lm (remaining items cursor after filt) = [] then 0
        else cursor (last (take lm (remaining items cursor after filt))))"
  using paginate_loop_eq[of "[]" "clamp_limit limit dl ml" items cursor after filt 0]
  by (auto simp: Paginate_def lm_def)

text \<open>
  A page holds the first items after the cursor that pass the filter, never more than
  the hard maximum; the total counts all of them, and \<open>HasMore\<close> says whether any were left out.
\<close>

theorem Paginate_page:
  "Items (Paginate items cursor after limit dl ml filt)
     = take (nat (clamp_limit limit dl ml)) (remaining items cursor after filt)
   \<and> int (length (Items (Paginate items cursor after limit dl ml filt))) \<le> max 0 ml
   \<and> TotalFiltered (Paginate items cursor after limit dl ml filt) = int (length (remaining items cursor after filt))
   \<and> (HasMore (Paginate items cursor after limit dl ml filt) \<longleftrightarrow>
        int (length (Items (Paginate items cursor after limit dl ml filt)))
          < TotalFiltered (Paginate items cursor after limit dl ml filt))"
proof -
  have "clamp_limit limit dl ml \<le> ml" by (simp add: clamp_limit_def Let_def)
  then show ?thesis by (auto simp: Paginate_eq[OF refl] min_def)
qed

section \<open>Following the cursor\<close>

text \<open>The client loop: request pages from \<open>after\<close> on while there is more.\<close>

fun follow ::
  "nat \<Rightarrow> 'a list \<Rightarrow> ('a \<Rightarrow> int) \<Rightarrow> int \<Rightarrow> int \<Rightarrow> int \<Rightarrow> int \<Rightarrow> ('a \<Rightarrow> bool) option \<Rightarrow> 'a list option" where
  "follow 0 items cursor after limit dl ml filt = None"
| "follow (Suc n) items cursor after limit dl ml filt =
     (let p = Paginate items cursor after limit dl ml filt
      in if HasMore p then map_option (\<lambda>r. Items p @ r) (follow n items cursor (NextCursor p) limit dl ml filt)
         else Some (Items p))"

lemma filter_after_take:
  fixes cursor :: "'a \<Rightarrow> int"
  assumes "sorted_wrt (\<lambda>a b. cursor a < cursor b) xs" "0 < k" "k \<le> length xs"
  shows "filter (\<lambda>x. \<not> cursor x \<le> cursor (xs ! (k - 1))) xs = drop k xs"
proof -
  have "filter (\<lambda>x. \<not> cursor x \<le> cursor (xs ! (k - 1))) (take k xs) = []"
  proof (rule filter_False, rule ballI)
    fix x assume "x \<in> set (take k xs)"
    then obtain j where "j < k" "x = xs ! j" by (auto simp: in_set_conv_nth)
    with sorted_wrt_nth_less[OF assms(1), of j "k - 1"] assms(2,3) show "\<not> \<not> cursor x \<le> cursor (xs ! (k - 1))"
      by (cases "j = k - 1") fastforce+
  qed
  moreover have "filter (\<lambda>x. \<not> cursor x \<le> cursor (xs ! (k - 1))) (drop k xs) = drop k xs"
  proof (rule filter_True, rule ballI)
    fix x assume "x \<in> set (drop k xs)"
    then obtain j where "x = xs ! (k + j)" "k + j < length xs" by (auto simp: in_set_conv_nth)
    with assms show "\<not> cursor x \<le> cursor (xs ! (k - 1))"
      by (auto simp: sorted_wrt_iff_nth_less not_le)
  qed
  ultimately show ?thesis by (metis append_take_drop_id append_Nil filter_append)
qed

lemma remaining_next:
  assumes "sorted_wrt (\<lambda>a b. cursor a < cursor b) items" "\<forall>x \<in> set items. 0 < cursor x" "0 < k"
    "k < length (remaining items cursor after filt)"
  shows "remaining items cursor (cursor (last (take k (remaining items cursor after filt)))) filt
     = drop k (remaining items cursor after filt)"
proof -
  define rs where "rs = remaining items cursor after filt"
  have s: "sorted_wrt (\<lambda>a b. cursor a < cursor b) rs" using assms(1) by (simp add: rs_def remaining_def sorted_wrt_filter)
  have l: "last (take k rs) = rs ! (k - 1)" using assms(3,4) unfolding rs_def[symmetric] by (subst last_conv_nth) auto
  have "rs ! (k - 1) \<in> set rs" using assms(4) by (simp add: rs_def[symmetric])
  then have c: "rs ! (k - 1) \<in> set items" "\<not> (after > 0 \<and> cursor (rs ! (k - 1)) \<le> after)"
    by (auto simp: rs_def remaining_def)
  have "remaining items cursor (cursor z) filt = filter (\<lambda>x. \<not> cursor x \<le> cursor z) rs"
    if "z \<in> set items" "\<not> (after > 0 \<and> cursor z \<le> after)" for z
    using that assms(2) unfolding rs_def remaining_def filter_filter
    by (intro filter_cong) auto
  from this[OF c] filter_after_take[OF s assms(3)] assms(4) show ?thesis by (simp add: rs_def[symmetric] l)
qed

lemma follow_enough:
  assumes "sorted_wrt (\<lambda>a b. cursor a < cursor b) items" "\<forall>x \<in> set items. 0 < cursor x"
    "0 < clamp_limit limit dl ml" "length (remaining items cursor after filt) < n"
  shows "follow n items cursor after limit dl ml filt = Some (remaining items cursor after filt)"
  using assms(4)
proof (induction n arbitrary: after)
  case (Suc n)
  define k where "k = nat (clamp_limit limit dl ml)"
  define rs where "rs = remaining items cursor after filt"
  have k: "0 < k" using assms(3) by (simp add: k_def)
  note eq = Paginate_eq[OF k_def, of items cursor after filt, folded rs_def]
  show ?case
  proof (cases "k < length rs")
    case True
    then have ne: "take k rs \<noteq> []" using k by auto
    have nx: "remaining items cursor (cursor (last (take k rs))) filt = drop k rs"
      using remaining_next[OF assms(1,2) k] True by (simp add: rs_def)
    have "follow n items cursor (cursor (last (take k rs))) limit dl ml filt = Some (drop k rs)"
      using Suc.IH[of "cursor (last (take k rs))"] Suc.prems True k unfolding nx by (simp add: rs_def[symmetric])
    then show ?thesis using True ne by (simp add: eq rs_def[symmetric])
  next
    case False
    then show ?thesis by (simp add: eq rs_def[symmetric])
  qed
qed simp

text \<open>
  Following the cursor from the start terminates, with one request per item at most, and
  returns the matching items exactly once and in order, whatever page size is asked for.
\<close>

theorem follow_complete:
  assumes "sorted_wrt (\<lambda>a b. cursor a < cursor b) items" "\<forall>x \<in> set items. 0 < cursor x"
    "0 < clamp_limit limit dl ml"
  shows "follow (Suc (length items)) items cursor 0 limit dl ml filt = Some (filter (selects filt) items)"
proof -
  have "remaining items cursor 0 filt = filter (selects filt) items" by (simp add: remaining_def)
  then show ?thesis
    using follow_enough[OF assms, of 0 filt "Suc (length items)"] by (simp add: less_Suc_eq_le)
qed

theorem follow_complete_witness:
  "follow 6 [1, 2, 3, 5, 8 :: int] (\<lambda>x. x) 0 2 200 1000 (Some odd) = Some [1, 3, 5]"
  using follow_complete[of "\<lambda>x. x" "[1, 2, 3, 5, 8 :: int]" 2 200 1000 "Some odd"]
  by (simp add: clamp_limit_def selects_def eval_nat_numeral del: follow.simps)

end
