(* ===== verification/Go_Format.thy ===== *)
theory Go_Format
  imports Go_Strings
begin

text \<open>
  Decimal formatting and parsing: the verbs \<open>%d\<close> and \<open>%0wd\<close> of \<open>fmt\<close>, and \<open>strconv.Atoi\<close> with
  its 64-bit range. Printing and parsing are inverse to each other.
\<close>

definition digit :: "nat \<Rightarrow> char" where
  "digit d = char_of (48 + d)"

fun dec :: "nat \<Rightarrow> string" where
  "dec n = (if n < 10 then [digit n] else dec (n div 10) @ [digit (n mod 10)])"

declare dec.simps [simp del]

definition fmt_d :: "int \<Rightarrow> string" where
  "fmt_d n = (if n < 0 then CHR ''-'' # dec (nat (- n)) else dec (nat n))"

text \<open>\<open>%0wd\<close>: the width counts the sign.\<close>

definition fmt_0d :: "nat \<Rightarrow> int \<Rightarrow> string" where
  "fmt_0d w n =
     (if n < 0 then CHR ''-'' # (let s = dec (nat (- n)) in replicate (w - 1 - length s) (CHR ''0'') @ s)
      else let s = dec (nat n) in replicate (w - length s) (CHR ''0'') @ s)"

definition is_digit :: "char \<Rightarrow> bool" where
  "is_digit c \<longleftrightarrow> 48 \<le> byte c \<and> byte c \<le> 57"

definition digits_value :: "string \<Rightarrow> int" where
  "digits_value s = foldl (\<lambda>n c. 10 * n + (int (byte c) - 48)) 0 s"

definition in_int64 :: "int \<Rightarrow> bool" where
  "in_int64 n \<longleftrightarrow> - (2 ^ 63) \<le> n \<and> n < 2 ^ 63"

definition Atoi :: "string \<Rightarrow> int option" where
  "Atoi s =
     (let (neg, ds) = (case s of
            [] \<Rightarrow> (False, [])
          | c # cs \<Rightarrow> if c = CHR ''-'' then (True, cs) else if c = CHR ''+'' then (False, cs) else (False, s));
          v = (if neg then - digits_value ds else digits_value ds)
      in if ds = [] \<or> \<not> list_all is_digit ds \<or> \<not> in_int64 v then None else Some v)"

lemma byte_digit [simp]: "d < 10 \<Longrightarrow> byte (digit d) = 48 + d"
  by (simp add: byte_def digit_def)

lemma digits_value_snoc [simp]: "digits_value (s @ [c]) = 10 * digits_value s + (int (byte c) - 48)"
  by (simp add: digits_value_def)

lemma dec_ok: "dec n \<noteq> [] \<and> list_all is_digit (dec n) \<and> digits_value (dec n) = int n"
proof (induction n rule: dec.induct)
  case (1 n)
  show ?case
  proof (cases "n < 10")
    case True
    then show ?thesis by (simp add: dec.simps[of n] is_digit_def digits_value_def)
  next
    case False
    have "n mod 10 < 10" "int n = 10 * int (n div 10) + int (n mod 10)" by (simp, presburger)
    then show ?thesis using 1 False by (simp add: dec.simps[of n] is_digit_def)
  qed
qed

lemma digits_value_zeros [simp]: "digits_value (replicate k (CHR ''0'') @ s) = digits_value s"
proof -
  have "foldl (\<lambda>n c. 10 * n + (int (byte c) - 48)) 0 (replicate k (CHR ''0'')) = 0"
    by (induction k) (simp_all add: byte_def)
  then show ?thesis by (simp add: digits_value_def)
qed

lemma digits_not_sign: "is_digit c \<Longrightarrow> c \<noteq> CHR ''-'' \<and> c \<noteq> CHR ''+''"
  by (auto simp: is_digit_def byte_def)

lemma Atoi_digits:
  assumes "s \<noteq> []" "list_all is_digit s" "in_int64 (digits_value s)"
  shows "Atoi s = Some (digits_value s)"
proof -
  obtain c cs where s: "s = c # cs" using assms(1) by (cases s) auto
  then have "c \<noteq> CHR ''-''" "c \<noteq> CHR ''+''" using assms(2) digits_not_sign by auto
  with s assms show ?thesis by (simp add: Atoi_def)
qed

lemma Atoi_fmt_0d: "0 \<le> n \<Longrightarrow> in_int64 n \<Longrightarrow> Atoi (fmt_0d w n) = Some n"
proof -
  assume n: "0 \<le> n" "in_int64 n"
  define s where "s = replicate (w - length (dec (nat n))) (CHR ''0'') @ dec (nat n)"
  have "digits_value s = n" using dec_ok[of "nat n"] n by (simp add: s_def)
  moreover have "list_all is_digit s"
    using dec_ok[of "nat n"] by (auto simp: s_def list_all_iff is_digit_def byte_def)
  moreover have "s \<noteq> []" using dec_ok[of "nat n"] by (simp add: s_def)
  ultimately show ?thesis using Atoi_digits[of s] n by (simp add: fmt_0d_def s_def Let_def)
qed

end
