(* ===== verification/Store_Events.thy ===== *)
theory Store_Events
  imports Store_Samples Pagination Go_Format
begin

text \<open>
  The audit trail: \<open>internal/store/events.go\<close>, \<open>actor.go\<close>, \<open>turn_usage.go\<close> and the turn output
  of \<open>io.go\<close>. The invariant \<open>trail_ok\<close> ties the events in memory to the trace files and the
  compacted file; under it a reload returns what memory holds. The background compactions
  that transitions queue are run in any order.
\<close>

section \<open>Actors\<close>

record actorInfo =
  actor_Sub :: string
  actor_Type :: string

text \<open>A context is nil, or carries a value under the actor key or not.\<close>

type_synonym actor_context = "actorInfo option option"

definition WithActorPrincipal :: "actor_context \<Rightarrow> string \<Rightarrow> string \<Rightarrow> actor_context" where
  "WithActorPrincipal ctx sub ty = Some (Some \<lparr>actor_Sub = sub, actor_Type = ty\<rparr>)"

definition WithSystemActor :: "actor_context \<Rightarrow> actor_context" where
  "WithSystemActor ctx = WithActorPrincipal ctx [] ''system''"

definition actorFromContext :: "actor_context \<Rightarrow> string \<times> string" where
  "actorFromContext ctx =
     (case ctx of
        None \<Rightarrow> ([], [])
      | Some None \<Rightarrow> ([], [])
      | Some (Some a) \<Rightarrow> (actor_Sub a, actor_Type a))"

section \<open>Events\<close>

definition InsertEvent ::
  "actor_context \<Rightarrow> uuid \<Rightarrow> EventType \<Rightarrow> event_data \<Rightarrow> time \<Rightarrow> Store \<Rightarrow> unit outcome" where
  "InsertEvent ctx taskID eventType data now s =
     (if map_get (tasks s) taskID = None then (s, Inl (ErrTaskNotFound taskID))
      else
        let (actorSub, actorType) = actorFromContext ctx;
            s1 = ensureEventsLoadedLocked taskID s;
            seq = map_at 0 (nextSeq s1) taskID;
            event = \<lparr>ev_ID = seq, TaskID = taskID, EventType = eventType, Data = data, ev_CreatedAt = now,
                     ActorSub = actorSub, ActorType = actorType\<rparr>
        in case SaveEvent taskID seq event (backend s1) of
             (b, Inl e) \<Rightarrow> (s1\<lparr>backend := b\<rparr>, Inl e)
           | (b, Inr _) \<Rightarrow>
               (s1\<lparr>backend := b, events := map_put taskID (map_at [] (events s1) taskID @ [event]) (events s1),
                   nextSeq := map_put taskID (seq + 1) (nextSeq s1)\<rparr>, Inr ()))"

definition GetEvents :: "uuid \<Rightarrow> Store \<Rightarrow> Store \<times> TaskEvent list" where
  "GetEvents taskID s = (let s1 = ensureEventsLoadedLocked taskID s in (s1, map_at [] (events s1) taskID))"

definition GetEventsPage ::
  "uuid \<Rightarrow> int \<Rightarrow> int \<Rightarrow> EventType list \<Rightarrow> Store \<Rightarrow> Store \<times> TaskEvent Page" where
  "GetEventsPage taskID afterID limit typeSet s =
     (let s1 = ensureEventsLoadedLocked taskID s;
          filt = (if typeSet \<noteq> [] then Some (\<lambda>ev. EventType ev \<in> set typeSet) else None)
      in (s1, Paginate (map_at [] (events s1) taskID) ev_ID afterID limit 200 1000 filt))"

definition compactTaskEvents :: "uuid \<Rightarrow> int \<Rightarrow> Store \<Rightarrow> unit outcome" where
  "compactTaskEvents taskID maxSeq s =
     (let eventsToCompact = filter (\<lambda>evt. ev_ID evt \<le> maxSeq) (map_at [] (events s) taskID)
      in if eventsToCompact = [] then (s, Inr ())
         else case CompactEvents taskID eventsToCompact (backend s) of (b, r) \<Rightarrow> (s\<lparr>backend := b\<rparr>, r))"

text \<open>The goroutine at position \<open>n\<close> of the queue runs.\<close>

definition run_compaction :: "nat \<Rightarrow> Store \<Rightarrow> Store" where
  "run_compaction n s =
     (if n < length (compactions s)
      then case compactions s ! n of (i, maxSeq) \<Rightarrow>
             fst (compactTaskEvents i maxSeq (s\<lparr>compactions := take n (compactions s) @ drop (Suc n) (compactions s)\<rparr>))
      else s)"

section \<open>Trace file names\<close>

definition trace_file_name :: "int \<Rightarrow> string" where
  "trace_file_name seq = fmt_0d 4 seq @ ''.json''"

definition TrimSuffix :: "string \<Rightarrow> string \<Rightarrow> string" where
  "TrimSuffix s suf = (if HasSuffix s suf then take (length s - length suf) s else s)"

definition parseNumberedTraceFile :: "string \<Rightarrow> int option" where
  "parseNumberedTraceFile name =
     (if \<not> HasSuffix name ''.json'' then None
      else let base = TrimSuffix name ''.json'' in if base = [] then None else Atoi base)"

section \<open>Spans\<close>

record SpanResult =
  sp_Phase :: string
  sp_Label :: string
  sp_StartedAt :: time
  sp_EndedAt :: time
  DurationMS :: int

text \<open>
  \<open>span_data\<close> is \<open>json.Unmarshal\<close> into \<open>SpanData\<close>. For a payload that was not written as one,
  \<open>other\<close> says what the decoder makes of it. Milliseconds round towards zero.
\<close>

definition span_data :: "(event_data \<Rightarrow> SpanData option) \<Rightarrow> event_data \<Rightarrow> SpanData option" where
  "span_data other d = (case d of DataSpan sd \<Rightarrow> Some sd | _ \<Rightarrow> other d)"

definition milliseconds :: "duration \<Rightarrow> int" where
  "milliseconds d = (if d < 0 then - ((- d) div 1000000) else d div 1000000)"

fun spans_loop ::
  "(event_data \<Rightarrow> SpanData option) \<Rightarrow> TaskEvent list \<Rightarrow> (string \<times> string, time) gomap \<Rightarrow> SpanResult list
     \<Rightarrow> (string \<times> string, time) gomap \<times> SpanResult list" where
  "spans_loop other [] startTimes spans = (startTimes, spans)"
| "spans_loop other (ev # evs) startTimes spans =
     (if EventType ev \<noteq> EventTypeSpanStart \<and> EventType ev \<noteq> EventTypeSpanEnd
      then spans_loop other evs startTimes spans
      else case span_data other (Data ev) of
             None \<Rightarrow> spans_loop other evs startTimes spans
           | Some data \<Rightarrow>
               let key = (Phase data, Label data) in
               if EventType ev = EventTypeSpanStart
               then spans_loop other evs (map_put key (ev_CreatedAt ev) startTimes) spans
               else case map_get startTimes key of
                      None \<Rightarrow> spans_loop other evs startTimes spans
                    | Some startedAt \<Rightarrow>
                        spans_loop other evs (map_del key startTimes)
                          (spans @ [\<lparr>sp_Phase = Phase data, sp_Label = Label data, sp_StartedAt = startedAt,
                                     sp_EndedAt = ev_CreatedAt ev,
                                     DurationMS = milliseconds (ev_CreatedAt ev - startedAt)\<rparr>]))"

definition ComputeSpans :: "(event_data \<Rightarrow> SpanData option) \<Rightarrow> TaskEvent list \<Rightarrow> SpanResult list" where
  "ComputeSpans other evs =
     (case spans_loop other evs [] [] of
        (startTimes, spans) \<Rightarrow>
          SortFunc (\<lambda>a b. cmp_Compare (sp_StartedAt a) (sp_StartedAt b))
            (spans @ map (\<lambda>((phase, label), startedAt).
                \<lparr>sp_Phase = phase, sp_Label = label, sp_StartedAt = startedAt, sp_EndedAt = 0, DurationMS = 0\<rparr>)
              startTimes))"

section \<open>Turn output and usage\<close>

fun LastIndexByte :: "string \<Rightarrow> char \<Rightarrow> nat option" where
  "LastIndexByte [] c = None"
| "LastIndexByte (x # xs) c =
     (case LastIndexByte xs c of
        Some i \<Rightarrow> Some (Suc i)
      | None \<Rightarrow> if x = c then Some 0 else None)"

abbreviation newline :: char where
  "newline \<equiv> char_of (10::nat)"

abbreviation quote :: char where
  "quote \<equiv> char_of (34::nat)"

definition quoted :: "string \<Rightarrow> string" where
  "quoted s = quote # s @ [quote]"

definition sentinel :: "int \<Rightarrow> int \<Rightarrow> string" where
  "sentinel originalLen cutoff =
     ''{'' @ quoted ''type'' @ '':'' @ quoted ''system'' @ '','' @ quoted ''subtype'' @ '':''
     @ quoted ''truncation_notice'' @ '','' @ quoted ''total_bytes'' @ '':'' @ fmt_d originalLen
     @ '','' @ quoted ''truncated_at'' @ '':'' @ fmt_d cutoff @ ''}''"

definition truncateTurnData :: "string \<Rightarrow> Store \<Rightarrow> string \<times> int" where
  "truncateTurnData data s =
     (if maxTurnOutputBytes s \<le> 0 \<or> int (length data) \<le> maxTurnOutputBytes s then (data, 0)
      else
        let cutoff = (case LastIndexByte (take (nat (maxTurnOutputBytes s)) data) newline of
                        Some i \<Rightarrow> i | None \<Rightarrow> nat (maxTurnOutputBytes s))
        in (take cutoff data @ [newline] @ sentinel (int (length data)) (int cutoff) @ [newline],
            int (length data)))"

definition stdout_key :: "int \<Rightarrow> string" where
  "stdout_key turn = ''outputs/turn-'' @ fmt_0d 4 turn @ ''.json''"

definition stderr_key :: "int \<Rightarrow> string" where
  "stderr_key turn = ''outputs/turn-'' @ fmt_0d 4 turn @ ''.stderr.txt''"

definition mark_truncated :: "bool \<Rightarrow> uuid \<Rightarrow> int \<Rightarrow> time \<Rightarrow> Store \<Rightarrow> unit outcome" where
  "mark_truncated truncated taskID turn now s =
     (if truncated then fst (MarkTurnTruncated taskID turn now s) else s, Inr ())"

definition SaveTurnOutput :: "uuid \<Rightarrow> int \<Rightarrow> string \<Rightarrow> string \<Rightarrow> time \<Rightarrow> Store \<Rightarrow> unit outcome" where
  "SaveTurnOutput taskID turn stdout stderr now s =
     (let (out, n) = truncateTurnData stdout s in
      case SaveBlob taskID (stdout_key turn) (BBytes out) (backend s) of
        (b, Inl e) \<Rightarrow> (s\<lparr>backend := b\<rparr>, Inl e)
      | (b, Inr _) \<Rightarrow>
          let s1 = s\<lparr>backend := b\<rparr> in
          if stderr = [] then mark_truncated (n > 0) taskID turn now s1
          else
            let (err, m) = truncateTurnData stderr s1 in
            case SaveBlob taskID (stderr_key turn) (BBytes err) (backend s1) of
              (b2, Inl e) \<Rightarrow> (s1\<lparr>backend := b2\<rparr>, Inl e)
            | (b2, Inr _) \<Rightarrow> mark_truncated (n > 0 \<or> m > 0) taskID turn now (s1\<lparr>backend := b2\<rparr>))"

text \<open>Appending to \<open>turn-usage.jsonl\<close> needs the task directory.\<close>

definition AppendTurnUsage :: "uuid \<Rightarrow> TurnUsageRecord \<Rightarrow> Store \<Rightarrow> unit outcome" where
  "AppendTurnUsage taskID rec s =
     (case map_get (dirs (backend s)) taskID of
        None \<Rightarrow> (s, Inl ErrNotExist)
      | Some d \<Rightarrow> (s\<lparr>backend := put_dir taskID (d\<lparr>usage_log := usage_log d @ [rec]\<rparr>) (backend s)\<rparr>, Inr ()))"

definition GetTurnUsages :: "uuid \<Rightarrow> Store \<Rightarrow> TurnUsageRecord list" where
  "GetTurnUsages taskID s = usage_log (dir_at (backend s) taskID)"

section \<open>Memory and disk agree\<close>

definition disk_trail :: "taskdir \<Rightarrow> TaskEvent list \<Rightarrow> int \<Rightarrow> bool" where
  "disk_trail d evs n \<longleftrightarrow> has_traces d \<and> 1 \<le> n \<and> map ev_ID evs = [1..n - 1] \<and> wf_map (trace_files d)
     \<and> max_event_ID (compact_lines d) < n
     \<and> compact_lines d = filter (\<lambda>e. ev_ID e \<le> max_event_ID (compact_lines d)) evs
     \<and> (\<forall>k f. map_get (trace_files d) k = Some f \<longrightarrow> max_event_ID (compact_lines d) < k \<longrightarrow>
          (\<exists>e \<in> set evs. ev_ID e = k \<and> f = Some e))
     \<and> (\<forall>e \<in> set evs. max_event_ID (compact_lines d) < ev_ID e \<longrightarrow>
          map_get (trace_files d) (ev_ID e) = Some (Some e))"

definition trail_ok :: "uuid \<Rightarrow> Store \<Rightarrow> bool" where
  "trail_ok i s \<longleftrightarrow> disk_trail (dir_at (backend s) i) (map_at [] (events s) i) (map_at 0 (nextSeq s) i)"

lemma max_event_ID_Max: "max_event_ID evs = Max (insert 0 (ev_ID ` set evs))"
proof -
  have "fold (\<lambda>evt m. if ev_ID evt > m then ev_ID evt else m) evs a = Max (insert a (ev_ID ` set evs))" for a
  proof (induction evs arbitrary: a)
    case (Cons e evs)
    have "Max (insert (if ev_ID e > a then ev_ID e else a) (ev_ID ` set evs)) = Max (insert a (insert (ev_ID e) (ev_ID ` set evs)))"
      by (cases "evs = []") (auto simp: Max_insert max_def)
    then show ?case using Cons.IH by simp
  qed simp
  then show ?thesis by (simp add: max_event_ID_def)
qed

lemma max_event_ID_props:
  "0 \<le> max_event_ID evs" "e \<in> set evs \<Longrightarrow> ev_ID e \<le> max_event_ID evs"
  "max_event_ID evs = 0 \<or> (\<exists>e \<in> set evs. ev_ID e = max_event_ID evs)"
proof -
  have "max_event_ID evs \<in> insert 0 (ev_ID ` set evs)" unfolding max_event_ID_Max by (rule Max_in) auto
  then show "max_event_ID evs = 0 \<or> (\<exists>e \<in> set evs. ev_ID e = max_event_ID evs)" by auto
qed (auto simp: max_event_ID_Max intro: Max_ge)

definition newer_files :: "int \<Rightarrow> (int \<times> TaskEvent option) list \<Rightarrow> TaskEvent list" where
  "newer_files m fs = List.map_filter snd (filter (\<lambda>(k, f). m < k) fs)"

lemma merge_traces_fst: "fst (merge_traces m fs (evs, mx)) = evs @ newer_files m fs"
  by (induction m fs "(evs, mx)" arbitrary: evs mx rule: merge_traces.induct)
    (auto simp: newer_files_def map_filter_def split: option.splits)

lemma merge_traces_snd:
  "(\<And>k e. (k, Some e) \<in> set fs \<Longrightarrow> m < k \<Longrightarrow> k \<le> b) \<Longrightarrow> mx \<le> b \<Longrightarrow>
     (mx = b \<or> (\<exists>e. (b, Some e) \<in> set fs \<and> m < b)) \<Longrightarrow> snd (merge_traces m fs (evs, mx)) = b"
proof (induction fs arbitrary: evs mx)
  case (Cons p fs)
  obtain k f where p: "p = (k, f)" by (cases p)
  show ?case
  proof (cases "k \<le> m \<or> f = None")
    case True
    then have "snd (merge_traces m fs (evs, mx)) = b" using Cons.prems p by (intro Cons.IH) auto
    then show ?thesis using True p by (auto split: option.split)
  next
    case False
    then obtain e where f: "f = Some e" by auto
    then have "k \<le> b" using Cons.prems(1)[of k e] p False by auto
    then have "snd (merge_traces m fs (evs @ [e], if k > mx then k else mx)) = b"
      using Cons.prems p f by (intro Cons.IH) auto
    then show ?thesis using False p f by simp
  qed
qed simp

lemma disk_trail_ids:
  assumes "disk_trail d evs n"
  shows "distinct evs" "sorted (map ev_ID evs)" "e \<in> set evs \<Longrightarrow> 1 \<le> ev_ID e \<and> ev_ID e < n"
    "1 \<le> k \<Longrightarrow> k < n \<Longrightarrow> \<exists>e \<in> set evs. ev_ID e = k" "inj_on ev_ID (set evs)"
proof -
  have ids: "map ev_ID evs = [1..n - 1]" using assms by (simp add: disk_trail_def)
  then have s: "ev_ID ` set evs = {1..n - 1}" by (metis list.set_map set_upto)
  have "distinct (map ev_ID evs)" unfolding ids by simp
  then show "distinct evs" "inj_on ev_ID (set evs)" by (simp_all add: distinct_map)
  show "sorted (map ev_ID evs)" unfolding ids by simp
  show "e \<in> set evs \<Longrightarrow> 1 \<le> ev_ID e \<and> ev_ID e < n" using s by force
  show "1 \<le> k \<Longrightarrow> k < n \<Longrightarrow> \<exists>e \<in> set evs. ev_ID e = k" using s by (metis atLeastAtMost_iff imageE zle_diff1_eq)
qed

lemma sort_key_unique:
  assumes "mset xs = mset ys" "sorted (map f ys)" "inj_on f (set ys)"
  shows "sort_key f xs = ys"
proof (rule properties_for_sort_key[OF assms(1)[symmetric] _ assms(2)])
  fix k assume k: "k \<in> set ys"
  have "filter (\<lambda>x. f k = f x) zs = filter (\<lambda>x. x = k) zs" if "set zs = set ys" for zs
    using that k assms(3) by (intro filter_cong) (auto dest: inj_onD)
  moreover have "filter (\<lambda>x. x = k) zs = replicate (count (mset zs) k) k" for zs
    by (induction zs) auto
  moreover have "set xs = set ys" using assms(1) by (metis set_mset_mset)
  ultimately show "filter (\<lambda>x. f k = f x) ys = filter (\<lambda>x. f k = f x) xs" using assms(1) by simp
qed

lemma newer_files_mset:
  assumes "disk_trail d evs n"
  shows "mset (newer_files (max_event_ID (compact_lines d)) (trace_files d))
    = mset (filter (\<lambda>e. max_event_ID (compact_lines d) < ev_ID e) evs)"
proof -
  define m where "m = max_event_ID (compact_lines d)"
  have wf: "wf_map (trace_files d)" using assms by (simp add: disk_trail_def)
  have fl: "\<exists>e \<in> set evs. ev_ID e = k \<and> f = Some e" if "(k, f) \<in> set (trace_files d)" "m < k" for k f
    using assms that unfolding disk_trail_def m_def wf_map_get_iff[OF wf] by blast
  have ev: "(ev_ID e, Some e) \<in> set (trace_files d)" if "e \<in> set evs" "m < ev_ID e" for e
    using assms that unfolding disk_trail_def m_def wf_map_get_iff[OF wf] by blast
  have nf: "newer_files m (trace_files d) = map (\<lambda>p. the (snd p)) (filter (\<lambda>(k, f). m < k) (trace_files d))"
    unfolding newer_files_def map_filter_def o_def by (rule map_cong[OF filter_True]) (use fl in fastforce)+
  have "map ev_ID (newer_files m (trace_files d)) = map fst (filter (\<lambda>(k, f). m < k) (trace_files d))"
    unfolding nf map_map o_def by (rule map_cong) (use fl in fastforce)+
  then have "distinct (map ev_ID (newer_files m (trace_files d)))" using wf by (simp add: distinct_map_filter)
  then have 1: "distinct (newer_files m (trace_files d))" by (simp add: distinct_map)
  have "e \<in> set (newer_files m (trace_files d)) \<longleftrightarrow> e \<in> set (filter (\<lambda>e. m < ev_ID e) evs)" for e
    unfolding nf using fl ev by (force simp: image_iff)
  with 1 disk_trail_ids(1)[OF assms] show ?thesis
    unfolding m_def[symmetric] by (intro iffD1[OF set_eq_iff_mset_eq_distinct]) auto
qed

lemma LoadEvents_trail:
  assumes "disk_trail (dir_at b i) evs n" "\<not> io_fails b (IOReadTraces i)" "\<not> io_fails b (IOReadCompact i)"
  shows "LoadEvents i b = Inr (evs, n - 1)"
proof -
  define d where "d = dir_at b i"
  define m where "m = max_event_ID (compact_lines d)"
  have t: "disk_trail d evs n" using assms(1) by (simp add: d_def)
  have c: "compact_lines d = filter (\<lambda>e. ev_ID e \<le> m) evs" "m < n" "has_traces d" "wf_map (trace_files d)" "1 \<le> n"
    using t by (auto simp: disk_trail_def m_def)
  have "mset (compact_lines d @ newer_files m (trace_files d))
      = mset (filter (\<lambda>e. ev_ID e \<le> m) evs) + mset (filter (\<lambda>e. \<not> ev_ID e \<le> m) evs)"
    using newer_files_mset[OF t, folded m_def] by (simp add: c(1) not_le)
  also have "\<dots> = mset evs" unfolding mset_filter by (rule multiset_partition[symmetric])
  finally have s: "sort_key ev_ID (compact_lines d @ newer_files m (trace_files d)) = evs"
    by (rule sort_key_unique[OF _ disk_trail_ids(2,5)[OF t]])
  have "snd (merge_traces m (trace_files d) (compact_lines d, m)) = n - 1"
  proof (rule merge_traces_snd)
    fix k e assume "(k, Some e) \<in> set (trace_files d)" "m < k"
    then have "\<exists>e \<in> set evs. ev_ID e = k" using t c(4) unfolding disk_trail_def m_def by (auto simp: wf_map_get_iff)
    then show "k \<le> n - 1" using disk_trail_ids(3)[OF t] by force
  next
    show "m = n - 1 \<or> (\<exists>e. (n - 1, Some e) \<in> set (trace_files d) \<and> m < n - 1)"
    proof (cases "m = n - 1")
      case False
      then have "m < n - 1" "1 \<le> n - 1" using c(2) max_event_ID_props(1)[of "compact_lines d"] by (auto simp: m_def)
      moreover from this obtain e where "e \<in> set evs" "ev_ID e = n - 1" using disk_trail_ids(4)[OF t, of "n - 1"] by auto
      ultimately show ?thesis using t c(4) unfolding disk_trail_def m_def by (metis wf_map_get_iff)
    qed simp
  qed (use c(2) in simp)
  with s merge_traces_fst[of m "trace_files d" "compact_lines d" m] show ?thesis
    using assms(2,3) c(3)
    by (cases "merge_traces m (trace_files d) (compact_lines d, m)")
      (simp add: LoadEvents_def d_def[symmetric] m_def[symmetric] Let_def)
qed

section \<open>Appending and compacting\<close>

lemma ensure_loaded_frames [simp]:
  "tasks (ensureEventsLoadedLocked i s) = tasks s" "backend (ensureEventsLoadedLocked i s) = backend s"
  "map_at False (eventsLoaded (ensureEventsLoadedLocked i s)) i"
  by (simp_all add: ensureEventsLoadedLocked_def loadEvents_def Let_def split: sum.split prod.split)

lemma ensure_loaded_frame: "frame_step s (ensureEventsLoadedLocked i s)"
  by (simp add: ensureEventsLoadedLocked_def loadEvents_def Let_def frame_step_def same_limits_def
      split: sum.split prod.split)

lemma ensure_loaded_trail:
  assumes "disk_trail (dir_at (backend s) i) evs n" "\<not> io_fails (backend s) (IOReadTraces i)"
    "\<not> io_fails (backend s) (IOReadCompact i)" "\<not> map_at False (eventsLoaded s) i"
  shows "map_at [] (events (ensureEventsLoadedLocked i s)) i = evs"
    "map_at 0 (nextSeq (ensureEventsLoadedLocked i s)) i = n"
proof -
  have "evs = []" if "n = 1" using assms(1) that by (simp add: disk_trail_def)
  then show "map_at [] (events (ensureEventsLoadedLocked i s)) i = evs"
    "map_at 0 (nextSeq (ensureEventsLoadedLocked i s)) i = n"
    using assms(4) by (auto simp: ensureEventsLoadedLocked_def loadEvents_def Let_def LoadEvents_trail[OF assms(1-3)])
qed

lemma disk_trail_append:
  assumes "disk_trail d evs n" "ev_ID e = n" "compact_lines d' = compact_lines d" "has_traces d'"
    "trace_files d' = map_put n (Some e) (trace_files d)"
  shows "disk_trail d' (evs @ [e]) (n + 1)"
proof -
  have n: "1 \<le> n" "map ev_ID evs = [1..n - 1]" using assms(1) by (auto simp: disk_trail_def)
  then have "map ev_ID (evs @ [e]) = [1..n + 1 - 1]" using upto_rec2[of 1 n] assms(2) by simp
  moreover have "ev_ID x \<noteq> n" if "x \<in> set evs" for x using disk_trail_ids(3)[OF assms(1) that] by simp
  ultimately show ?thesis
    using assms unfolding disk_trail_def by (auto split: if_splits)
qed

lemma InsertEvent_eq:
  assumes "trail_ok i s" "map_at False (eventsLoaded s) i" "map_get (tasks s) i \<noteq> None"
    "\<not> io_fails (backend s) (IOSaveEvent i)"
  shows "\<exists>e. InsertEvent ctx i ty data now s = (s\<lparr>
      backend := put_dir i ((dir_at (backend s) i)\<lparr>has_traces := True,
        trace_files := map_put (map_at 0 (nextSeq s) i) (Some e) (trace_files (dir_at (backend s) i))\<rparr>) (backend s),
      events := map_put i (map_at [] (events s) i @ [e]) (events s),
      nextSeq := map_put i (map_at 0 (nextSeq s) i + 1) (nextSeq s)\<rparr>, Inr ())
    \<and> ev_ID e = map_at 0 (nextSeq s) i \<and> EventType e = ty \<and> Data e = data
    \<and> (ActorSub e, ActorType e) = actorFromContext ctx"
proof -
  obtain a c where ctx: "actorFromContext ctx = (a, c)" by fastforce
  show ?thesis
    using assms
    by (intro exI[of _ "\<lparr>ev_ID = map_at 0 (nextSeq s) i, TaskID = i, EventType = ty, Data = data, ev_CreatedAt = now,
        ActorSub = a, ActorType = c\<rparr>"])
      (simp add: InsertEvent_def ensureEventsLoadedLocked_def SaveEvent_def Let_def ctx)
qed


lemma compact_lines_Some [simp]: "compact_lines (d\<lparr>compact_file := Some (map Some evs), trace_files := fs\<rparr>) = evs"
  by (induction evs) (auto simp: compact_lines_def map_filter_def)

lemma CompactEvents_cases:
  "CompactEvents i evs b = (b, Inl ErrIO) \<or> CompactEvents i evs b = (b, Inr ()) \<and> \<not> has_traces (dir_at b i)
   \<or> CompactEvents i evs b = (put_dir i ((dir_at b i)\<lparr>compact_file := Some (map Some evs),
        trace_files := filter (\<lambda>(seq, f). seq > max_event_ID evs \<or> io_fails b (IORemoveTrace i seq))
          (trace_files (dir_at b i))\<rparr>) b, Inr ())"
  by (simp add: CompactEvents_def Let_def)

lemma map_get_filter_key: "wf_map m \<Longrightarrow> map_get (filter (\<lambda>(k, v). P k) m) k = (if P k then map_get m k else None)"
  by (induction m) (auto simp: map_of_eq_None_iff)

lemma max_event_ID_upto:
  assumes "disk_trail d evs n" "filter (\<lambda>e. ev_ID e \<le> q) evs \<noteq> []"
  shows "max_event_ID (filter (\<lambda>e. ev_ID e \<le> q) evs) = min q (n - 1)" "1 \<le> min q (n - 1)"
proof -
  from assms(2) obtain e0 where "e0 \<in> set evs" "ev_ID e0 \<le> q" by (auto simp: filter_empty_conv)
  then show one: "1 \<le> min q (n - 1)" using disk_trail_ids(3)[OF assms(1), of e0] by auto
  obtain e where e: "e \<in> set evs" "ev_ID e = min q (n - 1)" using disk_trail_ids(4)[OF assms(1) one] by force
  show "max_event_ID (filter (\<lambda>e. ev_ID e \<le> q) evs) = min q (n - 1)"
    unfolding max_event_ID_Max
  proof (rule Max_eqI)
    show "min q (n - 1) \<in> insert 0 (ev_ID ` set (filter (\<lambda>e. ev_ID e \<le> q) evs))"
      using e by (auto intro!: rev_image_eqI[of e])
    show "y \<le> min q (n - 1)" if "y \<in> insert 0 (ev_ID ` set (filter (\<lambda>e. ev_ID e \<le> q) evs))" for y
      using that one disk_trail_ids(3)[OF assms(1)] by force
  qed simp
qed

lemma disk_trail_compact:
  assumes "disk_trail d evs n" "filter (\<lambda>e. ev_ID e \<le> q) evs \<noteq> []" "max_event_ID (compact_lines d) \<le> q"
  shows "disk_trail (d\<lparr>compact_file := Some (map Some (filter (\<lambda>e. ev_ID e \<le> q) evs)),
     trace_files := filter (\<lambda>(seq, f). min q (n - 1) < seq \<or> P seq) (trace_files d)\<rparr>) evs n"
proof -
  define m where "m = max_event_ID (compact_lines d)"
  note mx = max_event_ID_upto[OF assms(1,2)]
  have t: "has_traces d" "1 \<le> n" "map ev_ID evs = [1..n - 1]" "wf_map (trace_files d)" "m < n"
    "\<And>k f. map_get (trace_files d) k = Some f \<Longrightarrow> m < k \<Longrightarrow> \<exists>e \<in> set evs. ev_ID e = k \<and> f = Some e"
    "\<And>e. e \<in> set evs \<Longrightarrow> m < ev_ID e \<Longrightarrow> map_get (trace_files d) (ev_ID e) = Some (Some e)"
    using assms(1) unfolding disk_trail_def m_def by blast+
  have m: "m \<le> min q (n - 1)" using assms(3) t(5) by (simp add: m_def)
  have f: "filter (\<lambda>e. ev_ID e \<le> q) evs = filter (\<lambda>e. ev_ID e \<le> min q (n - 1)) evs"
    by (rule filter_cong) (use disk_trail_ids(3)[OF assms(1)] in force)+
  show ?thesis
    unfolding disk_trail_def compact_lines_Some mx(1)
    using t m f by (auto simp: map_get_filter_key[of _ "\<lambda>seq. min q (n - 1) < seq \<or> P seq"] distinct_map_filter)
qed


section \<open>Lost events\<close>

lemma compact_quiet:
  assumes "filter (\<lambda>e. ev_ID e \<le> q) (map_at [] (events s) i) \<noteq> []" "has_traces (dir_at (backend s) i)"
    "\<forall>c. \<not> io_fails (backend s) c"
  shows "fst (compactTaskEvents i q s) = s\<lparr>backend := put_dir i ((dir_at (backend s) i)\<lparr>
      compact_file := Some (map Some (filter (\<lambda>e. ev_ID e \<le> q) (map_at [] (events s) i))),
      trace_files := filter (\<lambda>(seq, f). max_event_ID (filter (\<lambda>e. ev_ID e \<le> q) (map_at [] (events s) i)) < seq)
        (trace_files (dir_at (backend s) i))\<rparr>) (backend s)\<rparr>"
  using assms by (simp add: compactTaskEvents_def CompactEvents_def Let_def case_prod_beta)

lemma LoadEvents_quiet:
  assumes "\<forall>c. \<not> io_fails b c" "has_traces (dir_at b i)"
  shows "\<exists>mx. LoadEvents i b = Inr (sort_key ev_ID (compact_lines (dir_at b i)
     @ newer_files (max_event_ID (compact_lines (dir_at b i))) (trace_files (dir_at b i))), mx)"
  using assms merge_traces_fst[of "max_event_ID (compact_lines (dir_at b i))" "trace_files (dir_at b i)"
      "compact_lines (dir_at b i)" "max_event_ID (compact_lines (dir_at b i))"]
  by (cases "merge_traces (max_event_ID (compact_lines (dir_at b i))) (trace_files (dir_at b i))
      (compact_lines (dir_at b i), max_event_ID (compact_lines (dir_at b i)))")
    (simp add: LoadEvents_def Let_def)

lemma newer_files_filter:
  "q \<le> p \<Longrightarrow> newer_files q (filter (\<lambda>(seq, f). q < seq) (filter (\<lambda>(seq, f). p < seq) fs)) = newer_files p (filter (\<lambda>(seq, f). p < seq) fs)"
  by (induction fs) (auto simp: newer_files_def map_filter_def)

lemma newer_files_idem: "newer_files p (filter (\<lambda>(seq, f). p < seq) fs) = newer_files p fs"
  by (induction fs) (auto simp: newer_files_def map_filter_def)

text \<open>
  Each terminal transition starts its own compaction goroutine, and nothing orders them.
  When the one with the smaller bound runs last it replaces the compacted file although the
  trace files in between are already gone: those events are lost on disk.
\<close>

theorem compaction_out_of_order_loses:
  assumes "trail_ok i s" "\<forall>c. \<not> io_fails (backend s) c"
    "max_event_ID (compact_lines (dir_at (backend s) i)) \<le> p" "1 \<le> q" "q < p" "p < map_at 0 (nextSeq s) i"
  shows "\<exists>mx. LoadEvents i (backend (fst (compactTaskEvents i q (fst (compactTaskEvents i p s)))))
    = Inr (filter (\<lambda>e. ev_ID e \<le> q \<or> p < ev_ID e) (map_at [] (events s) i), mx)"
proof -
  define evs n where "evs = map_at [] (events s) i" and "n = map_at 0 (nextSeq s) i"
  define d1 where "d1 = (dir_at (backend s) i)\<lparr>compact_file := Some (map Some (filter (\<lambda>e. ev_ID e \<le> p) evs)),
      trace_files := filter (\<lambda>(seq, f). p < seq) (trace_files (dir_at (backend s) i))\<rparr>"
  have t: "disk_trail (dir_at (backend s) i) evs n" using assms(1) by (simp add: trail_ok_def evs_def n_def)
  have tr: "has_traces (dir_at (backend s) i)" using t by (simp add: disk_trail_def)
  have ne: "filter (\<lambda>e. ev_ID e \<le> r) evs \<noteq> []" if "1 \<le> r" for r
    using disk_trail_ids(4)[OF t, of 1] that assms(4-6) by (force simp: filter_empty_conv n_def)
  have mx: "max_event_ID (filter (\<lambda>e. ev_ID e \<le> r) evs) = r" if "1 \<le> r" "r \<le> p" for r
    using max_event_ID_upto(1)[OF t ne[OF that(1)]] that assms(6) by (simp add: n_def)
  have s1: "fst (compactTaskEvents i p s) = s\<lparr>backend := put_dir i d1 (backend s)\<rparr>"
    using compact_quiet[of p s i] ne[of p] mx[of p] assms(2,4,5) tr by (simp add: evs_def d1_def)
  have "disk_trail d1 evs n"
    using disk_trail_compact[OF t ne[of p] assms(3), of "\<lambda>_. False"] assms(4-6) by (simp add: d1_def n_def min_def)
  from newer_files_mset[OF this] have nm: "mset (newer_files p (trace_files d1)) = mset (filter (\<lambda>e. p < ev_ID e) evs)"
    using mx[of p] assms(4,5) by (simp add: d1_def)
  define d2 where "d2 = d1\<lparr>compact_file := Some (map Some (filter (\<lambda>e. ev_ID e \<le> q) evs)),
      trace_files := filter (\<lambda>(seq, f). q < seq) (trace_files d1)\<rparr>"
  have "fst (compactTaskEvents i q (s\<lparr>backend := put_dir i d1 (backend s)\<rparr>))
      = s\<lparr>backend := put_dir i d2 (put_dir i d1 (backend s))\<rparr>"
    using compact_quiet[of q "s\<lparr>backend := put_dir i d1 (backend s)\<rparr>" i] ne[of q] mx[of q] assms(2,4,5) tr
    by (simp add: evs_def[symmetric] d2_def) (simp add: d1_def)
  moreover have "newer_files q (trace_files d2) = newer_files p (trace_files d1)"
    using newer_files_filter[of q p] newer_files_idem[of p] assms(5) by (simp add: d2_def d1_def)
  moreover have "sort_key ev_ID (filter (\<lambda>e. ev_ID e \<le> q) evs @ newer_files p (trace_files d1))
      = filter (\<lambda>e. ev_ID e \<le> q \<or> p < ev_ID e) evs"
  proof (rule sort_key_unique)
    have "mset (filter (\<lambda>e. ev_ID e \<le> q) evs) + mset (filter (\<lambda>e. p < ev_ID e) evs)
        = mset (filter (\<lambda>e. ev_ID e \<le> q \<or> p < ev_ID e) evs)"
      using assms(5) by (induction evs) auto
    then show "mset (filter (\<lambda>e. ev_ID e \<le> q) evs @ newer_files p (trace_files d1))
        = mset (filter (\<lambda>e. ev_ID e \<le> q \<or> p < ev_ID e) evs)" using nm by simp
    show "sorted (map ev_ID (filter (\<lambda>e. ev_ID e \<le> q \<or> p < ev_ID e) evs))"
      using disk_trail_ids(2)[OF t] by (simp add: sorted_filter)
    show "inj_on ev_ID (set (filter (\<lambda>e. ev_ID e \<le> q \<or> p < ev_ID e) evs))"
      using disk_trail_ids(5)[OF t] by (rule inj_on_subset) auto
  qed
  ultimately show ?thesis
    using LoadEvents_quiet[of "put_dir i d2 (put_dir i d1 (backend s))" i] assms(2,4,5) mx[of q] tr
    by (simp add: s1 evs_def[symmetric]) (simp add: d2_def d1_def)
qed

text \<open>
  A task whose events cannot be read is marked as loaded all the same. The next event
  then gets number 0 instead of the next one, and once the following compaction has run, the
  compacted file holds that single event: the earlier trail is gone from disk.
\<close>

theorem failed_load_loses_trail:
  assumes "map_get (tasks s) i \<noteq> None" "\<not> map_at False (eventsLoaded s) i"
    "map_get (events s) i = None" "map_get (nextSeq s) i = None"
    "has_traces (dir_at (backend s) i)" "trace_files (dir_at (backend s) i) = []"
    "io_fails (backend s) (IOReadTraces i)" "\<not> io_fails (backend s) (IOSaveEvent i)"
    "InsertEvent ctx i ty data now s = (s1, r)"
    "s2 = s1\<lparr>backend := (backend s1)\<lparr>io_fails := (\<lambda>_. False)\<rparr>\<rparr>"
  shows "r = Inr () \<and> (\<exists>e mx. ev_ID e = 0 \<and> map_at 0 (nextSeq s1) i = 1 \<and>
    LoadEvents i (backend (fst (compactTaskEvents i (map_at 0 (nextSeq s1) i - 1) s2))) = Inr ([e], mx))"
proof -
  obtain a c where ctx: "actorFromContext ctx = (a, c)" by fastforce
  define e where "e = \<lparr>ev_ID = 0, TaskID = i, EventType = ty, Data = data, ev_CreatedAt = now, ActorSub = a, ActorType = c\<rparr>"
  have ens: "ensureEventsLoadedLocked i s = s\<lparr>eventsLoaded := map_put i True (eventsLoaded s)\<rparr>"
    using assms(2,5,7) by (simp add: ensureEventsLoadedLocked_def loadEvents_def LoadEvents_def Let_def)
  have s1: "s1 = s\<lparr>eventsLoaded := map_put i True (eventsLoaded s),
      backend := put_dir i ((dir_at (backend s) i)\<lparr>has_traces := True, trace_files := [(0, Some e)]\<rparr>) (backend s),
      events := map_put i [e] (events s), nextSeq := map_put i 1 (nextSeq s)\<rparr>" "r = Inr ()"
    using assms by (auto simp: InsertEvent_def ens ctx Let_def SaveEvent_def e_def map_at_def)
  have q: "fst (compactTaskEvents i 0 s2) = s2\<lparr>backend := put_dir i ((dir_at (backend s2) i)\<lparr>
      compact_file := Some [Some e], trace_files := []\<rparr>) (backend s2)\<rparr>"
    using compact_quiet[of 0 s2 i] by (simp add: assms(10) s1(1) dir_at_def put_dir_def e_def max_event_ID_def)
  have "\<exists>mx. LoadEvents i (backend (fst (compactTaskEvents i 0 s2))) = Inr ([e], mx)"
    using LoadEvents_quiet[of "backend (fst (compactTaskEvents i 0 s2))" i]
    by (simp add: q) (simp add: assms(10) s1(1) dir_at_def put_dir_def compact_lines_def map_filter_def newer_files_def)
  then show ?thesis using s1 by (auto simp: e_def)
qed

section \<open>Concrete trails\<close>

definition sample_event :: "int \<Rightarrow> TaskEvent" where
  "sample_event n = \<lparr>ev_ID = n, TaskID = 1, EventType = EventTypeSystem, Data = DataRaw ''null'', ev_CreatedAt = n,
     ActorSub = [], ActorType = ''system''\<rparr>"

definition with_trail :: "int \<Rightarrow> Store \<Rightarrow> Store" where
  "with_trail n s = s\<lparr>
     backend := put_dir 1 ((dir_at (backend s) 1)\<lparr>has_traces := True,
       trace_files := map (\<lambda>k. (k, Some (sample_event k))) [1..n]\<rparr>) (backend s),
     events := map_put 1 (map sample_event [1..n]) (events s), nextSeq := map_put 1 (n + 1) (nextSeq s)\<rparr>"

lemma with_trail_ok:
  assumes "0 \<le> n" "compact_file (dir_at (backend s) 1) = None"
  shows "trail_ok 1 (with_trail n s)"
proof -
  have "map_get (map (\<lambda>k. (k, Some (sample_event k))) ks) j = (if j \<in> set ks then Some (Some (sample_event j)) else None)"
    for ks :: "int list" and j by (induction ks) auto
  then show ?thesis
    using assms
    by (auto simp: trail_ok_def with_trail_def disk_trail_def compact_lines_def max_event_ID_def sample_event_def comp_def
        split: if_splits)
qed

definition trail_store :: "int \<Rightarrow> Store" where
  "trail_store n = with_trail n (sample_store unary_lib [sample_task])"

lemma trail_store_ok:
  "0 \<le> n \<Longrightarrow> trail_ok 1 (trail_store n)" "map_at False (eventsLoaded (trail_store n)) 1"
  "map_get (tasks (trail_store n)) 1 = Some sample_task" "\<not> io_fails (backend (trail_store n)) c"
  "compact_lines (dir_at (backend (trail_store n)) 1) = []"
  "map_at [] (events (trail_store n)) 1 = map sample_event [1..n]" "map_at 0 (nextSeq (trail_store n)) 1 = n + 1"
  unfolding trail_store_def
  by (rule with_trail_ok)
    (simp_all add: with_trail_def sample_store_def install_def empty_store_def quiet_disk_def addToStatusIndex_def
      map_at_def empty_dir_def dir_at_def put_dir_def compact_lines_def)

lemmas trail_store_simps = trail_store_ok[unfolded One_nat_def]



theorem compaction_out_of_order_loses_witness:
  "\<exists>mx. LoadEvents 1 (backend (fst (compactTaskEvents 1 1 (fst (compactTaskEvents 1 3 (trail_store 4))))))
     = Inr (map sample_event [1, 4], mx)"
  using compaction_out_of_order_loses[OF trail_store_ok(1), of 4 3 1]
  by (simp add: trail_store_simps max_event_ID_def upto.simps sample_event_def)

definition unreadable_store :: Store where
  "unreadable_store = (sample_store unary_lib [sample_task])\<lparr>
     backend := \<lparr>dirs = [(1, empty_dir\<lparr>has_traces := True, compact_file := Some [Some (sample_event 1)]\<rparr>)],
                 io_fails = (\<lambda>c. c = IOReadTraces 1)\<rparr>,
     eventsLoaded := [], events := [], nextSeq := []\<rparr>"

theorem failed_load_loses_trail_witness:
  "\<exists>s1. InsertEvent None 1 EventTypeSystem (DataRaw ''x'') 9 unreadable_store = (s1, Inr ())
     \<and> (\<exists>e mx. ev_ID e = 0 \<and> LoadEvents 1 (backend (fst (compactTaskEvents 1 (map_at 0 (nextSeq s1) 1 - 1)
         (s1\<lparr>backend := (backend s1)\<lparr>io_fails := (\<lambda>_. False)\<rparr>\<rparr>)))) = Inr ([e], mx))"
proof -
  obtain s1 r where i: "InsertEvent None 1 EventTypeSystem (DataRaw ''x'') 9 unreadable_store = (s1, r)" by fastforce
  have "distinct (map ID [sample_task])" by simp
  note ok = sample_store_ok(4)[OF this, of unary_lib 1]
  from failed_load_loses_trail[OF _ _ _ _ _ _ _ _ i refl] show ?thesis
    using ok i by (auto simp: unreadable_store_def map_at_def dir_at_def empty_dir_def)
qed

section \<open>Pages of events\<close>

fun event_pages :: "nat \<Rightarrow> uuid \<Rightarrow> int \<Rightarrow> int \<Rightarrow> EventType list \<Rightarrow> Store \<Rightarrow> TaskEvent list option" where
  "event_pages 0 i after limit types s = None"
| "event_pages (Suc n) i after limit types s =
     (case GetEventsPage i after limit types s of
        (s1, p) \<Rightarrow>
          if HasMore p then map_option (\<lambda>r. Items p @ r) (event_pages n i (NextCursor p) limit types s1)
          else Some (Items p))"

text \<open>
  (C30) A client that pages through the events of a task, with any page size and any set of
  event types, receives every matching event once and in order.
\<close>

theorem event_pages_complete:
  assumes "trail_ok i s" "map_at False (eventsLoaded s) i"
  shows "event_pages (Suc (length (map_at [] (events s) i))) i 0 limit types s
    = Some (filter (\<lambda>e. types = [] \<or> EventType e \<in> set types) (map_at [] (events s) i))"
proof -
  define evs where "evs = map_at [] (events s) i"
  define filt :: "(TaskEvent \<Rightarrow> bool) option" where "filt = (if types \<noteq> [] then Some (\<lambda>ev. EventType ev \<in> set types) else None)"
  have pages: "event_pages k i after limit types s = follow k evs ev_ID after limit 200 1000 filt" for k after
    using assms(2)
    by (induction k arbitrary: after) (simp_all add: GetEventsPage_def ensureEventsLoadedLocked_def Let_def evs_def filt_def)
  have t: "disk_trail (dir_at (backend s) i) evs (map_at 0 (nextSeq s) i)" using assms(1) by (simp add: trail_ok_def evs_def)
  have "map ev_ID evs = [1..map_at 0 (nextSeq s) i - 1]" using t by (simp add: disk_trail_def)
  then have "sorted_wrt (<) (map ev_ID evs)" by simp
  then have sorted: "sorted_wrt (\<lambda>a b. ev_ID a < ev_ID b) evs" by (simp add: sorted_wrt_map)
  have pos: "\<forall>e \<in> set evs. 0 < ev_ID e" using disk_trail_ids(3)[OF t] by force
  have lim: "0 < clamp_limit limit 200 1000" by (simp add: clamp_limit_def Let_def)
  have rem: "remaining evs ev_ID 0 filt = filter (\<lambda>e. types = [] \<or> EventType e \<in> set types) evs"
    by (simp add: remaining_def selects_def filt_def)
  have "length (remaining evs ev_ID 0 filt) < Suc (length evs)" by (simp add: rem less_Suc_eq_le)
  from follow_enough[OF sorted pos lim this] show ?thesis
    unfolding evs_def[symmetric] pages rem .
qed

theorem event_pages_complete_witness: "event_pages 4 1 0 2 [] (trail_store 3) = Some (map sample_event [1, 2, 3])"
  using event_pages_complete[OF trail_store_ok(1,2), of 3 2 "[]"]
  by (simp add: trail_store_simps upto.simps eval_nat_numeral del: event_pages.simps)

section \<open>Trace file names\<close>

lemma HasSuffix_append [simp]: "HasSuffix (s @ suf) suf"
  by (simp add: HasSuffix_def HasPrefix_iff)

text \<open>
  The name under which an event is stored is recognised and gives back its sequence
  number, for every non-negative 64-bit number.
\<close>

theorem trace_file_name_roundtrip:
  assumes "0 \<le> n" "n < 2 ^ 63"
  shows "parseNumberedTraceFile (trace_file_name n) = Some n"
proof -
  have "fmt_0d 4 n \<noteq> []" using dec_ok[of "nat n"] assms(1) by (simp add: fmt_0d_def Let_def)
  moreover have "in_int64 n" using assms by (simp add: in_int64_def)
  ultimately show ?thesis
    using Atoi_fmt_0d[OF assms(1)] unfolding parseNumberedTraceFile_def trace_file_name_def TrimSuffix_def
    by (simp add: Let_def)
qed

theorem trace_file_name_roundtrip_witness: "parseNumberedTraceFile (trace_file_name 42) = Some 42"
  by (rule trace_file_name_roundtrip) simp_all

section \<open>Truncated output\<close>

lemma LastIndexByte_spec:
  "LastIndexByte s c = Some i \<Longrightarrow> i < length s \<and> s ! i = c \<and> c \<notin> set (drop (Suc i) s)"
  "LastIndexByte s c = None \<longleftrightarrow> c \<notin> set s"
proof -
  show n: "LastIndexByte s c = None \<longleftrightarrow> c \<notin> set s" for s by (induction s) (auto split: option.splits)
  show "LastIndexByte s c = Some i \<Longrightarrow> i < length s \<and> s ! i = c \<and> c \<notin> set (drop (Suc i) s)"
  proof (induction s arbitrary: i)
    case (Cons x s)
    then show ?case using n[of s] by (auto split: option.splits if_splits)
  qed simp
qed

text \<open>
  Output within the budget is stored as it is. Otherwise the stored text is a prefix no
  longer than the budget, cut at a line break of the output when there is one in reach,
  followed by one notice line that carries the original size.
\<close>

theorem truncateTurnData_shape:
  "truncateTurnData data s = (data, 0) \<and> (maxTurnOutputBytes s \<le> 0 \<or> int (length data) \<le> maxTurnOutputBytes s)
   \<or> (\<exists>c. truncateTurnData data s
          = (take c data @ newline # sentinel (int (length data)) (int c) @ [newline], int (length data))
        \<and> int c \<le> maxTurnOutputBytes s \<and> maxTurnOutputBytes s < int (length data)
        \<and> (if newline \<in> set (take (nat (maxTurnOutputBytes s)) data)
           then data ! c = newline \<and> newline \<notin> set (drop (Suc c) (take (nat (maxTurnOutputBytes s)) data))
           else int c = maxTurnOutputBytes s))"
proof (cases "maxTurnOutputBytes s \<le> 0 \<or> int (length data) \<le> maxTurnOutputBytes s")
  case False
  define w where "w = take (nat (maxTurnOutputBytes s)) data"
  show ?thesis
  proof (cases "LastIndexByte w newline")
    case None
    then show ?thesis
      using False LastIndexByte_spec(2)[of w newline]
      by (intro disjI2 exI[of _ "nat (maxTurnOutputBytes s)"]) (simp add: truncateTurnData_def w_def Let_def)
  next
    case (Some i)
    from LastIndexByte_spec(1)[OF this] have i: "i < length w" "w ! i = newline" "newline \<notin> set (drop (Suc i) w)" by auto
    then have "newline \<in> set w" "data ! i = newline" "int i \<le> maxTurnOutputBytes s" using nth_mem[OF i(1)] by (auto simp: w_def)
    then show ?thesis
      using False Some i(3) by (intro disjI2 exI[of _ i]) (simp add: truncateTurnData_def w_def Let_def)
  qed
qed (simp add: truncateTurnData_def)

section \<open>Spans\<close>

definition marks :: "(event_data \<Rightarrow> SpanData option) \<Rightarrow> EventType \<Rightarrow> string \<times> string \<Rightarrow> TaskEvent \<Rightarrow> bool" where
  "marks other ty key ev \<longleftrightarrow> EventType ev = ty \<and> map_option (\<lambda>d. (Phase d, Label d)) (span_data other (Data ev)) = Some key"

text \<open>The span with this key that is open after the events \<open>evs\<close>, with its start.\<close>

definition open_since :: "(event_data \<Rightarrow> SpanData option) \<Rightarrow> TaskEvent list \<Rightarrow> string \<times> string \<Rightarrow> time \<Rightarrow> bool" where
  "open_since other evs key t \<longleftrightarrow> (\<exists>pre ev post. evs = pre @ ev # post \<and> marks other EventTypeSpanStart key ev
     \<and> ev_CreatedAt ev = t
     \<and> list_all (\<lambda>x. \<not> marks other EventTypeSpanStart key x \<and> \<not> marks other EventTypeSpanEnd key x) post)"

definition span_key :: "SpanResult \<Rightarrow> string \<times> string" where
  "span_key r = (sp_Phase r, sp_Label r)"

definition closed_span :: "(event_data \<Rightarrow> SpanData option) \<Rightarrow> TaskEvent list \<Rightarrow> SpanResult \<Rightarrow> bool" where
  "closed_span other evs r \<longleftrightarrow> (\<exists>pre ev post. evs = pre @ ev # post \<and> marks other EventTypeSpanEnd (span_key r) ev
     \<and> open_since other pre (span_key r) (sp_StartedAt r) \<and> sp_EndedAt r = ev_CreatedAt ev
     \<and> DurationMS r = milliseconds (sp_EndedAt r - sp_StartedAt r))"

lemma open_since_snoc:
  "open_since other (evs @ [ev]) key t \<longleftrightarrow>
     (if marks other EventTypeSpanStart key ev then ev_CreatedAt ev = t
      else \<not> marks other EventTypeSpanEnd key ev \<and> open_since other evs key t)"
proof -
  have "open_since other (evs @ [ev]) key t \<longleftrightarrow>
      (marks other EventTypeSpanStart key ev \<and> ev_CreatedAt ev = t)
      \<or> (open_since other evs key t \<and> \<not> marks other EventTypeSpanStart key ev \<and> \<not> marks other EventTypeSpanEnd key ev)"
    (is "?l \<longleftrightarrow> ?r")
  proof
    assume ?l
    then obtain pre x post where x: "evs @ [ev] = pre @ x # post" "marks other EventTypeSpanStart key x" "ev_CreatedAt x = t"
      "list_all (\<lambda>x. \<not> marks other EventTypeSpanStart key x \<and> \<not> marks other EventTypeSpanEnd key x) post"
      by (auto simp: open_since_def)
    show ?r
    proof (cases post rule: rev_cases)
      case Nil
      then show ?thesis using x by simp
    next
      case (snoc ys y)
      then have "evs = pre @ x # ys" "ev = y" using x(1) by (metis append_Cons append_assoc append_same_eq butlast_snoc last_snoc)+
      then show ?thesis using x snoc by (auto simp: open_since_def)
    qed
  next
    assume ?r
    then show ?l
    proof
      assume "marks other EventTypeSpanStart key ev \<and> ev_CreatedAt ev = t"
      then show ?l unfolding open_since_def by (intro exI[of _ evs] exI[of _ ev] exI[of _ "[]"]) simp
    next
      assume a: "open_since other evs key t \<and> \<not> marks other EventTypeSpanStart key ev \<and> \<not> marks other EventTypeSpanEnd key ev"
      then obtain pre x post where "evs = pre @ x # post" "marks other EventTypeSpanStart key x" "ev_CreatedAt x = t"
        "list_all (\<lambda>x. \<not> marks other EventTypeSpanStart key x \<and> \<not> marks other EventTypeSpanEnd key x) post"
        by (auto simp: open_since_def)
      with a show ?l unfolding open_since_def by (intro exI[of _ pre] exI[of _ x] exI[of _ "post @ [ev]"]) simp
    qed
  qed
  then show ?thesis by (auto simp: marks_def)
qed

lemma closed_span_snoc: "closed_span other evs r \<Longrightarrow> closed_span other (evs @ [ev]) r"
  unfolding closed_span_def by fastforce

definition spans_inv ::
  "(event_data \<Rightarrow> SpanData option) \<Rightarrow> TaskEvent list \<Rightarrow> (string \<times> string, time) gomap \<Rightarrow> SpanResult list \<Rightarrow> bool" where
  "spans_inv other evs st spans \<longleftrightarrow> wf_map st \<and> (\<forall>k t. map_get st k = Some t \<longleftrightarrow> open_since other evs k t)
     \<and> (\<forall>r \<in> set spans. closed_span other evs r)"

lemma spans_loop_inv:
  "spans_inv other pre st spans \<Longrightarrow> spans_loop other evs st spans = (st', spans') \<Longrightarrow> spans_inv other (pre @ evs) st' spans'"
proof (induction evs arbitrary: pre st spans)
  case (Cons ev evs)
  have step: "spans_inv other (pre @ [ev]) st1 spans1 \<Longrightarrow> spans_loop other evs st1 spans1 = (st', spans')
      \<Longrightarrow> spans_inv other (pre @ ev # evs) st' spans'" for st1 spans1
    using Cons.IH[of "pre @ [ev]" st1 spans1] by simp
  have skip: "spans_inv other (pre @ [ev]) st spans"
    if "\<And>k. \<not> marks other EventTypeSpanStart k ev \<and> (marks other EventTypeSpanEnd k ev \<longrightarrow> map_get st k = None)"
    using Cons.prems(1) that unfolding spans_inv_def open_since_snoc by (auto intro: closed_span_snoc) (metis option.distinct(1))+
  show ?case
  proof (cases "span_data other (Data ev)")
    case None
    then have "spans_loop other evs st spans = (st', spans')" using Cons.prems(2) by (auto split: if_splits)
    moreover have "spans_inv other (pre @ [ev]) st spans" using None by (intro skip) (simp add: marks_def)
    ultimately show ?thesis by (intro step)
  next
    case (Some d)
    define key where "key = (Phase d, Label d)"
    have m: "marks other ty k ev \<longleftrightarrow> EventType ev = ty \<and> k = key" for ty k by (auto simp: marks_def Some key_def)
    show ?thesis
    proof (cases "EventType ev = EventTypeSpanStart")
      case True
      then have l: "spans_loop other evs (map_put key (ev_CreatedAt ev) st) spans = (st', spans')"
        using Cons.prems(2) by (simp add: Some key_def Let_def)
      have "spans_inv other (pre @ [ev]) (map_put key (ev_CreatedAt ev) st) spans"
        using Cons.prems(1) True unfolding spans_inv_def open_since_snoc m by (auto intro: closed_span_snoc split: if_splits)
      with l show ?thesis by (intro step)
    next
      case nostart: False
      show ?thesis
      proof (cases "EventType ev = EventTypeSpanEnd \<and> map_get st key \<noteq> None")
        case False
        then have "spans_loop other evs st spans = (st', spans')"
          using Cons.prems(2) nostart by (auto simp: Some key_def Let_def split: if_splits option.splits)
        moreover have "spans_inv other (pre @ [ev]) st spans" using False nostart by (intro skip) (auto simp: m)
        ultimately show ?thesis by (intro step)
      next
        case True
        then obtain t where t: "map_get st key = Some t" by auto
        define r where "r = \<lparr>sp_Phase = Phase d, sp_Label = Label d, sp_StartedAt = t, sp_EndedAt = ev_CreatedAt ev,
            DurationMS = milliseconds (ev_CreatedAt ev - t)\<rparr>"
        have l: "spans_loop other evs (map_del key st) (spans @ [r]) = (st', spans')"
          using Cons.prems(2) True nostart t by (simp add: Some key_def[symmetric] Let_def) (simp add: key_def r_def)
        have "closed_span other (pre @ [ev]) r"
          unfolding closed_span_def
          by (rule exI[of _ pre], rule exI[of _ ev], rule exI[of _ "[]"])
            (use Cons.prems(1) t True in \<open>auto simp: spans_inv_def r_def span_key_def m key_def\<close>)
        then have "spans_inv other (pre @ [ev]) (map_del key st) (spans @ [r])"
          using Cons.prems(1) True nostart unfolding spans_inv_def open_since_snoc m
          by (auto intro: closed_span_snoc split: if_splits)
        with l show ?thesis by (intro step)
      qed
    qed
  qed
qed simp

text \<open>
  Reported spans are sorted by start. Each one either runs from the most recent start of
  its phase and label to the matching end, with the duration between the two, or is still
  open after all events; every open span is reported.
\<close>

theorem ComputeSpans_correct:
  "sorted_wrt (\<lambda>a b. sp_StartedAt a \<le> sp_StartedAt b) (ComputeSpans other evs)
   \<and> list_all (\<lambda>r. closed_span other evs r
       \<or> open_since other evs (span_key r) (sp_StartedAt r) \<and> sp_EndedAt r = 0 \<and> DurationMS r = 0) (ComputeSpans other evs)
   \<and> {(k, t). open_since other evs k t} \<subseteq> (\<lambda>r. (span_key r, sp_StartedAt r)) ` set (ComputeSpans other evs)"
proof -
  obtain st spans where l: "spans_loop other evs [] [] = (st, spans)" by fastforce
  have "spans_inv other [] [] []" by (simp add: spans_inv_def open_since_def)
  from spans_loop_inv[OF this l] have inv: "wf_map st" "\<And>k t. map_get st k = Some t \<longleftrightarrow> open_since other evs k t"
    "\<forall>r \<in> set spans. closed_span other evs r" by (auto simp: spans_inv_def)
  define opened where "opened = map (\<lambda>((phase, label), startedAt).
      \<lparr>sp_Phase = phase, sp_Label = label, sp_StartedAt = startedAt, sp_EndedAt = 0, DurationMS = 0\<rparr>) st"
  have c: "ComputeSpans other evs = SortFunc (\<lambda>a b. cmp_Compare (sp_StartedAt a) (sp_StartedAt b)) (spans @ opened)"
    by (simp add: ComputeSpans_def l opened_def)
  have "sorted_wrt (\<lambda>a b. sp_StartedAt a \<le> sp_StartedAt b) (ComputeSpans other evs)"
    unfolding c using cmp_on.sorted_SortFunc[of sp_StartedAt "spans @ opened"] by simp
  moreover have "open_since other evs (span_key r) (sp_StartedAt r) \<and> sp_EndedAt r = 0 \<and> DurationMS r = 0" if "r \<in> set opened" for r
    using that inv(2) wf_map_get_iff[OF inv(1)] by (auto simp: opened_def span_key_def)
  moreover have "(k, t) \<in> (\<lambda>r. (span_key r, sp_StartedAt r)) ` set (ComputeSpans other evs)" if "open_since other evs k t" for k t
  proof -
    have "(k, t) \<in> set st" using that inv(2) wf_map_get_iff[OF inv(1)] by blast
    then have "\<lparr>sp_Phase = fst k, sp_Label = snd k, sp_StartedAt = t, sp_EndedAt = 0, DurationMS = 0\<rparr> \<in> set (spans @ opened)"
      unfolding opened_def set_append set_map by (intro UnI2 rev_image_eqI) (auto split: prod.split)
    then show ?thesis unfolding c SortFunc_perm by (rule rev_image_eqI) (simp add: span_key_def)
  qed
  ultimately show ?thesis using inv(3) unfolding list_all_iff c SortFunc_perm by auto
qed

section \<open>Contracts\<close>

lemma good_then: "good_step L s s1 \<Longrightarrow> (store_inv L s1 \<Longrightarrow> good_step L s1 s2) \<Longrightarrow> good_step L s s2"
  using good_step_trans good_step_inv by blast

lemma InsertEvent_good:
  assumes "store_inv L s"
  shows "good_step L s (fst (InsertEvent ctx i ty data now s))"
proof -
  define s1 where "s1 = ensureEventsLoadedLocked i s"
  have f1: "frame_step s s1" unfolding s1_def by (rule ensure_loaded_frame)
  have f2: "frame_step s1 (s1\<lparr>backend := fst (SaveEvent i k e (backend s1))\<rparr>)" for k e
    by (auto simp: SaveEvent_def intro!: frame_put_dir)
  have f3: "frame_step s1 (s1\<lparr>backend := fst (SaveEvent i k e (backend s1)), events := x, nextSeq := y\<rparr>)" for k e x y
    by (rule frame_step_trans[OF f2[of k e]]) (simp add: frame_step_def same_limits_def)
  have "frame_step s (fst (InsertEvent ctx i ty data now s))"
    using frame_step_trans[OF f1 f2] frame_step_trans[OF f1 f3]
    by (auto simp: InsertEvent_def s1_def[symmetric] Let_def split: prod.split sum.split) (metis fst_conv)+
  then show ?thesis by (rule frame_good_step[OF assms])
qed

lemma GetEvents_good:
  assumes "store_inv L s"
  shows "good_step L s (fst (GetEvents i s))" "good_step L s (fst (GetEventsPage i after limit types s))"
  using frame_good_step[OF assms ensure_loaded_frame] by (simp_all add: GetEvents_def GetEventsPage_def Let_def)

lemma compactTaskEvents_good:
  assumes "store_inv L s"
  shows "good_step L s (fst (compactTaskEvents i q s))"
proof -
  have "frame_step s (s\<lparr>backend := fst (CompactEvents i evs (backend s))\<rparr>)" for evs
    by (auto simp: CompactEvents_def Let_def intro!: frame_put_dir)
  then have "frame_step s (fst (compactTaskEvents i q s))"
    by (auto simp: compactTaskEvents_def Let_def split: prod.split) (metis fst_conv)
  then show ?thesis by (rule frame_good_step[OF assms])
qed

lemma run_compaction_good:
  assumes "store_inv L s"
  shows "good_step L s (run_compaction n s)"
proof -
  have "good_step L s (s\<lparr>compactions := c\<rparr>)" for c by (rule frame_good_step[OF assms frame_simple(4)])
  then show ?thesis
    using assms by (auto simp: run_compaction_def good_step_refl split: prod.split
        intro: good_then[OF _ compactTaskEvents_good])
qed

lemma mark_truncated_good: "store_inv L s \<Longrightarrow> good_step L s (fst (mark_truncated b i turn now s))"
  using update_good(37) by (auto simp: mark_truncated_def good_step_refl)

lemma not_tombstone [simp]: "stdout_key turn \<noteq> ''tombstone.json''" "stderr_key turn \<noteq> ''tombstone.json''"
  by (simp_all add: stdout_key_def stderr_key_def)

lemma SaveTurnOutput_good:
  assumes "store_inv L s"
  shows "good_step L s (fst (SaveTurnOutput i turn out err now s))"
proof -
  have b: "good_step L s (s\<lparr>backend := fst (SaveBlob i key d (backend s))\<rparr>)" if "key \<noteq> ''tombstone.json''" "store_inv L s" for s key d
    using frame_good_step[OF that(2) frame_SaveBlob[OF that(1)]] .
  have b': "good_step L s (s\<lparr>backend := b1\<rparr>)" if "SaveBlob i key d (backend s) = (b1, r)" "key \<noteq> ''tombstone.json''" "store_inv L s"
    for s key d b1 r using b[OF that(2,3), of d] that(1) by simp
  obtain o1 n where o1: "truncateTurnData out s = (o1, n)" by fastforce
  obtain b1 r1 where b1: "SaveBlob i (stdout_key turn) (BBytes o1) (backend s) = (b1, r1)" by fastforce
  have g1: "good_step L s (s\<lparr>backend := b1\<rparr>)" using b'[OF b1] assms by simp
  obtain e1 m where e1: "truncateTurnData err (s\<lparr>backend := b1\<rparr>) = (e1, m)" by fastforce
  obtain b2 r2 where b2: "SaveBlob i (stderr_key turn) (BBytes e1) b1 = (b2, r2)" by fastforce
  have "good_step L (s\<lparr>backend := b1\<rparr>) (s\<lparr>backend := b1, backend := b2\<rparr>)"
    using b'[of "stderr_key turn" "BBytes e1" "s\<lparr>backend := b1\<rparr>" b2 r2] b2 good_step_inv[OF g1] by simp
  with g1 have g2: "good_step L s (s\<lparr>backend := b2\<rparr>)" using good_step_trans by fastforce
  show ?thesis
    using g1 g2 by (cases r1; cases r2; cases "err = []")
      (auto simp: SaveTurnOutput_def o1 b1 e1 b2 Let_def intro: good_then[OF _ mark_truncated_good])
qed

lemma AppendTurnUsage_good:
  assumes "store_inv L s"
  shows "good_step L s (fst (AppendTurnUsage i rec s))"
proof -
  have "frame_step s (fst (AppendTurnUsage i rec s))"
    by (auto simp: AppendTurnUsage_def dir_at_def map_at_def intro!: frame_put_dir split: option.split)
  then show ?thesis by (rule frame_good_step[OF assms])
qed

lemma oversight_good:
  assumes "store_inv L s"
  shows "good_step L s (fst (SaveOversight L i ov s))" "good_step L s (fst (SaveTestOversight i ov s))"
    "good_step L s (fst (SaveSummary i summary s))"
proof -
  have b: "good_step L s (s\<lparr>backend := b1\<rparr>)" if "SaveBlob i key d (backend s) = (b1, r)" "key \<noteq> ''tombstone.json''" for key d b1 r
    using frame_good_step[OF assms frame_SaveBlob[OF that(2), of s i d]] that(1) by simp
  then show "good_step L s (fst (SaveTestOversight i ov s))" "good_step L s (fst (SaveSummary i summary s))"
    by (auto simp: SaveTestOversight_def SaveSummary_def split: prod.split)
  define g :: "indexedTaskText \<Rightarrow> indexedTaskText" where "g = (\<lambda>e. e\<lparr>ix_oversight := lower L (oversightText ov), ix_oversightRaw := oversightText ov\<rparr>)"
  have u: "good_step L s' (updateIndexEntry i g s')" if inv: "store_inv L s'" for s'
  proof -
    have "entry_ok L t (g e)" if "entry_ok L t e" for t e using that by (simp add: g_def entry_ok_def)
    then have "wf_store L (updateIndexEntry i g s')"
      using inv unfolding store_inv_def wf_store_def keys_ok_def status_ok_def index_ok_def slot_ok_iff by auto
    then show ?thesis
      using inv by (auto simp: good_step_def store_inv_def durable_def tomb_ok_def persisted_def
          updateIndexEntry_def same_limits_def emits_def pruneTaskPayload_def intro: exI[of _ "[]"] split: option.split)
  qed
  obtain b1 r where sb: "SaveBlob i ''oversight.json'' (BOversight ov) (backend s) = (b1, r)" by fastforce
  have "good_step L s (s\<lparr>backend := b1\<rparr>)" using b[OF sb] by simp
  then show "good_step L s (fst (SaveOversight L i ov s))"
    using good_step_trans[OF _ u[OF good_step_inv]] by (cases r) (auto simp: SaveOversight_def sb g_def)
qed

end
