(* ===== verification/Store_System.thy ===== *)
theory Store_System
  imports Store_Query Store_Events
begin

text \<open>
  The store as a whole: one rule per exported method that changes state, in any order and
  with any pattern of I/O failures; the invariant of every reachable state; what a client
  that follows the deltas sees; start-up and restart.
\<close>

section \<open>Calls\<close>

inductive store_call :: "lib \<Rightarrow> Store \<Rightarrow> Store \<Rightarrow> bool" for L where
  op_UpdateTaskTitle: "store_call L s (fst (UpdateTaskTitle L i title now s))"
| op_UpdateTaskExecutionPrompt: "store_call L s (fst (UpdateTaskExecutionPrompt i executionPrompt now s))"
| op_UpdateTaskTurns: "store_call L s (fst (UpdateTaskTurns i turns now s))"
| op_UpdateTaskResult: "store_call L s (fst (UpdateTaskResult i result sessionID stopReason turns now s))"
| op_UpdateTaskLineage: "store_call L s (fst (UpdateTaskLineage i lineageJSON now s))"
| op_UpdateTaskReview: "store_call L s (fst (UpdateTaskReview i unresolved headline sessionDir now s))"
| op_UpdateTaskCriteria: "store_call L s (fst (UpdateTaskCriteria i criteria now s))"
| op_ClearReviewResult: "store_call L s (fst (ClearReviewResult i now s))"
| op_AccumulateSubAgentUsage: "store_call L s (fst (AccumulateSubAgentUsage i agent delta now s))"
| op_UpdateTaskPosition: "store_call L s (fst (UpdateTaskPosition i position now s))"
| op_UpdateTaskScheduledAt: "store_call L s (fst (UpdateTaskScheduledAt i scheduledAt now s))"
| op_UpdateTaskDependsOn: "store_call L s (fst (UpdateTaskDependsOn i dependsOn now s))"
| op_UpdateTaskTags: "store_call L s (fst (UpdateTaskTags L i tags now s))"
| op_UpdateTaskBacklog: "store_call L s (fst (UpdateTaskBacklog L i ed now s))"
| op_UpdateTaskBudget: "store_call L s (fst (UpdateTaskBudget i maxCostUSD maxInputTokens now s))"
| op_UpdateTaskSandboxByActivity: "store_call L s (fst (UpdateTaskSandboxByActivity L i sba now s))"
| op_UpdateTaskSandbox: "store_call L s (fst (UpdateTaskSandbox L i sb now s))"
| op_UpdateTaskFlow: "store_call L s (fst (UpdateTaskFlow i flowID now s))"
| op_UpdateTaskModelOverride: "store_call L s (fst (UpdateTaskModelOverride i model now s))"
| op_UpdateTaskCustomPatterns: "store_call L s (fst (UpdateTaskCustomPatterns i passPatterns failPatterns now s))"
| op_UpdateTaskEnvironment: "store_call L s (fst (UpdateTaskEnvironment i env now s))"
| op_SetTaskArchived: "store_call L s (fst (SetTaskArchived i archived now s))"
| op_UpdateRoutineSchedule: "store_call L s (fst (UpdateRoutineSchedule i intervalSeconds now s))"
| op_UpdateRoutineEnabled: "store_call L s (fst (UpdateRoutineEnabled i enabled now s))"
| op_UpdateRoutineNextRun: "store_call L s (fst (UpdateRoutineNextRun i nextRun now s))"
| op_UpdateRoutineLastFiredAt: "store_call L s (fst (UpdateRoutineLastFiredAt i fired now s))"
| op_UpdateTaskWorktrees: "store_call L s (fst (UpdateTaskWorktrees i worktreePaths branchName now s))"
| op_UpdateTaskCommitHashes: "store_call L s (fst (UpdateTaskCommitHashes i hashes now s))"
| op_UpdateTaskTestRun: "store_call L s (fst (UpdateTaskTestRun i isTestRun lastTestResult now s))"
| op_UpdateTaskPendingTestFeedback: "store_call L s (fst (UpdateTaskPendingTestFeedback i message now s))"
| op_IncrementTestFailCount: "store_call L s (fst (IncrementTestFailCount i now s))"
| op_ResetTestFailCount: "store_call L s (fst (ResetTestFailCount i now s))"
| op_SetTaskFailureCategory: "store_call L s (fst (SetTaskFailureCategory i cat now s))"
| op_UpdateTaskCommitMessage: "store_call L s (fst (UpdateTaskCommitMessage i msg now s))"
| op_UpdateTaskSnapshotDiffs: "store_call L s (fst (UpdateTaskSnapshotDiffs i snapshots now s))"
| op_UpdateTaskBaseCommitHashes: "store_call L s (fst (UpdateTaskBaseCommitHashes i hashes now s))"
| op_MarkTurnTruncated: "store_call L s (fst (MarkTurnTruncated i turn now s))"
| op_IncrementAutoRetryCount: "store_call L s (fst (IncrementAutoRetryCount i category now s))"
| op_RecordFetchFailure: "store_call L s (fst (RecordFetchFailure i msg failedAt now s))"
| op_ClearFetchFailure: "store_call L s (fst (ClearFetchFailure i now s))"
| op_UpdateRefinementJob: "store_call L s (fst (UpdateRefinementJob i job now s))"
| op_StartRefinementJobIfIdle: "store_call L s (fst (StartRefinementJobIfIdle i newJob clock now s))"
| op_ApplyRefinement: "store_call L s (fst (ApplyRefinement L i newPrompt session now s))"
| op_DismissRefinement: "store_call L s (fst (DismissRefinement i now s))"
| op_UpdateTaskPromptDirect: "store_call L s (fst (snd (UpdateTaskPromptDirect L i newPrompt now s)))"
| op_UpdateTaskStatus: "store_call L s (fst (UpdateTaskStatus i status started now s))"
| op_ForceUpdateTaskStatus: "store_call L s (fst (ForceUpdateTaskStatus i status started now s))"
| op_ResumeTask: "store_call L s (fst (ResumeTask i timeout started now s))"
| op_ResetTaskForRetry: "store_call L s (fst (ResetTaskForRetry L i newPrompt freshStart retired now s))"
| op_ArchiveAllDone: "store_call L s (fst (ArchiveAllDone now s))"
| op_DeleteTask: "store_call L s (fst (DeleteTask L i reason deletedAt now s))"
| op_CancelTask: "store_call L s (fst (CancelTask L i started now s))"
| op_RestoreTask: "store_call L s (fst (RestoreTask L i s))"
| op_PurgeTask: "store_call L s (fst (PurgeTask i s))"
| op_PurgeExpiredTombstones: "store_call L s (PurgeExpiredTombstones days now s)"
| op_InsertEvent: "store_call L s (fst (InsertEvent ctx i ty data now s))"
| op_GetEvents: "store_call L s (fst (GetEvents i s))"
| op_GetEventsPage: "store_call L s (fst (GetEventsPage i after limit types s))"
| op_SaveTurnOutput: "store_call L s (fst (SaveTurnOutput i turn stdout stderr now s))"
| op_AppendTurnUsage: "store_call L s (fst (AppendTurnUsage i usage s))"
| op_SaveOversight: "store_call L s (fst (SaveOversight L i ov s))"
| op_SaveTestOversight: "store_call L s (fst (SaveTestOversight i ov s))"
| op_SaveSummary: "store_call L s (fst (SaveSummary i summary s))"
| op_RebuildSearchIndex: "store_call L s (fst (RebuildSearchIndex L ctxErr s))"
| op_Close: "store_call L s (Close s)"
| op_run_compaction: "store_call L s (run_compaction n s)"
| op_CreateTask: "fresh_id (if opt_ID opts = 0 then newID else opt_ID opts) s \<Longrightarrow>
     store_call L s (fst (CreateTaskWithOptions L opts newID now s))"

lemma RebuildSearchIndex_good:
  assumes "store_inv L s"
  shows "good_step L s (fst (RebuildSearchIndex L ctxErr s))"
proof -
  have "good_step L s (fst (rebuild_loop L ctxErr ids n s))" if "store_inv L s" for ids n s
    using that
  proof (induction ids arbitrary: n s)
    case (Cons i ids)
    show ?case
    proof (cases "ctxErr i = None \<and> rebuild_snapshot L i s \<noteq> None")
      case True
      then obtain entry where e: "rebuild_snapshot L i s = Some entry" by auto
      obtain s1 c where w: "rebuild_write i entry s = (s1, c)" by fastforce
      then have "good_step L s s1" using rebuild_write_good[OF Cons.prems e] by simp
      then show ?thesis using True e w by (auto intro: good_then[OF _ Cons.IH])
    next
      case False
      then show ?thesis using Cons by (cases "ctxErr i"; cases "rebuild_snapshot L i s") (simp_all add: good_step_refl)
    qed
  qed (simp add: good_step_refl)
  then show ?thesis using assms by (simp add: RebuildSearchIndex_def)
qed

lemma store_call_good:
  assumes "store_call L s s'" "store_inv L s"
  shows "good_step L s s'"
  using assms
proof (induction rule: store_call.induct)
  case (op_CreateTask opts newID now)
  then show ?case using CreateTaskWithOptions_good[OF _ _ refl] by blast
qed (auto simp: PurgeTask_def Close_def
    intro: update_good UpdateTaskPromptDirect_good transition_good ResumeTask_good ResetTaskForRetry_good
      ArchiveAllDone_good DeleteTask_good CancelTask_good RestoreTask_good purge_good PurgeExpiredTombstones_good
      InsertEvent_good GetEvents_good SaveTurnOutput_good AppendTurnUsage_good oversight_good
      RebuildSearchIndex_good run_compaction_good frame_good_step)

section \<open>Histories\<close>

inductive store_step :: "lib \<Rightarrow> Store \<Rightarrow> Store \<Rightarrow> bool" for L where
  call: "store_call L s s' \<Longrightarrow> store_step L s s'"
| subscribe: "store_step L s (fst (store_Subscribe s))"
| unsubscribe: "store_Unsubscribe i s = Some s' \<Longrightarrow> store_step L s s'"
| subscribe_wake: "store_step L s (fst (store_SubscribeWake s))"
| unsubscribe_wake: "store_step L s (store_UnsubscribeWake i s)"
| receive: "store_step L s (s\<lparr>store_hub := fst (Receive a (store_hub s))\<rparr>)"

inductive_cases store_step_elim: "store_step L s s'"

text \<open>Between two steps the set of failing I/O calls may change.\<close>

inductive store_event :: "lib \<Rightarrow> Store \<Rightarrow> Store \<Rightarrow> bool" for L where
  step: "store_step L s s' \<Longrightarrow> store_event L s s'"
| faults: "store_event L s (s\<lparr>backend := (backend s)\<lparr>io_fails := f\<rparr>\<rparr>)"

lemma faults_inv: "store_inv L s \<Longrightarrow> store_inv L (s\<lparr>backend := (backend s)\<lparr>io_fails := f\<rparr>\<rparr>)"
  by (simp add: store_inv_def wf_store_def keys_ok_def status_ok_def index_ok_def durable_def tomb_ok_def
      tombstoned_iff dir_at_def)

definition follows_hub :: "'a list \<Rightarrow> 'a hub \<Rightarrow> 'a hub \<Rightarrow> bool" where
  "follows_hub ds h h' \<longleftrightarrow> (\<forall>f vs. replays f vs h \<longrightarrow> replays f (vs @ ds) h') \<and> replayCap h' = replayCap h"

lemma follows_hub_step:
  assumes "subs_inv h" "hub_step op h = Some h'"
  shows "follows_hub (pub_values [op]) h h'"
proof -
  have "replayCap h' = replayCap h"
    using assms by (cases op) (auto simp: Publish_eq published_def Subscribe_eq Unsubscribe_def SubscribeWake_def
        UnsubscribeWake_def Receive_def split: option.splits if_splits list.splits)
  then show ?thesis using replays_step[OF assms(1) _ assms(2)] by (auto simp: follows_hub_def)
qed

lemma follows_hub_trans: "follows_hub ds h h1 \<Longrightarrow> follows_hub es h1 h2 \<Longrightarrow> follows_hub (ds @ es) h h2"
  unfolding follows_hub_def by (metis append_assoc)

lemma follows_published: "subs_inv h \<Longrightarrow> follows_hub ds h (fold published ds h) \<and> subs_inv (fold published ds h)"
proof (induction ds arbitrary: h)
  case (Cons d ds)
  have "follows_hub [d] h (published d h)"
    using follows_hub_step[OF Cons.prems, of "OpPublish d"] Cons.prems by (simp add: Publish_eq)
  then show ?case
    using Cons.IH[OF subs_inv_published[OF Cons.prems]] follows_hub_trans[of "[d]" h "published d h" ds] by simp
qed (simp add: follows_hub_def)

text \<open>What a step that keeps the contract shows to a follower of the deltas.\<close>

definition tracked :: "TaskDelta list \<Rightarrow> Store \<Rightarrow> Store \<Rightarrow> bool" where
  "tracked ds s s' \<longleftrightarrow> follows_hub ds (store_hub s) (store_hub s')
     \<and> map_get (tasks s') = fold apply_delta ds (map_get (tasks s))"

definition sound_step :: "lib \<Rightarrow> Store \<Rightarrow> Store \<Rightarrow> bool" where
  "sound_step L s s' \<longleftrightarrow> store_inv L s' \<and> same_limits s s' \<and> io_fails (backend s') = io_fails (backend s)
     \<and> (no_save_faults s \<and> persisted s \<longrightarrow> persisted s' \<and> (\<exists>ds. tracked ds s s'))"

lemma good_sound: "store_inv L s \<Longrightarrow> good_step L s s' \<Longrightarrow> sound_step L s s'"
proof -
  assume inv: "store_inv L s" and g: "good_step L s s'"
  have "tracked ds s s'" if "emits ds s s'" for ds
    using that follows_published[of "store_hub s" ds] inv by (simp add: emits_def tracked_def store_inv_def wf_store_def)
  with g show ?thesis by (auto simp: good_step_def sound_step_def)
qed

lemma hub_change_sound:
  assumes "store_inv L s" "hub_step op (store_hub s) = Some h'" "pub_values [op] = []"
  shows "sound_step L s (s\<lparr>store_hub := h'\<rparr>)"
proof -
  have "subs_inv h'" using hub_step_inv[of "store_hub s" op] assms by (auto simp: store_inv_def wf_store_def)
  then have "store_inv L (s\<lparr>store_hub := h'\<rparr>)"
    using assms(1) by (auto simp: store_inv_def wf_store_def keys_ok_def status_ok_def index_ok_def durable_def tomb_ok_def)
  moreover have "follows_hub [] (store_hub s) h'"
    using follows_hub_step[OF _ assms(2)] assms(1,3) by (simp add: store_inv_def wf_store_def)
  ultimately show ?thesis
    by (auto simp: sound_step_def same_limits_def persisted_def pruneTaskPayload_def tracked_def intro!: exI[of _ "[]"])
qed

lemma store_step_sound:
  assumes "store_step L s s'" "store_inv L s"
  shows "sound_step L s s'"
  using assms(1)
proof cases
  case call
  then show ?thesis by (intro good_sound[OF assms(2)] store_call_good[OF _ assms(2)])
next
  case subscribe
  then show ?thesis
    using hub_change_sound[OF assms(2), of OpSubscribe] by (cases "Subscribe (store_hub s)") (simp add: store_Subscribe_def)
next
  case (unsubscribe i)
  then obtain h where "Unsubscribe i (store_hub s) = Some h" "s' = s\<lparr>store_hub := h\<rparr>"
    by (auto simp: store_Unsubscribe_def split: option.splits)
  then show ?thesis using hub_change_sound[OF assms(2), of "OpUnsubscribe i" h] by simp
next
  case subscribe_wake
  then show ?thesis
    using hub_change_sound[OF assms(2), of OpSubscribeWake] by (cases "SubscribeWake (store_hub s)") (simp add: store_SubscribeWake_def)
next
  case (unsubscribe_wake i)
  then show ?thesis
    using hub_change_sound[OF assms(2), of "OpUnsubscribeWake i"] by (simp add: store_UnsubscribeWake_def)
next
  case (receive a)
  then show ?thesis using hub_change_sound[OF assms(2), of "OpReceive a"] by simp
qed

lemma sound_step_trans:
  assumes "sound_step L s s1" "sound_step L s1 s2"
  shows "sound_step L s s2"
proof -
  have "\<exists>ds. tracked ds s s2" if "tracked ds s s1" "tracked es s1 s2" for ds es
    using that follows_hub_trans[of ds "store_hub s" "store_hub s1" es "store_hub s2"]
    by (intro exI[of _ "ds @ es"]) (simp add: tracked_def)
  with assms show ?thesis by (auto simp: sound_step_def same_limits_def no_save_faults_def)
qed

lemma store_run_sound:
  assumes "(store_step L)\<^sup>*\<^sup>* s s'" "store_inv L s"
  shows "sound_step L s s'"
  using assms(1)
proof (induction rule: rtranclp_induct)
  case base
  then show ?case
    using assms(2) by (auto simp: sound_step_def same_limits_def tracked_def follows_hub_def intro!: exI[of _ "[]"])
next
  case (step s1 s2)
  then show ?case using store_step_sound sound_step_trans by (metis sound_step_def)
qed

section \<open>Properties of every history\<close>



lemma snapshot_map:
  assumes "store_inv L s"
  shows "map_of (map (\<lambda>t. (ID t, t)) (fst (ListTasksAndSeq True s))) = map_get (tasks s)"
proof
  fix i
  define ts where "ts = fst (ListTasksAndSeq True s)"
  have mem: "t \<in> set ts \<longleftrightarrow> map_get (tasks s) (ID t) = Some t" for t
    using task_values(2)[OF assms, of t] by (simp add: ts_def ListTasksAndSeq_def)
  have "distinct ts" using task_values(1)[OF assms] by (simp add: ts_def ListTasksAndSeq_def)
  moreover have "inj_on ID (set ts)" by (rule inj_onI) (metis mem option.inject)
  ultimately have d: "distinct (map fst (map (\<lambda>t. (ID t, t)) ts))" by (simp add: distinct_map comp_def)
  show "map_of (map (\<lambda>t. (ID t, t)) ts) i = map_get (tasks s) i"
  proof (cases "map_get (tasks s) i")
    case None
    then have "i \<notin> ID ` set ts" using mem by force
    then have "map_of (map (\<lambda>t. (ID t, t)) ts) i = None" unfolding map_of_eq_None_iff by (auto simp: image_iff)
    with None show ?thesis by (simp only:)
  next
    case (Some t)
    then have "t \<in> set ts" "ID t = i" using mem inv_in_tasks(1)[OF assms Some] by auto
    then show ?thesis using Some wf_map_get_iff[OF d, of i t] by (auto simp: image_iff)
  qed
qed

definition live_hub :: "TaskDelta hub \<Rightarrow> bool" where
  "live_hub h \<longleftrightarrow> 0 < replayCap h \<and> (\<exists>vs. replays (\<lambda>d. d) vs h)"


lemma sample_hub_live: "live_hub (store_hub (sample_store L ts))"
proof -
  have hub: "store_hub (fold (install L) ts s) = fold published (map update_delta ts) (store_hub s)" for s
    by (induction ts arbitrary: s) (simp_all add: install_def)
  have e: "subs_inv (store_hub (empty_store lm b))" "replays (\<lambda>d. d) [] (store_hub (empty_store lm b))"
    "0 < replayCap (store_hub (empty_store lm b))" for lm b
    by (simp_all add: empty_store_def NewHub_def WithClone_def subs_inv_def replays_def cloneValue_def replay_of_def fun_eq_iff)
  show ?thesis
    using follows_published[OF e(1), of "map update_delta ts" DefaultLimits quiet_disk] e(2,3)[of DefaultLimits quiet_disk]
    by (fastforce simp: live_hub_def sample_store_def hub follows_hub_def)
qed


end
