(* ===== verification/Store_Startup.thy ===== *)
theory Store_Startup
  imports Store_System
begin

text \<open>
  Start-up and failed writes. \<open>NewStore\<close> establishes the invariant from any directory whose
  files sit under their own identifier, and loads exactly the readable tasks; together with
  the histories of \<open>Store_System\<close> this gives recovery after a restart. The last section shows
  the state that a failed task write leaves behind.
\<close>

section \<open>Loading the task files\<close>

definition only_files_changed :: "backend \<Rightarrow> backend \<Rightarrow> bool" where
  "only_files_changed b b' \<longleftrightarrow> io_fails b' = io_fails b
     \<and> (\<forall>i. (map_get (dirs b') i = None) = (map_get (dirs b) i = None)
          \<and> dir_at b' i = (dir_at b i)\<lparr>task_file := task_file (dir_at b' i)\<rparr>)"

lemma only_files_refl [simp]: "only_files_changed b b"
  by (simp add: only_files_changed_def)

lemma only_files_trans: "only_files_changed b b1 \<Longrightarrow> only_files_changed b1 b2 \<Longrightarrow> only_files_changed b b2"
  unfolding only_files_changed_def by (intro conjI allI; elim conjE; simp; (drule_tac x = i in spec)+; elim conjE)
    (metis (lifting) taskdir.update_convs(1) taskdir.surjective)

lemma only_files_SaveTask: "only_files_changed b (fst (SaveTask t b))"
  by (auto simp: SaveTask_def only_files_changed_def put_dir_def dir_at_def map_at_def split: option.split)

definition read_task :: "lib \<Rightarrow> (uuid \<Rightarrow> time) \<Rightarrow> backend \<Rightarrow> uuid \<times> taskdir \<Rightarrow> Task option" where
  "read_task L mtime b p =
     (case task_file (snd p) of
        None \<Rightarrow> None
      | Some raw \<Rightarrow>
          if io_fails b (IOReadTask (fst p)) then None
          else case migrateTaskJSON L raw (mtime (fst p)) of Inl _ \<Rightarrow> None | Inr (t, changed) \<Rightarrow> Some t)"

lemma load_tasks_spec:
  "only_files_changed b (fst (load_tasks L mtime ds (b, ts)))
   \<and> snd (load_tasks L mtime ds (b, ts)) = ts @ List.map_filter (read_task L mtime b) ds"
proof (induction ds arbitrary: b ts)
  case (Cons p ds)
  obtain i d where p: "p = (i, d)" by (cases p)
  define r where "r = (case task_file d of
          None \<Rightarrow> (b, ts)
        | Some raw \<Rightarrow>
            if io_fails b (IOReadTask i) then (b, ts)
            else (case migrateTaskJSON L raw (mtime i) of
                    Inl _ \<Rightarrow> (b, ts)
                  | Inr (t, changed) \<Rightarrow> (if changed then fst (SaveTask t b) else b, ts @ [t])))"
  obtain b1 ts1 where r1: "r = (b1, ts1)" by fastforce
  have b1: "only_files_changed b b1"
    using r1 by (auto simp: r_def only_files_SaveTask split: option.splits if_splits sum.splits prod.splits)
  have ts1: "ts1 = ts @ List.map_filter (read_task L mtime b) [p]"
    using r1 by (auto simp: r_def read_task_def p map_filter_def split: option.splits if_splits sum.splits prod.splits)
  have "read_task L mtime b1 = read_task L mtime b"
    using b1 unfolding only_files_changed_def by (intro ext) (simp only: read_task_def)
  then show ?case
    using Cons.IH[of b1 ts1] only_files_trans[OF b1] ts1
    by (simp add: p r_def[symmetric] r1 map_filter_def)
qed (simp add: map_filter_def)

definition disk_ok :: "backend \<Rightarrow> bool" where
  "disk_ok b \<longleftrightarrow> wf_map (dirs b) \<and> (\<forall>i d t. map_get (dirs b) i = Some d \<longrightarrow> task_file d = Some (Some t) \<longrightarrow> ID t = i)"

text \<open>The task that start-up finds in the directory of an identifier.\<close>

definition stored :: "lib \<Rightarrow> (uuid \<Rightarrow> time) \<Rightarrow> backend \<Rightarrow> uuid \<Rightarrow> Task option" where
  "stored L mtime b i = read_task L mtime b (i, dir_at b i)"

lemma read_task_ID:
  assumes "disk_ok b" "(i, d) \<in> set (dirs b)" "read_task L mtime b (i, d) = Some t"
  shows "ID t = i" "stored L mtime b i = Some t" "map_get (dirs b) i = Some d"
proof -
  show d: "map_get (dirs b) i = Some d" using assms(1,2) by (simp add: disk_ok_def wf_map_get_iff)
  then show "stored L mtime b i = Some t" using assms(3) by (simp add: stored_def dir_at_def map_at_def)
  obtain raw c where raw: "task_file d = Some raw" "migrateTaskJSON L raw (mtime i) = Inr (t, c)"
    using assms(3) by (auto simp: read_task_def split: option.splits if_splits sum.splits)
  then obtain t0 where t0: "raw = Some t0" by (cases raw) (auto simp: migrateTaskJSON_def)
  obtain t1 ptr c1 where m: "migrate_Model t0 = (t1, ptr, c1)" by (metis prod_cases3)
  have "ID t1 = ID t0" using m by (auto simp: migrate_Model_def split: if_splits)
  moreover have "ID (fst (migrate_fields L (mtime i) (t1, c1))) = ID t1"
    using migrate_fields_ok[of L "mtime i" "(t1, c1)"] by (simp add: refines_task_def)
  ultimately have "ID t = ID t0"
    using raw(2) by (auto simp: migrateTaskJSON_def t0 m split: prod.splits)
  then show "ID t = i" using assms(1) d raw(1) t0 by (simp add: disk_ok_def)
qed

lemma LoadAll_spec:
  assumes "disk_ok b" "LoadAll L mtime b = (b', Inr ts)"
  shows "only_files_changed b b'" "distinct (map ID ts)" "map_of (map (\<lambda>t. (ID t, t)) ts) = stored L mtime b"
proof -
  have lt: "load_tasks L mtime (dirs b) (b, []) = (b', ts)"
    using assms(2) by (auto simp: LoadAll_def Let_def split: if_splits prod.splits)
  then have ts: "ts = List.map_filter (read_task L mtime b) (dirs b)" and b': "only_files_changed b b'"
    using load_tasks_spec[of b L mtime "dirs b" "[]"] by auto
  show "only_files_changed b b'" by (rule b')
  have wf: "wf_map (dirs b)" using assms(1) by (simp add: disk_ok_def)
  have ids: "map ID ts = map fst (filter (\<lambda>p. read_task L mtime b p \<noteq> None) (dirs b))"
    unfolding ts map_filter_def map_map
    by (rule map_cong[OF refl]) (use read_task_ID(1)[OF assms(1)] in fastforce)
  then show d: "distinct (map ID ts)" using wf by (simp add: distinct_map_filter)
  show "map_of (map (\<lambda>t. (ID t, t)) ts) = stored L mtime b"
  proof
    fix i
    show "map_of (map (\<lambda>t. (ID t, t)) ts) i = stored L mtime b i"
    proof (cases "stored L mtime b i")
      case None
      have "i \<notin> ID ` set ts"
      proof
        assume "i \<in> ID ` set ts"
        then obtain p where p: "p \<in> set (dirs b)" "read_task L mtime b p \<noteq> None" "fst p = i"
          using arg_cong[OF ids, of set] by auto
        then show False using None read_task_ID(2)[OF assms(1), of i "snd p" L mtime] by (cases p) auto
      qed
      then have "map_of (map (\<lambda>t. (ID t, t)) ts) i = None" unfolding map_of_eq_None_iff by (auto simp: image_iff)
      with None show ?thesis by (simp only:)
    next
      case (Some t)
      then have "map_get (dirs b) i \<noteq> None"
        by (cases "map_get (dirs b) i") (auto simp: stored_def read_task_def dir_at_def map_at_def empty_dir_def)
      then obtain dd where "(i, dd) \<in> set (dirs b)" "dir_at b i = dd" using wf by (auto simp: dir_at_def map_at_def wf_map_get_iff)
      moreover from this have r: "read_task L mtime b (i, dd) = Some t" using Some by (simp add: stored_def)
      ultimately have "t \<in> set ts" "ID t = i" using read_task_ID(1)[OF assms(1)] unfolding ts map_filter_def by force+
      then have "(i, t) \<in> set (map (\<lambda>t. (ID t, t)) ts)" by force
      moreover have "wf_map (map (\<lambda>t. (ID t, t)) ts)" using d by (simp add: comp_def)
      ultimately show ?thesis using Some wf_map_get_iff by metis
    qed
  qed
qed

section \<open>Filling the store\<close>

definition loading_inv :: "lib \<Rightarrow> Store \<Rightarrow> bool" where
  "loading_inv L s \<longleftrightarrow> keys_ok s \<and> index_ok L s \<and> durable s \<and> tomb_ok s"

definition tombs_readable :: "backend \<Rightarrow> bool" where
  "tombs_readable b \<longleftrightarrow> (\<forall>i. \<not> io_fails b (IOReadBlob i ''tombstone.json''))"

lemma loadEvents_frame:
  assumes "loadEvents i s = (s', r)"
  shows "backend s' = backend s" "tasks s' = tasks s" "deleted s' = deleted s" "searchIndex s' = searchIndex s"
    "tasksByStatus s' = tasksByStatus s" "store_hub s' = store_hub s" "same_limits s s'"
  using assms by (auto simp: loadEvents_def same_limits_def split: sum.splits)

lemma load_one_effect:
  assumes "load_one L t s = (s', Inr ())" "tombs_readable (backend s)"
  shows "backend s' = backend s" "tasksByStatus s' = tasksByStatus s" "store_hub s' = store_hub s" "same_limits s s'"
    "tombstoned (ID t) (backend s) \<Longrightarrow> tasks s' = tasks s \<and> searchIndex s' = searchIndex s
       \<and> deleted s' = map_put (ID t) t (deleted s)"
    "\<not> tombstoned (ID t) (backend s) \<Longrightarrow> deleted s' = deleted s
       \<and> tasks s' = map_put (ID t) (pruneTaskPayload s t) (tasks s)
       \<and> (\<exists>raw. searchIndex s' = map_put (ID t) (buildIndexEntry L (pruneTaskPayload s t) raw) (searchIndex s))"
proof -
  have tomb: "(\<exists>x. ReadBlob (ID t) ''tombstone.json'' (backend s) = Inr x) \<longleftrightarrow> tombstoned (ID t) (backend s)"
    using assms(2) by (auto simp: ReadBlob_def tombstoned_iff tombs_readable_def split: option.split)
  show "backend s' = backend s" "tasksByStatus s' = tasksByStatus s" "store_hub s' = store_hub s" "same_limits s s'"
    "tombstoned (ID t) (backend s) \<Longrightarrow> tasks s' = tasks s \<and> searchIndex s' = searchIndex s
       \<and> deleted s' = map_put (ID t) t (deleted s)"
    "\<not> tombstoned (ID t) (backend s) \<Longrightarrow> deleted s' = deleted s
       \<and> tasks s' = map_put (ID t) (pruneTaskPayload s t) (tasks s)
       \<and> (\<exists>raw. searchIndex s' = map_put (ID t) (buildIndexEntry L (pruneTaskPayload s t) raw) (searchIndex s))"
    using assms(1) tomb
    by (auto simp: load_one_def Let_def and_then_def loadEvents_def same_limits_def
        split: sum.splits if_splits prod.splits)
qed

lemma load_one_inv:
  assumes "loading_inv L s" "load_one L t s = (s', Inr ())" "tombs_readable (backend s)"
    "map_get (dirs (backend s)) (ID t) \<noteq> None"
  shows "loading_inv L s'"
proof (cases "tombstoned (ID t) (backend s)")
  case True
  with load_one_effect[OF assms(2,3)] assms(1,4) show ?thesis
    by (auto simp: loading_inv_def keys_ok_def index_ok_def durable_def tomb_ok_def)
next
  case False
  then obtain raw where e: "searchIndex s' = map_put (ID t) (buildIndexEntry L (pruneTaskPayload s t) raw) (searchIndex s)"
    "deleted s' = deleted s" "tasks s' = map_put (ID t) (pruneTaskPayload s t) (tasks s)"
    using load_one_effect(6)[OF assms(2,3)] by blast
  have "map_get (deleted s) (ID t) = None" using assms(1) False by (auto simp: loading_inv_def tomb_ok_def)
  with e False load_one_effect(1)[OF assms(2,3)] assms(1,4) show ?thesis
    by (auto simp: loading_inv_def keys_ok_def index_ok_def durable_def tomb_ok_def)
qed

lemma load_each_inv:
  assumes "load_each L ts s = (s', Inr ())" "loading_inv L s" "tombs_readable (backend s)" "distinct (map ID ts)"
    "\<forall>t \<in> set ts. map_get (dirs (backend s)) (ID t) \<noteq> None"
  shows "loading_inv L s' \<and> backend s' = backend s \<and> tasksByStatus s' = tasksByStatus s
    \<and> store_hub s' = store_hub s \<and> same_limits s s'
    \<and> (\<forall>i. map_get (tasks s') i = (case map_of (map (\<lambda>t. (ID t, t)) ts) i of
            Some t \<Rightarrow> if tombstoned i (backend s) then map_get (tasks s) i else Some (pruneTaskPayload s t)
          | None \<Rightarrow> map_get (tasks s) i))
    \<and> (\<forall>i. map_get (deleted s') i = (case map_of (map (\<lambda>t. (ID t, t)) ts) i of
            Some t \<Rightarrow> if tombstoned i (backend s) then Some t else map_get (deleted s) i
          | None \<Rightarrow> map_get (deleted s) i))"
  using assms
proof (induction ts arbitrary: s)
  case (Cons t ts)
  obtain s1 where s1: "load_one L t s = (s1, Inr ())" "load_each L ts s1 = (s', Inr ())"
    using Cons.prems(1) by (auto simp: and_then_def split: prod.splits sum.splits)
  note e = load_one_effect[OF s1(1) Cons.prems(3)]
  have inv1: "loading_inv L s1" using load_one_inv[OF Cons.prems(2) s1(1) Cons.prems(3)] Cons.prems(5) by simp
  have fresh: "map_of (map (\<lambda>t. (ID t, t)) ts) (ID t) = None"
    using Cons.prems(4) by (auto simp: map_of_eq_None_iff image_iff)
  have prune: "pruneTaskPayload s1 = pruneTaskPayload s"
    using e(4) by (simp add: fun_eq_iff same_limits_def pruneTaskPayload_def)
  have IH: "loading_inv L s' \<and> backend s' = backend s1 \<and> tasksByStatus s' = tasksByStatus s1
    \<and> store_hub s' = store_hub s1 \<and> same_limits s1 s'
    \<and> (\<forall>i. map_get (tasks s') i = (case map_of (map (\<lambda>t. (ID t, t)) ts) i of
            Some t \<Rightarrow> if tombstoned i (backend s1) then map_get (tasks s1) i else Some (pruneTaskPayload s1 t)
          | None \<Rightarrow> map_get (tasks s1) i))
    \<and> (\<forall>i. map_get (deleted s') i = (case map_of (map (\<lambda>t. (ID t, t)) ts) i of
            Some t \<Rightarrow> if tombstoned i (backend s1) then Some t else map_get (deleted s1) i
          | None \<Rightarrow> map_get (deleted s1) i))"
    using Cons.prems(3-5) e(1) by (intro Cons.IH[OF s1(2) inv1]) auto
  have T: "map_get (tasks s1) i = (if i = ID t \<and> \<not> tombstoned i (backend s) then Some (pruneTaskPayload s t) else map_get (tasks s) i)"
    and D: "map_get (deleted s1) i = (if i = ID t \<and> tombstoned i (backend s) then Some t else map_get (deleted s) i)" for i
    using e(5)[THEN conjunct1] e(5)[THEN conjunct2] e(6)[THEN conjunct1] e(6)[THEN conjunct2, THEN conjunct1]
    by (cases "tombstoned (ID t) (backend s)"; cases "i = ID t"; simp)+
  note IHs = IH[THEN conjunct2, THEN conjunct2, THEN conjunct2, THEN conjunct2, THEN conjunct2]
  have "map_get (tasks s') i = (case map_of (map (\<lambda>t. (ID t, t)) (t # ts)) i of
            Some t \<Rightarrow> if tombstoned i (backend s) then map_get (tasks s) i else Some (pruneTaskPayload s t)
          | None \<Rightarrow> map_get (tasks s) i)" for i
    using IHs[THEN conjunct1, rule_format, of i] fresh by (cases "i = ID t") (simp_all add: T prune e(1) split: option.split)
  moreover have "map_get (deleted s') i = (case map_of (map (\<lambda>t. (ID t, t)) (t # ts)) i of
            Some t \<Rightarrow> if tombstoned i (backend s) then Some t else map_get (deleted s) i
          | None \<Rightarrow> map_get (deleted s) i)" for i
    using IHs[THEN conjunct2, rule_format, of i] fresh by (cases "i = ID t") (simp_all add: D e(1) split: option.split)
  moreover have "loading_inv L s'" "backend s' = backend s" "tasksByStatus s' = tasksByStatus s"
    "store_hub s' = store_hub s" "same_limits s s'"
    using IH e(1-4) same_limits_trans[OF e(4)] by simp_all
  ultimately show ?case by blast
qed (simp add: same_limits_def)

definition index_all :: "(uuid, Task) gomap \<Rightarrow> Store \<Rightarrow> Store" where
  "index_all ts = fold (\<lambda>(i, t). addToStatusIndex (Status t) i) ts"

lemma index_all_frame [simp]:
  "backend (index_all ts s) = backend s" "tasks (index_all ts s) = tasks s" "deleted (index_all ts s) = deleted s"
  "searchIndex (index_all ts s) = searchIndex s" "store_hub (index_all ts s) = store_hub s"
  "same_limits s (index_all ts s)"
  unfolding index_all_def same_limits_def
  by (induction ts arbitrary: s) (simp_all add: addToStatusIndex_def case_prod_beta)

lemma index_all_status:
  "set (map_at [] (tasksByStatus (index_all ts s)) st)
     = set (map_at [] (tasksByStatus s) st) \<union> {i. \<exists>t. (i, t) \<in> set ts \<and> Status t = st}"
  "distinct (map_at [] (tasksByStatus s) st) \<Longrightarrow> distinct (map_at [] (tasksByStatus (index_all ts s)) st)"
  unfolding index_all_def by (induction ts arbitrary: s) (auto split: if_splits)

lemma status_ok_index_all:
  assumes "keys_ok s" "tasksByStatus s = []"
  shows "status_ok (index_all (tasks s) s)"
proof -
  have "map_at [] (tasksByStatus s) st = []" for st by (simp add: assms(2) map_at_def)
  moreover have "(\<exists>t. (i, t) \<in> set (tasks s) \<and> Status t = st) \<longleftrightarrow> map_option Status (map_get (tasks s) i) = Some st" for i st
    using wf_map_get_iff[of "tasks s" i] assms(1) by (auto simp: keys_ok_def)
  ultimately show ?thesis by (simp add: status_ok_def index_all_status)
qed

lemma only_files_tombs:
  assumes "only_files_changed b b'"
  shows "tombstoned i b' \<longleftrightarrow> tombstoned i b" "map_get (dirs b') i = None \<longleftrightarrow> map_get (dirs b) i = None"
    "io_fails b' = io_fails b"
proof -
  have "blobs (dir_at b' i) = blobs (dir_at b i)"
    using assms unfolding only_files_changed_def by (metis taskdir.ext_inject taskdir.surjective taskdir.update_convs(1))
  then show "tombstoned i b' \<longleftrightarrow> tombstoned i b" by (simp add: tombstoned_iff)
qed (use assms in \<open>simp_all add: only_files_changed_def\<close>)

lemma stored_dir: "stored L mtime b i = Some t \<Longrightarrow> map_get (dirs b) i \<noteq> None"
  by (cases "map_get (dirs b) i") (auto simp: stored_def read_task_def dir_at_def map_at_def empty_dir_def)

definition recovered :: "lib \<Rightarrow> (uuid \<Rightarrow> time) \<Rightarrow> backend \<Rightarrow> Store \<Rightarrow> bool" where
  "recovered L mtime b s \<longleftrightarrow> (\<forall>i.
     map_get (tasks s) i = (if tombstoned i b then None else map_option (pruneTaskPayload s) (stored L mtime b i))
     \<and> map_get (deleted s) i = (if tombstoned i b then stored L mtime b i else None))"

lemma NewStore_loads:
  assumes "disk_ok b" "tombs_readable b" "NewStore L mtime lm b = (s, Inr ())"
  shows "store_inv L s \<and> recovered L mtime b s"
proof -
  obtain s1 where s1: "loadAll L mtime (empty_store lm b) = (s1, Inr ())" and s: "s = index_all (tasks s1) s1"
    using assms(3) by (auto simp: NewStore_def and_then_def index_all_def split: prod.splits sum.splits)
  obtain b' ts where la: "LoadAll L mtime b = (b', Inr ts)" and le: "load_each L ts ((empty_store lm b)\<lparr>backend := b'\<rparr>) = (s1, Inr ())"
    using s1 by (auto simp: loadAll_def empty_store_def split: prod.splits sum.splits)
  note spec = LoadAll_spec[OF assms(1) la]
  note tombs = only_files_tombs[OF spec(1)]
  define e where "e = (empty_store lm b)\<lparr>backend := b'\<rparr>"
  have empty: "tasks e = []" "deleted e = []" "searchIndex e = []" "tasksByStatus e = []" "backend e = b'"
    "subs_inv (store_hub e)"
    using empty_store_inv(1)[of L lm] by (simp_all add: e_def empty_store_def store_inv_def wf_store_def)
  have "loading_inv L e"
    by (simp add: loading_inv_def keys_ok_def index_ok_def durable_def tomb_ok_def empty)
  moreover have "\<forall>t \<in> set ts. map_get (dirs b') (ID t) \<noteq> None"
  proof
    fix t assume "t \<in> set ts"
    then have "map_of (map (\<lambda>t. (ID t, t)) ts) (ID t) \<noteq> None"
      unfolding map_of_eq_None_iff by (auto simp: image_iff)
    then show "map_get (dirs b') (ID t) \<noteq> None" using stored_dir[of L mtime b "ID t"] tombs(2) unfolding spec(3) by auto
  qed
  moreover have "tombs_readable b'" using assms(2) tombs(3) by (simp add: tombs_readable_def)
  ultimately have l: "loading_inv L s1" "backend s1 = b'" "tasksByStatus s1 = []" "store_hub s1 = store_hub e" "same_limits e s1"
    "\<And>i. map_get (tasks s1) i = (case stored L mtime b i of
            Some t \<Rightarrow> if tombstoned i b then None else Some (pruneTaskPayload e t) | None \<Rightarrow> None)"
    "\<And>i. map_get (deleted s1) i = (case stored L mtime b i of
            Some t \<Rightarrow> if tombstoned i b then Some t else None | None \<Rightarrow> None)"
    using load_each_inv[OF le[folded e_def] _ _ spec(2)] by (simp_all add: empty spec(3) tombs(1) split: option.split)
  have "keys_ok s" "index_ok L s" "durable s" "tomb_ok s" "status_ok s"
    using l(1) status_ok_index_all[OF _ l(3)] unfolding s
    by (simp_all add: loading_inv_def keys_ok_def index_ok_def durable_def tomb_ok_def)
  then have "store_inv L s" using empty(6) l(4) by (simp add: store_inv_def wf_store_def s)
  moreover have "pruneTaskPayload s = pruneTaskPayload e"
    using l(5) index_all_frame(6)[of s1 "tasks s1"] unfolding s by (simp add: fun_eq_iff same_limits_def pruneTaskPayload_def)
  ultimately show ?thesis using l(6,7) by (simp add: recovered_def s split: option.split)
qed

section \<open>Recovery\<close>

lemma load_each_total:
  assumes "\<forall>c. \<not> io_fails (backend s) c"
  shows "\<exists>s'. load_each L ts s = (s', Inr ())"
  using assms
proof (induction ts arbitrary: s)
  case (Cons t ts)
  have ev: "\<exists>s1. loadEvents i s0 = (s1, Inr ()) \<and> backend s1 = backend s" if "backend s0 = backend s" for i s0
    using Cons.prems that by (auto simp: loadEvents_def LoadEvents_def Let_def split: prod.split)
  have "\<exists>s1. load_one L t s = (s1, Inr ()) \<and> backend s1 = backend s"
    using ev[of "s\<lparr>tasks := map_put (ID t) (pruneTaskPayload s t) (tasks s),
       searchIndex := map_put (ID t) (buildIndexEntry L (pruneTaskPayload s t) (fst (LoadOversightText (ID t) s))) (searchIndex s)\<rparr>" "ID t"]
    by (auto simp: load_one_def Let_def and_then_def split: sum.split)
  then show ?case using Cons.IH Cons.prems by (auto simp: and_then_def)
qed simp

lemma NewStore_total:
  assumes "\<forall>c. \<not> io_fails b c"
  shows "\<exists>s. NewStore L mtime lm b = (s, Inr ())"
proof -
  obtain b' ts where lt: "load_tasks L mtime (dirs b) (b, []) = (b', ts)" by fastforce
  then have "io_fails b' = io_fails b"
    using load_tasks_spec[of b L mtime "dirs b" "[]"] by (simp add: only_files_changed_def)
  then obtain s where "load_each L ts ((empty_store lm b)\<lparr>backend := b'\<rparr>) = (s, Inr ())"
    using load_each_total[of "(empty_store lm b)\<lparr>backend := b'\<rparr>" L ts] assms by auto
  moreover have "LoadAll L mtime b = (b', Inr ts)" using assms lt by (simp add: LoadAll_def)
  ultimately show ?thesis by (simp add: NewStore_def loadAll_def and_then_def empty_store_def)
qed

lemma stored_file:
  assumes "task_file (dir_at b i) = Some (Some t)" "\<not> io_fails b (IOReadTask i)"
  shows "\<exists>t' c. migrateTaskJSON L (Some t) (mtime i) = Inr (t', c) \<and> stored L mtime b i = Some t'"
  using migrateTaskJSON_ok_ex[of L t "mtime i"] assms by (auto simp: stored_def read_task_def)


lemma sample_disk_ok: "disk_ok (backend (sample_store L [sample_task]))"
  by (auto simp: disk_ok_def sample_store_def install_def empty_store_def quiet_disk_def put_dir_def
      pruneTaskPayload_def addToStatusIndex_def split: if_splits)


section \<open>Failed writes\<close>

text \<open>
  (C21) A status change whose write fails is reported as an error but not undone. The task in
  memory and the status index already have the new status, the file still has the old one and
  no subscriber is told. The invariant of the store survives.
\<close>

theorem failed_status_write:
  assumes "store_inv L s" "map_get (tasks s) i = Some t" "io_fails (backend s) (IOSaveTask i)"
    "UpdateTaskStatus i status startedNow now s = (s', r)" "CanTransition TaskMachine (Status t) status"
  shows "(\<exists>e. r = Inl e) \<and> backend s' = backend s \<and> store_hub s' = store_hub s
    \<and> map_option Status (map_get (tasks s') i) = Some status
    \<and> (\<forall>st. i \<in> set (map_at [] (tasksByStatus s') st) \<longleftrightarrow> st = status) \<and> store_inv L s'"
proof -
  have inv: "store_inv L s'"
    using good_step_inv[OF transition_good(1)[OF assms(1), of i status startedNow now]] assms(4) by simp
  have ID: "ID t = i" using inv_in_tasks(1)[OF assms(1,2)] .
  define s0 where "s0 = move_status (Status t) status i s"
  have s0: "backend s0 = backend s" "store_hub s0 = store_hub s" by (simp_all add: s0_def)
  have fail: "\<exists>e. SaveTask t' (backend s) = (backend s, Inl e)" if "ID t' = i" for t'
    using assms(3) that by (auto simp: SaveTask_def split: option.split)
  have "\<exists>t' e. ID t' = i \<and> Status t' = status \<and> s' = s0\<lparr>tasks := map_put i t' (tasks s0)\<rparr> \<and> r = Inl e"
  proof -
    define t' where "t' = (with_status status startedNow now t)\<lparr>SchemaVersion := CurrentTaskSchemaVersion\<rparr>"
    have t': "ID t' = i" "Status t' = status" using ID by (simp_all add: t'_def with_status_def Let_def)
    obtain e where "SaveTask (pruneTaskPayload s0 t') (backend s0) = (backend s0, Inl e)"
      using fail[of "pruneTaskPayload s0 t'"] t' s0 by auto
    then have "(s', r) = (s0\<lparr>tasks := map_put i t' (tasks s0)\<rparr>, Inl e)"
      using assms(2,4,5)
      by (simp add: UpdateTaskStatus_def CanTransition_def set_status_def write_and_notify_def store_task_def saveTask_def
          and_then_def Let_def flip: s0_def t'_def)
    with t' show ?thesis by auto
  qed
  then obtain t' e where r: "Status t' = status" "s' = s0\<lparr>tasks := map_put i t' (tasks s0)\<rparr>" "r = Inl e" by blast
  then have "map_option Status (map_get (tasks s') i) = Some status" by simp
  moreover from this have "i \<in> set (map_at [] (tasksByStatus s') st) \<longleftrightarrow> st = status" for st
    using inv by (auto simp: store_inv_def wf_store_def status_ok_def)
  ultimately show ?thesis using r s0 inv by simp
qed

theorem failed_status_write_witness:
  "let s = (sample_store unary_lib [sample_task])\<lparr>backend :=
             (backend (sample_store unary_lib [sample_task]))\<lparr>io_fails := (\<lambda>_. True)\<rparr>\<rparr>;
       (s', r) = UpdateTaskStatus 1 TaskStatusInProgress 6 7 s
   in (\<exists>e. r = Inl e) \<and> backend s' = backend s
      \<and> map_option Status (map_get (tasks s') 1) = Some TaskStatusInProgress"
proof -
  define s0 where "s0 = sample_store unary_lib [sample_task]"
  define s where "s = s0\<lparr>backend := (backend s0)\<lparr>io_fails := (\<lambda>_. True)\<rparr>\<rparr>"
  obtain s' r where u: "UpdateTaskStatus 1 TaskStatusInProgress 6 7 s = (s', r)" by fastforce
  note ok = sample_store_ok[of "[sample_task]" unary_lib, folded s0_def, simplified]
  have inv: "store_inv unary_lib s" using faults_inv[OF ok(1)] by (simp add: s_def)
  have t: "map_get (tasks s) 1 = Some sample_task" using ok(4)[of 1] by (simp add: s_def)
  have "(\<exists>e. r = Inl e) \<and> backend s' = backend s \<and> store_hub s' = store_hub s
    \<and> map_option Status (map_get (tasks s') 1) = Some TaskStatusInProgress
    \<and> (\<forall>st. 1 \<in> set (map_at [] (tasksByStatus s') st) \<longleftrightarrow> st = TaskStatusInProgress) \<and> store_inv unary_lib s'"
    by (rule failed_status_write[OF inv t _ u])
      (simp_all add: s_def CanTransition_def Validate_ok_iff Allowed_def TaskMachine_def New_def map_at_def)
  with u show ?thesis unfolding s0_def[symmetric] s_def[symmetric] by (simp add: Let_def)
qed

end
