(* ===== verification/Ttl_Cache.thy ===== *)
theory Ttl_Cache
  imports Prelude
begin

text \<open>
  \<open>internal/pkg/cache/ttlcache.go\<close>: entries that expire, permanent entries with bounded
  least-recently-used eviction, and the opportunistic sweep. An element of the recency list is
  named by its key: the invariant shows that no key has two elements, so \<open>elem\<close> reduces to
  the question whether the entry has one.
\<close>

record 'v cache_entry =
  ce_value :: 'v
  ce_permanent :: bool
  ce_expiresAt :: time
  ce_elem :: bool

record ('k, 'v) TTLCache =
  cache_entries :: "('k, 'v cache_entry) gomap"
  lru :: "'k list"
  defaultTTL :: duration
  maxSize :: int

definition sweepThreshold :: nat where
  "sweepThreshold = 256"

definition sweepBudget :: nat where
  "sweepBudget = 8"

definition NewCache :: "duration \<Rightarrow> int \<Rightarrow> ('k, 'v) TTLCache" where
  "NewCache ttl mx = \<lparr>cache_entries = [], lru = [], defaultTTL = ttl, maxSize = mx\<rparr>"

definition move_to_back :: "'k \<Rightarrow> 'k list \<Rightarrow> 'k list" where
  "move_to_back key xs = remove1 key xs @ [key]"

definition cache_Get :: "time \<Rightarrow> 'k \<Rightarrow> ('k, 'v) TTLCache \<Rightarrow> ('k, 'v) TTLCache \<times> 'v option" where
  "cache_Get now key c =
     (case map_get (cache_entries c) key of
        None \<Rightarrow> (c, None)
      | Some e \<Rightarrow>
          if \<not> ce_permanent e \<and> now > ce_expiresAt e
          then (c\<lparr>cache_entries := map_del key (cache_entries c)\<rparr>, None)
          else (if ce_elem e then c\<lparr>lru := move_to_back key (lru c)\<rparr> else c, Some (ce_value e)))"

definition sweepExpiredLocked :: "time \<Rightarrow> ('k, 'v) TTLCache \<Rightarrow> ('k, 'v) TTLCache" where
  "sweepExpiredLocked now c =
     (if length (cache_entries c) \<le> sweepThreshold then c
      else c\<lparr>cache_entries :=
        filter (\<lambda>(k, e). \<not> (\<not> ce_permanent e \<and> now > ce_expiresAt e)) (take sweepBudget (cache_entries c))
        @ drop sweepBudget (cache_entries c)\<rparr>)"

definition cache_Set :: "time \<Rightarrow> time \<Rightarrow> 'k \<Rightarrow> 'v \<Rightarrow> ('k, 'v) TTLCache \<Rightarrow> ('k, 'v) TTLCache" where
  "cache_Set sweepNow now key val c =
     (let c1 = (case map_get (cache_entries c) key of
                  Some e \<Rightarrow> if ce_elem e then c\<lparr>lru := remove1 key (lru c)\<rparr> else c
                | None \<Rightarrow> c);
          c2 = sweepExpiredLocked sweepNow c1
      in c2\<lparr>cache_entries := map_put key
             \<lparr>ce_value = val, ce_permanent = False, ce_expiresAt = now + defaultTTL c2, ce_elem = False\<rparr>
             (cache_entries c2)\<rparr>)"

definition cache_Len :: "('k, 'v) TTLCache \<Rightarrow> nat" where
  "cache_Len c = length (cache_entries c)"

definition SetPermanent :: "'k \<Rightarrow> 'v \<Rightarrow> ('k, 'v) TTLCache \<Rightarrow> ('k, 'v) TTLCache" where
  "SetPermanent key val c =
     (let tracked = (case map_get (cache_entries c) key of Some e \<Rightarrow> ce_elem e | None \<Rightarrow> False);
          c1 = (if tracked then c\<lparr>lru := move_to_back key (lru c)\<rparr>
                else let c0 = c\<lparr>lru := lru c @ [key]\<rparr>
                     in if maxSize c0 > 0 \<and> int (length (lru c0)) > maxSize c0
                        then c0\<lparr>lru := tl (lru c0), cache_entries := map_del (hd (lru c0)) (cache_entries c0)\<rparr>
                        else c0)
      in c1\<lparr>cache_entries := map_put key
             \<lparr>ce_value = val, ce_permanent = True, ce_expiresAt = 0, ce_elem = True\<rparr> (cache_entries c1)\<rparr>)"

definition Invalidate :: "'k \<Rightarrow> ('k, 'v) TTLCache \<Rightarrow> ('k, 'v) TTLCache" where
  "Invalidate key c =
     (case map_get (cache_entries c) key of
        None \<Rightarrow> c
      | Some e \<Rightarrow>
          (if ce_elem e then c\<lparr>lru := remove1 key (lru c)\<rparr> else c)\<lparr>
             cache_entries := map_del key (cache_entries c)\<rparr>)"

section \<open>Invariant\<close>

definition cache_inv :: "('k, 'v) TTLCache \<Rightarrow> bool" where
  "cache_inv c \<longleftrightarrow> wf_map (cache_entries c) \<and> distinct (lru c)
     \<and> (\<forall>k. k \<in> set (lru c) \<longleftrightarrow> (\<exists>e. map_get (cache_entries c) k = Some e \<and> ce_permanent e))
     \<and> (\<forall>k e. map_get (cache_entries c) k = Some e \<longrightarrow> (ce_elem e \<longleftrightarrow> ce_permanent e))
     \<and> (maxSize c > 0 \<longrightarrow> int (length (lru c)) \<le> maxSize c)"

text \<open>What a reader at time \<open>t\<close> can see.\<close>

definition cached :: "time \<Rightarrow> ('k, 'v) TTLCache \<Rightarrow> 'k \<Rightarrow> 'v option" where
  "cached t c k =
     (case map_get (cache_entries c) k of
        None \<Rightarrow> None
      | Some e \<Rightarrow> if ce_permanent e \<or> t \<le> ce_expiresAt e then Some (ce_value e) else None)"

lemma NewCache_inv: "cache_inv (NewCache ttl mx)"
  by (simp add: cache_inv_def NewCache_def)

lemma cache_Get_inv: "cache_inv c \<Longrightarrow> cache_inv (fst (cache_Get now key c))"
  by (auto simp: cache_inv_def cache_Get_def move_to_back_def length_remove1 split: option.splits)

lemma sweep_sets:
  fixes es :: "('k, 'v) gomap"
  assumes "wf_map es"
  shows "wf_map (filter P (take n es) @ drop n es)" "set (filter P (take n es) @ drop n es) \<subseteq> set es"
    "p \<in> set es \<Longrightarrow> p \<notin> set (filter P (take n es) @ drop n es) \<Longrightarrow> \<not> P p"
proof -
  have es: "wf_map (take n es @ drop n es)" using assms by simp
  have "inj_on fst (set es)" using assms by (simp add: distinct_map)
  then show "wf_map (filter P (take n es) @ drop n es)"
    using es by (auto simp: distinct_map_filter simp del: append_take_drop_id)
  show "set (filter P (take n es) @ drop n es) \<subseteq> set es"
    using set_take_subset[of n es] set_drop_subset[of n es] by auto
  have "set es = set (take n es) \<union> set (drop n es)" by (metis append_take_drop_id set_append)
  then show "p \<in> set es \<Longrightarrow> p \<notin> set (filter P (take n es) @ drop n es) \<Longrightarrow> \<not> P p" by auto
qed

lemma sweep_lookup:
  assumes "wf_map (cache_entries c)"
  shows "map_get (cache_entries (sweepExpiredLocked now c)) k = map_get (cache_entries c) k
    \<or> map_get (cache_entries (sweepExpiredLocked now c)) k = None
      \<and> (\<exists>e. map_get (cache_entries c) k = Some e \<and> \<not> ce_permanent e \<and> now > ce_expiresAt e)"
proof -
  define P where "P = (\<lambda>(k :: 'a, e :: 'b cache_entry). \<not> (\<not> ce_permanent e \<and> now > ce_expiresAt e))"
  define r where "r = filter P (take sweepBudget (cache_entries c)) @ drop sweepBudget (cache_entries c)"
  note s = sweep_sets[OF assms, where P = P and n = sweepBudget, folded r_def]
  have "map_get r k = map_get (cache_entries c) k \<or> map_get r k = None
      \<and> (\<exists>e. map_get (cache_entries c) k = Some e \<and> \<not> ce_permanent e \<and> now > ce_expiresAt e)"
  proof (cases "map_get r k")
    case (Some e)
    then have "map_get (cache_entries c) k = Some e"
      using s(1,2) wf_map_get_iff[OF assms, of k e] wf_map_get_iff[OF s(1), of k e] by blast
    with Some show ?thesis by simp
  next
    case None
    have "\<not> ce_permanent e \<and> now > ce_expiresAt e" if "map_get (cache_entries c) k = Some e" for e
      using s(3)[of "(k, e)"] that None wf_map_get_iff[OF assms, of k e] wf_map_get_iff[OF s(1), of k e]
      by (simp add: P_def)
    then show ?thesis using None by (cases "map_get (cache_entries c) k") auto
  qed
  moreover have "cache_entries (sweepExpiredLocked now c)
      = (if length (cache_entries c) \<le> sweepThreshold then cache_entries c else r)"
    by (simp add: sweepExpiredLocked_def r_def P_def)
  ultimately show ?thesis by simp
qed

lemma sweep_frames [simp]:
  "lru (sweepExpiredLocked now c) = lru c" "maxSize (sweepExpiredLocked now c) = maxSize c"
  "defaultTTL (sweepExpiredLocked now c) = defaultTTL c"
  by (simp_all add: sweepExpiredLocked_def)

lemma sweep_wf: "wf_map (cache_entries c) \<Longrightarrow> wf_map (cache_entries (sweepExpiredLocked now c))"
  by (simp add: sweepExpiredLocked_def sweep_sets(1) del: distinct_append map_append)

lemma sweep_cached:
  assumes "wf_map (cache_entries c)" "now \<le> t"
  shows "cached t (sweepExpiredLocked now c) k = cached t c k"
  using sweep_lookup[OF assms(1), of now k] assms(2) by (elim disjE) (simp add: cached_def, auto simp: cached_def)

lemma sweep_inv:
  assumes "cache_inv c"
  shows "cache_inv (sweepExpiredLocked now c)"
proof -
  have wf: "wf_map (cache_entries c)" using assms by (simp add: cache_inv_def)
  have "(\<exists>e. map_get (cache_entries (sweepExpiredLocked now c)) k = Some e \<and> ce_permanent e)
      \<longleftrightarrow> (\<exists>e. map_get (cache_entries c) k = Some e \<and> ce_permanent e)" for k
    using sweep_lookup[OF wf, of now k] by (elim disjE) (simp, auto)
  moreover have "map_get (cache_entries c) k = Some e" if "map_get (cache_entries (sweepExpiredLocked now c)) k = Some e" for k e
    using sweep_lookup[OF wf, of now k] that by auto
  ultimately show ?thesis using assms sweep_wf[OF wf] by (simp add: cache_inv_def) blast
qed

section \<open>Operations\<close>

lemma cache_Set_inv: "cache_inv c \<Longrightarrow> cache_inv (cache_Set sweepNow now key val c)"
proof -
  assume inv: "cache_inv c"
  define c1 where "c1 = (case map_get (cache_entries c) key of
      Some e \<Rightarrow> if ce_elem e then c\<lparr>lru := remove1 key (lru c)\<rparr> else c | None \<Rightarrow> c)"
  define c2 where "c2 = sweepExpiredLocked sweepNow c1"
  have c1: "cache_entries c1 = cache_entries c" "maxSize c1 = maxSize c" "lru c1 = remove1 key (lru c)"
    using inv remove1_idem[of key "lru c"] by (auto simp: c1_def cache_inv_def split: option.split)
  have wf: "wf_map (cache_entries c1)" using inv c1 by (simp add: cache_inv_def)
  have perm: "(\<exists>e. map_get (cache_entries c2) k = Some e \<and> ce_permanent e)
      \<longleftrightarrow> (\<exists>e. map_get (cache_entries c) k = Some e \<and> ce_permanent e)"
    "map_get (cache_entries c2) k = Some e \<Longrightarrow> map_get (cache_entries c) k = Some e" for k e
    using sweep_lookup[OF wf, of sweepNow k] unfolding c2_def c1 by (elim disjE; auto; fail)+
  have "cache_Set sweepNow now key val c = c2\<lparr>cache_entries := map_put key
      \<lparr>ce_value = val, ce_permanent = False, ce_expiresAt = now + defaultTTL c2, ce_elem = False\<rparr> (cache_entries c2)\<rparr>"
    by (simp add: cache_Set_def Let_def c1_def c2_def)
  moreover have "wf_map (cache_entries c2)" "lru c2 = remove1 key (lru c)" "maxSize c2 = maxSize c"
    using sweep_wf[OF wf] c1 by (simp_all add: c2_def)
  moreover have "k \<in> set (remove1 key (lru c)) \<longleftrightarrow> k \<noteq> key \<and> (\<exists>e. map_get (cache_entries c2) k = Some e \<and> ce_permanent e)" for k
    unfolding perm(1) using inv by (simp add: cache_inv_def conj_commute)
  moreover have "ce_elem e \<longleftrightarrow> ce_permanent e" if "map_get (cache_entries c2) k = Some e" for k e
    using perm(2)[OF that] inv by (simp add: cache_inv_def)
  moreover have "distinct (remove1 key (lru c))" "maxSize c > 0 \<longrightarrow> int (length (remove1 key (lru c))) \<le> maxSize c"
    using inv by (auto simp: cache_inv_def length_remove1)
  ultimately show ?thesis unfolding cache_inv_def by simp
qed

text \<open>The three cases of \<open>SetPermanent\<close>: tracked already, room left, and eviction of the oldest.\<close>

lemma SetPermanent_cases:
  assumes "cache_inv c"
  obtains
    (tracked) "key \<in> set (lru c)" "SetPermanent key val c = c\<lparr>lru := remove1 key (lru c) @ [key],
       cache_entries := map_put key \<lparr>ce_value = val, ce_permanent = True, ce_expiresAt = 0, ce_elem = True\<rparr> (cache_entries c)\<rparr>"
  | (room) "key \<notin> set (lru c)" "maxSize c \<le> 0 \<or> int (length (lru c)) < maxSize c"
      "SetPermanent key val c = c\<lparr>lru := lru c @ [key],
       cache_entries := map_put key \<lparr>ce_value = val, ce_permanent = True, ce_expiresAt = 0, ce_elem = True\<rparr> (cache_entries c)\<rparr>"
  | (evict) h rest where "key \<notin> set (lru c)" "lru c = h # rest" "int (length (lru c)) = maxSize c"
      "SetPermanent key val c = c\<lparr>lru := rest @ [key],
       cache_entries := map_put key \<lparr>ce_value = val, ce_permanent = True, ce_expiresAt = 0, ce_elem = True\<rparr>
         (map_del h (cache_entries c))\<rparr>"
proof (cases "key \<in> set (lru c)")
  case True
  then obtain e where "map_get (cache_entries c) key = Some e" "ce_elem e" using assms by (auto simp: cache_inv_def)
  with True show ?thesis by (intro tracked) (simp_all add: SetPermanent_def move_to_back_def)
next
  case False
  then have t: "(case map_get (cache_entries c) key of Some e \<Rightarrow> ce_elem e | None \<Rightarrow> False) = False"
    using assms by (auto simp: cache_inv_def split: option.split)
  show ?thesis
  proof (cases "maxSize c \<le> 0 \<or> int (length (lru c)) < maxSize c")
    case True
    with False t show ?thesis by (intro room) (auto simp: SetPermanent_def Let_def)
  next
    case no_room: False
    then have len: "int (length (lru c)) = maxSize c" "maxSize c > 0" using assms by (auto simp: cache_inv_def)
    then obtain h rest where "lru c = h # rest" by (cases "lru c") auto
    with False t len show ?thesis by (intro evict[of h rest]) (simp_all add: SetPermanent_def Let_def)
  qed
qed

lemma cache_inv_permanent:
  assumes "cache_inv c" "wf_map m" "distinct l" "set l = insert key (set (lru c) - set gone)" "key \<notin> set gone"
    "maxSize c > 0 \<longrightarrow> int (length l) \<le> maxSize c"
    "\<And>k. map_get m k = (if k \<in> set gone then None else map_get (cache_entries c) k)"
  shows "cache_inv (c\<lparr>lru := l, cache_entries :=
    map_put key \<lparr>ce_value = val, ce_permanent = True, ce_expiresAt = 0, ce_elem = True\<rparr> m\<rparr>)"
  using assms unfolding cache_inv_def by auto

lemma SetPermanent_inv:
  assumes inv: "cache_inv c"
  shows "cache_inv (SetPermanent key val c)"
proof -
  have c: "wf_map (cache_entries c)" "distinct (lru c)" "maxSize c > 0 \<longrightarrow> int (length (lru c)) \<le> maxSize c"
    using inv by (simp_all add: cache_inv_def)
  from inv show ?thesis
  proof (cases rule: SetPermanent_cases[of c key val])
    case tracked
    then have "length (remove1 key (lru c) @ [key]) = length (lru c)"
      using length_pos_if_in_set[of key "lru c"] by (simp add: length_remove1)
    with tracked c show ?thesis unfolding tracked(2) by (intro cache_inv_permanent[OF inv, where gone = "[]"]) auto
  next
    case room
    with c show ?thesis unfolding room(3) by (intro cache_inv_permanent[OF inv, where gone = "[]"]) auto
  next
    case (evict h rest)
    with c show ?thesis unfolding evict(4) by (intro cache_inv_permanent[OF inv, where gone = "[h]"]) auto
  qed
qed

lemma Invalidate_inv: "cache_inv c \<Longrightarrow> cache_inv (Invalidate key c)"
  by (auto simp: cache_inv_def Invalidate_def length_remove1 split: option.splits)

section \<open>Histories\<close>

datatype ('k, 'v) cache_op =
    OpGet time 'k
  | OpSet time time 'k 'v
  | OpSetPermanent 'k 'v
  | OpInvalidate 'k

fun cache_step :: "('k, 'v) cache_op \<Rightarrow> ('k, 'v) TTLCache \<Rightarrow> ('k, 'v) TTLCache" where
  "cache_step (OpGet now k) c = fst (cache_Get now k c)"
| "cache_step (OpSet sweepNow now k v) c = cache_Set sweepNow now k v c"
| "cache_step (OpSetPermanent k v) c = SetPermanent k v c"
| "cache_step (OpInvalidate k) c = Invalidate k c"

lemma cache_step_inv: "cache_inv c \<Longrightarrow> cache_inv (cache_step op c)"
  by (cases op) (simp_all add: cache_Get_inv cache_Set_inv SetPermanent_inv Invalidate_inv)

lemma cache_step_maxSize [simp]: "maxSize (cache_step op c) = maxSize c"
  by (cases op) (auto simp: cache_Get_def cache_Set_def SetPermanent_def Invalidate_def Let_def split: option.split)

lemma cache_run: "cache_inv c \<Longrightarrow> cache_inv (fold cache_step ops c) \<and> maxSize (fold cache_step ops c) = maxSize c"
  by (induction ops arbitrary: c) (simp_all add: cache_step_inv)

text \<open>
  (C37) After any sequence of calls, with any clock, the cache holds at most the configured
  number of permanent entries. A read returns exactly what is visible at that time and hides
  nothing from later readers. A write is visible to its own key until it expires and to no other
  key. A permanent write stays visible, and the only other entry it can hide is the permanent one
  that was used least recently, and only when the cache is full.
\<close>

theorem cache_correct:
  fixes mx :: int and ops :: "('k, 'v) cache_op list"
  assumes c: "c = fold cache_step ops (NewCache ttl mx)"
  shows "(mx > 0 \<longrightarrow> int (card {k. \<exists>e. map_get (cache_entries c) k = Some e \<and> ce_permanent e}) \<le> mx)
    \<and> snd (cache_Get now key c) = cached now c key
    \<and> (\<forall>t \<ge> now. cached t (fst (cache_Get now key c)) = cached t c)
    \<and> (\<forall>t \<ge> now. cached t (cache_Set now now' key v c)
          = (cached t c)(key := if t \<le> now' + defaultTTL c then Some v else None))
    \<and> (\<forall>t. cached t (Invalidate key c) = (cached t c)(key := None))
    \<and> (\<forall>t k. cached t (SetPermanent key v c) k
          = (if k = key then Some v
             else if key \<notin> set (lru c) \<and> mx > 0 \<and> int (length (lru c)) = mx \<and> k = hd (lru c) then None
             else cached t c k))"
proof -
  have inv: "cache_inv c" and mx: "maxSize c = mx"
    using cache_run[OF NewCache_inv, of ops ttl mx] by (auto simp: c NewCache_def)
  have wf: "wf_map (cache_entries c)" using inv by (simp add: cache_inv_def)
  have "{k. \<exists>e. map_get (cache_entries c) k = Some e \<and> ce_permanent e} = set (lru c)" "distinct (lru c)"
    "mx > 0 \<longrightarrow> int (length (lru c)) \<le> mx"
    using inv mx by (auto simp: cache_inv_def)
  then have bound: "mx > 0 \<longrightarrow> int (card {k. \<exists>e. map_get (cache_entries c) k = Some e \<and> ce_permanent e}) \<le> mx"
    by (simp add: distinct_card)
  have get: "snd (cache_Get now key c) = cached now c key"
    by (auto simp: cache_Get_def cached_def split: option.split)
  have keep: "cached t (fst (cache_Get now key c)) = cached t c" if "t \<ge> now" for t
    using that by (auto simp: fun_eq_iff cache_Get_def cached_def split: option.split)
  have set: "cached t (cache_Set now now' key v c) = (cached t c)(key := if t \<le> now' + defaultTTL c then Some v else None)"
    if "t \<ge> now" for t
  proof -
    define c1 where "c1 = (case map_get (cache_entries c) key of
        Some e \<Rightarrow> if ce_elem e then c\<lparr>lru := remove1 key (lru c)\<rparr> else c | None \<Rightarrow> c)"
    have "cache_entries c1 = cache_entries c" "defaultTTL c1 = defaultTTL c" by (auto simp: c1_def split: option.split)
    then have "cached t (sweepExpiredLocked now c1) = cached t c" "defaultTTL c1 = defaultTTL c"
      using sweep_cached[of c1 now t] wf that by (auto simp: fun_eq_iff cached_def)
    then show ?thesis
      by (auto simp: cache_Set_def Let_def c1_def[symmetric] fun_eq_iff cached_def)
  qed
  have del: "cached t (Invalidate key c) = (cached t c)(key := None)" for t
    by (auto simp: fun_eq_iff Invalidate_def cached_def split: option.split)
  have perm: "cached t (SetPermanent key v c) k
          = (if k = key then Some v
             else if key \<notin> set (lru c) \<and> mx > 0 \<and> int (length (lru c)) = mx \<and> k = hd (lru c) then None
             else cached t c k)" for t k
    using inv by (cases rule: SetPermanent_cases[of c key v]) (auto simp: cached_def mx)
  from bound get keep set del perm show ?thesis by blast
qed

theorem cache_correct_witness:
  "let c = fold cache_step [OpSetPermanent (1 :: nat) ''a'', OpSetPermanent 2 ''b'', OpSet 0 5 3 ''c''] (NewCache 10 2)
   in snd (cache_Get 15 3 c) = Some ''c'' \<and> cached 16 c 3 = None
     \<and> cached 100 (SetPermanent 4 ''d'' c) 1 = None \<and> cached 100 (SetPermanent 4 ''d'' c) 2 = Some ''b''"
proof -
  define c where "c = fold cache_step [OpSetPermanent (1 :: nat) ''a'', OpSetPermanent 2 ''b'', OpSet 0 5 3 ''c''] (NewCache 10 2)"
  have l: "lru c = [1, 2]" "cached 15 c 3 = Some ''c''" "cached 16 c 3 = None" "cached 100 c 2 = Some ''b''"
    by (simp_all add: c_def NewCache_def SetPermanent_def cache_Set_def sweepExpiredLocked_def sweepThreshold_def
        move_to_back_def cached_def Let_def)
  have "snd (cache_Get 15 3 c) = Some ''c''" "cached 100 (SetPermanent 4 ''d'' c) 1 = None"
    "cached 100 (SetPermanent 4 ''d'' c) 2 = Some ''b''"
    using cache_correct[OF c_def, of 15 3] cache_correct[OF c_def, of 0 4 0 "''d''"] l by simp_all
  with l show ?thesis unfolding Let_def c_def[symmetric] by blast
qed

end
