(* ===== verification/Work_Graph.thy ===== *)
theory Work_Graph
  imports Store_Query
begin

text \<open>
  \<open>internal/graph/graph.go\<close>: the graph of specs and tasks that the Map shows, with the actions
  each node offers, the blocked tasks and the critical path. Of \<open>internal/spec\<close> it needs the
  record of a spec and the state machine of its life cycle. The loop that reads the critical
  path off the memo table need not end, so it is a partial function.
\<close>

section \<open>Specs\<close>

datatype SpecStatus =
    StatusVague | StatusDrafted | StatusValidated | StatusTesting | StatusComplete | StatusStale | StatusArchived

definition SpecStatus_string :: "SpecStatus \<Rightarrow> string" where
  "SpecStatus_string st =
     (case st of StatusVague \<Rightarrow> ''vague'' | StatusDrafted \<Rightarrow> ''drafted'' | StatusValidated \<Rightarrow> ''validated''
      | StatusTesting \<Rightarrow> ''testing'' | StatusComplete \<Rightarrow> ''complete'' | StatusStale \<Rightarrow> ''stale'' | StatusArchived \<Rightarrow> ''archived'')"

definition StatusMachine :: "SpecStatus Machine" where
  "StatusMachine = New
     [(StatusVague, [StatusDrafted, StatusArchived]),
      (StatusDrafted, [StatusValidated, StatusStale, StatusArchived]),
      (StatusValidated, [StatusTesting, StatusStale]),
      (StatusTesting, [StatusComplete, StatusStale, StatusArchived]),
      (StatusComplete, [StatusStale, StatusArchived]),
      (StatusStale, [StatusDrafted, StatusValidated, StatusArchived]),
      (StatusArchived, [StatusDrafted])]"

text \<open>The fields of a spec that the graph reads.\<close>

record Spec =
  sp_Title :: string
  sp_Status :: SpecStatus
  sp_DependsOn :: "string list"
  sp_DispatchedTaskID :: "string option"
  sp_Doc :: bool

record NodeResponse =
  nr_Path :: string
  nr_Spec :: "Spec option"
  nr_Children :: "string list"
  nr_IsLeaf :: bool
  nr_Depth :: int

section \<open>Nodes and edges\<close>

datatype NodeKind = NodeSpec | NodeTask

datatype EdgeKind = EdgeContainment | EdgeDispatch | EdgeSpecDep | EdgeTaskDep

datatype Action = ActionDispatch | ActionUndispatch | ActionValidate | ActionUnstale | ActionForceComplete
  | ActionUnarchive | ActionStart

record Node =
  gn_ID :: string
  gn_Kind :: NodeKind
  gn_Label :: string
  gn_Status :: string
  gn_Ref :: string
  gn_Depth :: int
  gn_AvailableActions :: "Action list"

record Edge =
  ge_From :: string
  ge_To :: string
  ge_Kind :: EdgeKind

record WorkGraph =
  wg_Nodes :: "Node list"
  wg_Edges :: "Edge list"
  wg_CriticalPath :: "string list"
  wg_Blocked :: "string list"

definition SpecID :: "string \<Rightarrow> string" where
  "SpecID path = ''spec:'' @ path"

definition graph_TaskID :: "string \<Rightarrow> string" where
  "graph_TaskID i = ''task:'' @ i"

definition specActions :: "Spec option \<Rightarrow> bool \<Rightarrow> Action list" where
  "specActions so isLeaf =
     (case so of
        None \<Rightarrow> []
      | Some s \<Rightarrow>
          let can = CanTransition StatusMachine (sp_Status s); dispatched = sp_DispatchedTaskID s \<noteq> None
          in case sp_Status s of
               StatusDrafted \<Rightarrow> if can StatusValidated then [ActionValidate] else []
             | StatusValidated \<Rightarrow> if dispatched then [ActionUndispatch] else if isLeaf then [ActionDispatch] else []
             | StatusTesting \<Rightarrow> if can StatusComplete then [ActionForceComplete] else []
             | StatusStale \<Rightarrow> if can StatusValidated \<or> can StatusDrafted then [ActionUnstale] else []
             | StatusArchived \<Rightarrow> if can StatusDrafted then [ActionUnarchive] else []
             | _ \<Rightarrow> [])"

definition specLabel :: "NodeResponse \<Rightarrow> string" where
  "specLabel n = (case nr_Spec n of None \<Rightarrow> nr_Path n | Some s \<Rightarrow> if sp_Title s \<noteq> [] then sp_Title s else nr_Path n)"

definition taskLabel :: "lib \<Rightarrow> Task \<Rightarrow> string" where
  "taskLabel L t = (if Title t \<noteq> [] then Title t
     else let i = uuid_String L (ID t) in if length i \<ge> 8 then take 8 i else i)"

section \<open>Critical path\<close>

text \<open>The memo table maps a node to the length of the longest walk from it and the next node of that walk.\<close>

type_synonym walk_memo = "(string, int \<times> string) gomap"

function (sequential) walk ::
  "string graph \<Rightarrow> string \<Rightarrow> walk_memo \<Rightarrow> (string, bool) gomap \<Rightarrow> (int \<times> string) \<times> walk_memo"
  and walk_children ::
  "string graph \<Rightarrow> string list \<Rightarrow> int \<times> string \<Rightarrow> walk_memo \<Rightarrow> (string, bool) gomap \<Rightarrow> (int \<times> string) \<times> walk_memo" where
  "walk adj n memo onStack =
     (case map_get memo n of
        Some r \<Rightarrow> (r, memo)
      | None \<Rightarrow>
          if map_at False onStack n then ((0, []), memo)
          else case walk_children adj (succs adj n) (0, []) memo (map_put n True onStack) of
                 (best, memo1) \<Rightarrow> (best, map_put n best memo1))"
| "walk_children adj [] best memo onStack = (best, memo)"
| "walk_children adj (nx # cs) best memo onStack =
     (case walk adj nx memo onStack of
        (r, memo1) \<Rightarrow> walk_children adj cs (if fst r + 1 > fst best then (fst r + 1, nx) else best) memo1 onStack)"
  by pat_completeness auto

termination
proof (relation "inv_image (less_than <*lex*> less_than) (\<lambda>x. case x of
    Inl (adj, n, memo, vis) \<Rightarrow> (card (keys adj - marked vis), 1)
  | Inr (adj, cs, best, memo, vis) \<Rightarrow> (card (keys adj - marked vis), 2 * length cs))", goal_cases)
  case (2 adj n memo vis)
  then have "n \<notin> marked vis" by (simp add: marked_def)
  from enter_decreases[OF this, of adj] show ?case by simp
qed auto

fun best_start :: "string graph \<Rightarrow> Node list \<Rightarrow> string \<times> int \<Rightarrow> walk_memo \<Rightarrow> (string \<times> int) \<times> walk_memo" where
  "best_start adj [] best memo = (best, memo)"
| "best_start adj (n # ns) best memo =
     (case walk adj (gn_ID n) memo [] of
        (r, memo1) \<Rightarrow> best_start adj ns (if fst r > snd best then (gn_ID n, fst r) else best) memo1)"

partial_function (option) path_from :: "walk_memo \<Rightarrow> string \<Rightarrow> string list option" where
  "path_from memo cur =
     (let nx = snd (map_at (0, []) memo cur)
      in if nx = [] then Some [cur] else Option.bind (path_from memo nx) (\<lambda>p. Some (cur # p)))"

lemma path_from_unfold:
  "snd (map_at (0, []) memo cur) = [] \<Longrightarrow> path_from memo cur = Some [cur]"
  "snd (map_at (0, []) memo cur) \<noteq> [] \<Longrightarrow> path_from memo cur =
     Option.bind (path_from memo (snd (map_at (0, []) memo cur))) (\<lambda>p. Some (cur # p))"
  by (subst path_from.simps; simp)+

definition dependency_adj :: "Node list \<Rightarrow> Edge list \<Rightarrow> string graph" where
  "dependency_adj nodes es =
     (let present = gn_ID ` set nodes
      in fold (\<lambda>e adj.
           if ge_Kind e = EdgeContainment then adj
           else if ge_From e \<in> present \<and> ge_To e \<in> present
           then map_put (ge_From e) (succs adj (ge_From e) @ [ge_To e]) adj else adj) es [])"

definition criticalPath :: "Node list \<Rightarrow> Edge list \<Rightarrow> string list option" where
  "criticalPath nodes es =
     (case best_start (dependency_adj nodes es) nodes ([], -1) [] of
        ((bestStart, bestLen), memo) \<Rightarrow>
          if bestStart = [] then Some []
          else Option.bind (path_from memo bestStart) (\<lambda>path. Some (if length path < 2 then [] else path)))"

section \<open>The graph\<close>

definition taskDone :: "lib \<Rightarrow> Task list \<Rightarrow> string \<Rightarrow> bool" where
  "taskDone L ts i = (case List.find (\<lambda>t. uuid_String L (ID t) = i) ts of
     None \<Rightarrow> False | Some t \<Rightarrow> Status t = TaskStatusDone)"

definition spec_shown :: "bool \<Rightarrow> NodeResponse \<Rightarrow> bool" where
  "spec_shown includeArchived n =
     (case nr_Spec n of None \<Rightarrow> False | Some s \<Rightarrow> \<not> sp_Doc s \<and> \<not> (sp_Status s = StatusArchived \<and> \<not> includeArchived))"

definition task_shown :: "bool \<Rightarrow> Task \<Rightarrow> bool" where
  "task_shown includeArchived t \<longleftrightarrow> \<not> (Archived t \<and> \<not> includeArchived)"

definition spec_node :: "NodeResponse \<Rightarrow> Spec \<Rightarrow> Node" where
  "spec_node n s = \<lparr>gn_ID = SpecID (nr_Path n), gn_Kind = NodeSpec, gn_Label = specLabel n,
     gn_Status = SpecStatus_string (sp_Status s), gn_Ref = nr_Path n, gn_Depth = nr_Depth n,
     gn_AvailableActions = specActions (Some s) (nr_IsLeaf n)\<rparr>"

definition spec_edges :: "string set \<Rightarrow> string set \<Rightarrow> NodeResponse \<Rightarrow> Spec \<Rightarrow> Edge list" where
  "spec_edges specPresent shown n s =
     (let i = SpecID (nr_Path n) in
      map (\<lambda>child. \<lparr>ge_From = i, ge_To = SpecID child, ge_Kind = EdgeContainment\<rparr>)
        (filter (\<lambda>child. child \<in> specPresent) (nr_Children n))
      @ map (\<lambda>dep. \<lparr>ge_From = SpecID dep, ge_To = i, ge_Kind = EdgeSpecDep\<rparr>)
          (filter (\<lambda>dep. dep \<in> specPresent) (sp_DependsOn s))
      @ (case sp_DispatchedTaskID s of
           Some d \<Rightarrow> if d \<in> shown then [\<lparr>ge_From = i, ge_To = graph_TaskID d, ge_Kind = EdgeDispatch\<rparr>] else []
         | None \<Rightarrow> []))"

definition task_blocked :: "lib \<Rightarrow> Task list \<Rightarrow> Task \<Rightarrow> bool" where
  "task_blocked L ts t \<longleftrightarrow> \<not> list_all (taskDone L ts) (DependsOn t)"

definition task_node :: "lib \<Rightarrow> Task list \<Rightarrow> Task \<Rightarrow> Node" where
  "task_node L ts t =
     (let tid = uuid_String L (ID t)
      in \<lparr>gn_ID = graph_TaskID tid, gn_Kind = NodeTask, gn_Label = taskLabel L t,
          gn_Status = TaskStatus_string (Status t), gn_Ref = tid, gn_Depth = 0,
          gn_AvailableActions = (if Status t = TaskStatusBacklog \<and> \<not> task_blocked L ts t then [ActionStart] else [])\<rparr>)"

definition task_edges :: "lib \<Rightarrow> string set \<Rightarrow> Task \<Rightarrow> Edge list" where
  "task_edges L shown t =
     map (\<lambda>dep. \<lparr>ge_From = graph_TaskID dep, ge_To = graph_TaskID (uuid_String L (ID t)), ge_Kind = EdgeTaskDep\<rparr>)
       (filter (\<lambda>dep. dep \<in> shown) (DependsOn t))"

definition Build :: "lib \<Rightarrow> NodeResponse list \<Rightarrow> Task list \<Rightarrow> bool \<Rightarrow> WorkGraph option" where
  "Build L specs ts includeArchived =
     (let shownTasks = filter (task_shown includeArchived) ts;
          shown = (\<lambda>t. uuid_String L (ID t)) ` set shownTasks;
          shownSpecs = filter (spec_shown includeArchived) specs;
          specPresent = nr_Path ` set shownSpecs;
          nodes = map (\<lambda>n. spec_node n (the (nr_Spec n))) shownSpecs @ map (task_node L ts) shownTasks;
          es = concat (map (\<lambda>n. spec_edges specPresent shown n (the (nr_Spec n))) shownSpecs)
            @ concat (map (task_edges L shown) shownTasks);
          blocked = map (\<lambda>t. graph_TaskID (uuid_String L (ID t)))
            (filter (\<lambda>t. Status t = TaskStatusBacklog \<and> task_blocked L ts t) shownTasks)
      in Option.bind (criticalPath nodes es) (\<lambda>cp.
           Some \<lparr>wg_Nodes = nodes, wg_Edges = es, wg_CriticalPath = cp, wg_Blocked = blocked\<rparr>))"

section \<open>The critical path is a longest chain\<close>

definition walk_ok :: "string graph \<Rightarrow> walk_memo \<Rightarrow> string \<Rightarrow> int \<times> string \<Rightarrow> bool" where
  "walk_ok adj memo n r \<longleftrightarrow> longest adj n (1 + fst r)
     \<and> (if snd r = [] then fst r = 0
        else (n, snd r) \<in> edges adj \<and> (\<exists>x. map_get memo (snd r) = Some (fst r - 1, x)))"

definition walk_memo_ok :: "string graph \<Rightarrow> walk_memo \<Rightarrow> bool" where
  "walk_memo_ok adj memo \<longleftrightarrow> (\<forall>n r. map_get memo n = Some r \<longrightarrow> walk_ok adj memo n r)"

definition memo_grows :: "walk_memo \<Rightarrow> walk_memo \<Rightarrow> bool" where
  "memo_grows memo memo' \<longleftrightarrow> (\<forall>n l x. map_get memo n = Some (l, x) \<longrightarrow> (\<exists>y. map_get memo' n = Some (l, y)))"

lemma memo_grows_trans: "memo_grows a b \<Longrightarrow> memo_grows b c \<Longrightarrow> memo_grows a c"
  unfolding memo_grows_def by metis

lemma longest_unique: "longest adj n v \<Longrightarrow> longest adj n w \<Longrightarrow> v = w"
  by (auto simp: longest_def intro: antisym)

lemma memo_grows_put:
  assumes "walk_memo_ok adj memo" "longest adj n (1 + fst r)"
  shows "memo_grows memo (map_put n r memo)"
  using assms longest_unique[of adj n] by (cases r) (fastforce simp: memo_grows_def walk_memo_ok_def walk_ok_def)

lemma walk_ok_mono: "walk_ok adj memo n r \<Longrightarrow> memo_grows memo memo' \<Longrightarrow> walk_ok adj memo' n r"
  by (auto simp: walk_ok_def memo_grows_def)

lemma walk_correct:
  assumes ac: "acyclic (edges adj0)" and ne: "\<forall>(a, b) \<in> edges adj0. b \<noteq> []"
  shows "adj = adj0 \<Longrightarrow> walk_memo_ok adj memo \<Longrightarrow> \<forall>v \<in> marked vis. (v, n) \<in> (edges adj)\<^sup>+ \<Longrightarrow>
      (case walk adj n memo vis of (r, memo') \<Rightarrow>
         walk_memo_ok adj memo' \<and> memo_grows memo memo' \<and> map_get memo' n = Some r)"
    and "adj = adj0 \<Longrightarrow> walk_memo_ok adj memo \<Longrightarrow> \<forall>v \<in> marked vis. \<forall>c \<in> set cs. (v, c) \<in> (edges adj)\<^sup>+ \<Longrightarrow>
      (case walk_children adj cs best memo vis of (r, memo') \<Rightarrow>
         walk_memo_ok adj memo' \<and> memo_grows memo memo'
         \<and> (\<exists>ws. list_all2 (longest adj) cs ws \<and> fst r = Max (insert (fst best) (set ws)))
         \<and> (r = best \<or> snd r \<in> set cs \<and> (\<exists>x. map_get memo' (snd r) = Some (fst r - 1, x))))"
proof (induction adj n memo vis and adj cs best memo vis rule: walk_walk_children.induct)
  case (1 adj n memo vis)
  show ?case
  proof (cases "map_get memo n")
    case None
    have "n \<notin> marked vis" using "1.prems" ac by (auto simp: acyclic_def)
    then have nv: "\<not> map_at False vis n" by (simp add: marked_def)
    have vis: "\<forall>v \<in> marked (map_put n True vis). \<forall>c \<in> set (succs adj n). (v, c) \<in> (edges adj)\<^sup>+"
      using "1.prems"(3) by (auto simp: edges_def intro: trancl_into_trancl)
    obtain r memo1 where w: "walk_children adj (succs adj n) (0, []) memo (map_put n True vis) = (r, memo1)" by fastforce
    from "1.IH"[OF None nv "1.prems"(1,2) vis] w obtain ws where
      IH: "walk_memo_ok adj memo1" "memo_grows memo memo1"
        "list_all2 (longest adj) (succs adj n) ws" "fst r = Max (insert 0 (set ws))"
        "r = (0, []) \<or> snd r \<in> set (succs adj n) \<and> (\<exists>x. map_get memo1 (snd r) = Some (fst r - 1, x))"
      by auto
    have long: "longest adj n (1 + fst r)" using longest_step[OF IH(3) IH(4)] .
    have ok: "walk_ok adj memo1 n r"
      using long IH(5) ne "1.prems"(1) by (auto simp: walk_ok_def edges_def)
    have g: "memo_grows memo1 (map_put n r memo1)" by (rule memo_grows_put[OF IH(1) long])
    have "walk_memo_ok adj (map_put n r memo1)"
      using IH(1) walk_ok_mono[OF ok g] walk_ok_mono[OF _ g]
      by (auto simp: walk_memo_ok_def simp del: split_paired_All split: if_splits)
    then show ?thesis using None nv w memo_grows_trans[OF IH(2) g] by simp
  qed (use "1.prems" in \<open>auto simp: memo_grows_def\<close>)
next
  case (3 adj c cs best memo vis)
  obtain r memo1 where w: "walk adj c memo vis = (r, memo1)" by fastforce
  have 1: "walk_memo_ok adj memo1" "memo_grows memo memo1" "map_get memo1 c = Some r"
    using "3.IH"(1) "3.prems" w by auto
  then have long: "longest adj c (1 + fst r)" by (simp add: walk_memo_ok_def walk_ok_def del: split_paired_All)
  define best1 where "best1 = (if fst r + 1 > fst best then (fst r + 1, c) else best)"
  obtain r2 memo2 where w2: "walk_children adj cs best1 memo1 vis = (r2, memo2)" by fastforce
  from "3.IH"(2)[OF w[symmetric] "3.prems"(1) 1(1)] "3.prems"(3) w2 obtain ws where
    2: "walk_memo_ok adj memo2" "memo_grows memo1 memo2" "list_all2 (longest adj) cs ws"
      "fst r2 = Max (insert (fst best1) (set ws))"
      "r2 = best1 \<or> snd r2 \<in> set cs \<and> (\<exists>x. map_get memo2 (snd r2) = Some (fst r2 - 1, x))"
    by (auto simp: best1_def)
  have "Max (insert (fst best1) (set ws)) = Max (insert (fst best) (set ((1 + fst r) # ws)))"
    by (cases "ws = []") (auto simp: Max_insert max_def best1_def)
  then have ex: "\<exists>ws. list_all2 (longest adj) (c # cs) ws \<and> fst r2 = Max (insert (fst best) (set ws))"
    using long 2(3,4) by (intro exI[of _ "(1 + fst r) # ws"]) simp
  have "\<exists>x. map_get memo2 c = Some (fst r, x)" using 1(3) 2(2) by (cases r) (auto simp: memo_grows_def)
  then have nx: "r2 = best \<or> snd r2 \<in> set (c # cs) \<and> (\<exists>x. map_get memo2 (snd r2) = Some (fst r2 - 1, x))"
    using 2(5) by (auto simp: best1_def split: if_splits)
  have wc: "walk_children adj (c # cs) best memo vis = (r2, memo2)" using w w2 by (simp add: best1_def)
  show ?case unfolding wc prod.case by (intro conjI 2(1) memo_grows_trans[OF 1(2) 2(2)] ex nx)
qed (auto simp: memo_grows_def)

lemma path_from_ok:
  assumes "walk_memo_ok adj memo" "map_get memo n = Some (int l, x)"
  shows "\<exists>p. path_from memo n = Some p \<and> length p = Suc l \<and> hd p = n \<and> successively (\<lambda>a b. (a, b) \<in> edges adj) p"
  using assms(2)
proof (induction l arbitrary: n x)
  case 0
  then have w: "walk_ok adj memo n (0, x)" using assms(1) by (simp add: walk_memo_ok_def)
  have "x = []"
  proof (rule ccontr)
    assume "x \<noteq> []"
    then obtain y where "map_get memo x = Some (-1, y)" using w by (auto simp: walk_ok_def)
    then have "longest adj x 0" using assms(1) by (fastforce simp: walk_memo_ok_def walk_ok_def)
    then show False using longest_pos by fastforce
  qed
  then show ?case using 0 by (subst path_from.simps) (simp add: map_at_def)
next
  case (Suc l)
  then have w: "walk_ok adj memo n (int (Suc l), x)" using assms(1) by (simp add: walk_memo_ok_def)
  then obtain y where x: "x \<noteq> []" "(n, x) \<in> edges adj" "map_get memo x = Some (int l, y)"
    by (auto simp: walk_ok_def split: if_splits)
  from Suc.IH[OF x(3)] obtain p where p: "path_from memo x = Some p" "length p = Suc l" "hd p = x"
    "successively (\<lambda>a b. (a, b) \<in> edges adj) p" by blast
  then have "path_from memo n = Some (n # p)" using Suc.prems x(1) by (subst path_from.simps) (simp add: map_at_def)
  then show ?case using p x(2) by (cases p) auto
qed

lemma best_start_ok:
  assumes "acyclic (edges adj)" "\<forall>(a, b) \<in> edges adj. b \<noteq> []" "walk_memo_ok adj memo"
    "best_start adj ns (b, l) memo = ((b', l'), memo')" "l = -1 \<and> b = [] \<or> 0 \<le> l \<and> (\<exists>x. map_get memo b = Some (l, x))"
  shows "walk_memo_ok adj memo' \<and> memo_grows memo memo'
    \<and> (l' = l \<and> b' = b \<or> b' \<in> gn_ID ` set ns \<and> 0 \<le> l')
    \<and> (0 \<le> l' \<longrightarrow> (\<exists>x. map_get memo' b' = Some (l', x)))
    \<and> l \<le> l' \<and> (\<forall>n \<in> set ns. \<forall>k. chain adj (gn_ID n) k \<longrightarrow> k \<le> 1 + l')"
  using assms(3-5)
proof (induction ns arbitrary: b l memo)
  case (Cons n ns)
  obtain r x memo1 where w: "walk adj (gn_ID n) memo [] = ((r, x), memo1)" by (metis surj_pair)
  have 1: "walk_memo_ok adj memo1" "memo_grows memo memo1" "map_get memo1 (gn_ID n) = Some (r, x)"
    using walk_correct(1)[OF assms(1,2) refl Cons.prems(1), of "[]" "gn_ID n"] w by (auto simp: marked_def)
  then have long: "longest adj (gn_ID n) (1 + r)" by (auto simp: walk_memo_ok_def walk_ok_def)
  have r0: "0 \<le> r" using longest_pos[OF long] by simp
  define b1 l1 where "b1 = (if r > l then gn_ID n else b)" and "l1 = (if r > l then r else l)"
  have "best_start adj ns (b1, l1) memo1 = ((b', l'), memo')"
    using Cons.prems(2) w by (simp add: b1_def l1_def split: if_splits)
  from Cons.IH[OF 1(1) this] have 2: "walk_memo_ok adj memo'" "memo_grows memo1 memo'"
    "l' = l1 \<and> b' = b1 \<or> b' \<in> gn_ID ` set ns \<and> 0 \<le> l'"
    "0 \<le> l' \<longrightarrow> (\<exists>x. map_get memo' b' = Some (l', x))" "l1 \<le> l'"
    "\<forall>n \<in> set ns. \<forall>k. chain adj (gn_ID n) k \<longrightarrow> k \<le> 1 + l'"
    using Cons.prems(3) 1(2,3) r0 by (auto simp: b1_def l1_def memo_grows_def)
  have "k \<le> 1 + l'" if "chain adj (gn_ID n) k" for k
    using that long 2(5) by (force simp: longest_def l1_def split: if_splits)
  moreover have "memo_grows memo memo'" by (rule memo_grows_trans[OF 1(2) 2(2)])
  moreover have "l' = l \<and> b' = b \<or> b' \<in> gn_ID ` set (n # ns) \<and> 0 \<le> l'"
    using 2(3) r0 by (auto simp: b1_def l1_def split: if_splits)
  ultimately show ?case using 2 by (auto simp: l1_def split: if_splits)
qed (auto simp: memo_grows_def)

lemma edges_put:
  "edges (map_put a (succs adj a @ [b]) adj) = insert (a, b) (edges adj)"
  by (auto simp: edges_def split: if_splits)

lemma dependency_edges:
  "edges (dependency_adj nodes es) = {(ge_From e, ge_To e) | e. e \<in> set es \<and> ge_Kind e \<noteq> EdgeContainment
     \<and> ge_From e \<in> gn_ID ` set nodes \<and> ge_To e \<in> gn_ID ` set nodes}"
proof -
  define step :: "Edge \<Rightarrow> string graph \<Rightarrow> string graph" where "step = (\<lambda>e adj. if ge_Kind e = EdgeContainment then adj
      else if ge_From e \<in> gn_ID ` set nodes \<and> ge_To e \<in> gn_ID ` set nodes
      then map_put (ge_From e) (succs adj (ge_From e) @ [ge_To e]) adj else adj)"
  have "edges (fold step es adj) = edges adj \<union> {(ge_From e, ge_To e) | e. e \<in> set es \<and> ge_Kind e \<noteq> EdgeContainment
     \<and> ge_From e \<in> gn_ID ` set nodes \<and> ge_To e \<in> gn_ID ` set nodes}" for adj
    by (induction es arbitrary: adj) (auto simp: step_def edges_put)
  from this[of "[]"] have "edges (fold step es []) = {(ge_From e, ge_To e) | e. e \<in> set es \<and> ge_Kind e \<noteq> EdgeContainment
     \<and> ge_From e \<in> gn_ID ` set nodes \<and> ge_To e \<in> gn_ID ` set nodes}" by (simp add: edges_def)
  then show ?thesis by (simp add: dependency_adj_def step_def Let_def)
qed

text \<open>
  (C35) When the dependencies among the shown nodes have no cycle, the critical path is computed
  and is a longest chain: it follows dependency edges from a shown node, and no chain of
  dependencies is longer. It is empty exactly when there are no dependencies.
\<close>

theorem criticalPath_longest:
  assumes "acyclic (edges (dependency_adj nodes es))" "[] \<notin> gn_ID ` set nodes"
  shows "\<exists>path. criticalPath nodes es = Some path
    \<and> (path = [] \<longleftrightarrow> edges (dependency_adj nodes es) = {})
    \<and> (path \<noteq> [] \<longrightarrow> hd path \<in> gn_ID ` set nodes \<and> 2 \<le> length path
         \<and> successively (\<lambda>a b. (a, b) \<in> edges (dependency_adj nodes es)) path)
    \<and> (\<forall>n \<in> set nodes. \<forall>k. chain (dependency_adj nodes es) (gn_ID n) k \<longrightarrow> k \<le> max 1 (int (length path)))"
proof -
  define adj where "adj = dependency_adj nodes es"
  have ends: "a \<in> gn_ID ` set nodes \<and> b \<in> gn_ID ` set nodes" if "(a, b) \<in> edges adj" for a b
    using that by (auto simp: adj_def dependency_edges)
  then have ne: "\<forall>(a, b) \<in> edges adj. b \<noteq> []" using assms(2) by fastforce
  obtain b l memo where bs: "best_start adj nodes ([], -1) [] = ((b, l), memo)" by (metis surj_pair)
  have ok: "walk_memo_ok adj memo" "l = -1 \<and> b = [] \<or> b \<in> gn_ID ` set nodes \<and> 0 \<le> l"
    "0 \<le> l \<longrightarrow> (\<exists>x. map_get memo b = Some (l, x))" "\<forall>n \<in> set nodes. \<forall>k. chain adj (gn_ID n) k \<longrightarrow> k \<le> 1 + l"
    using best_start_ok[OF assms(1)[folded adj_def] ne _ bs] by (auto simp: walk_memo_ok_def)
  have edge: "1 \<le> l" if e: "(a, c) \<in> edges adj" for a c
  proof -
    obtain n where "n \<in> set nodes" "gn_ID n = a" using ends[OF e] by auto
    moreover have "chain adj a (1 + 1)" by (rule chain.extend[OF e chain.single])
    ultimately show ?thesis using ok(4) by fastforce
  qed
  show ?thesis
  proof (cases "l = -1")
    case True
    then have "edges adj = {}" "b = []" using edge ok(2) by fastforce+
    moreover from this have "criticalPath nodes es = Some []" using bs by (simp add: criticalPath_def adj_def)
    ultimately show ?thesis using ok(4) True by (force simp: adj_def[symmetric])
  next
    case False
    then have l: "0 \<le> l" "b \<in> gn_ID ` set nodes" using ok(2) by auto
    then obtain x where "map_get memo b = Some (int (nat l), x)" using ok(3) by auto
    from path_from_ok[OF ok(1) this] obtain p where p: "path_from memo b = Some p" "length p = Suc (nat l)" "hd p = b"
      "successively (\<lambda>a b. (a, b) \<in> edges adj) p" by blast
    have "b \<noteq> []" using l(2) assms(2) by metis
    then have cp: "criticalPath nodes es = Some (if length p < 2 then [] else p)"
      using bs p(1) by (simp add: criticalPath_def adj_def)
    show ?thesis
    proof (cases "l = 0")
      case True
      then have "edges adj = {}" using edge by fastforce
      then show ?thesis using cp p(2) ok(4) True by (force simp: adj_def[symmetric])
    next
      case False
      then have "1 \<le> l" using l(1) by simp
      then obtain q r where "p = q # r" "r \<noteq> []" using p(2) by (cases p) fastforce+
      then have "edges adj \<noteq> {}" using p(4) by (cases r) auto
      then show ?thesis using cp p l ok(4) \<open>1 \<le> l\<close> by (auto simp: adj_def[symmetric])
    qed
  qed
qed

theorem criticalPath_longest_witness:
  "let node = (\<lambda>i. \<lparr>gn_ID = i, gn_Kind = NodeTask, gn_Label = i, gn_Status = [], gn_Ref = i, gn_Depth = 0, gn_AvailableActions = []\<rparr>);
       nodes = [node ''a'', node ''b'', node ''c''];
       es = [\<lparr>ge_From = ''a'', ge_To = ''b'', ge_Kind = EdgeTaskDep\<rparr>, \<lparr>ge_From = ''b'', ge_To = ''c'', ge_Kind = EdgeTaskDep\<rparr>,
             \<lparr>ge_From = ''c'', ge_To = ''a'', ge_Kind = EdgeContainment\<rparr>]
   in criticalPath nodes es \<noteq> None \<and> criticalPath nodes es \<noteq> Some []"
proof -
  define node :: "string \<Rightarrow> Node" where "node = (\<lambda>i. \<lparr>gn_ID = i, gn_Kind = NodeTask, gn_Label = i, gn_Status = [], gn_Ref = i,
    gn_Depth = 0, gn_AvailableActions = []\<rparr>)"
  define nodes where "nodes = [node ''a'', node ''b'', node ''c'']"
  define es where "es = [\<lparr>ge_From = ''a'', ge_To = ''b'', ge_Kind = EdgeTaskDep\<rparr>, \<lparr>ge_From = ''b'', ge_To = ''c'', ge_Kind = EdgeTaskDep\<rparr>,
    \<lparr>ge_From = ''c'', ge_To = ''a'', ge_Kind = EdgeContainment\<rparr>]"
  have e: "edges (dependency_adj nodes es) = {(''a'', ''b''), (''b'', ''c'')}"
    unfolding dependency_edges by (force simp: es_def nodes_def node_def)
  have ac: "acyclic {(''a'', ''b''), (''b'', ''c'')}" 
    by (rule acyclicI_order[of _ "\<lambda>s. if s = ''a'' then 2 else if s = ''b'' then 1 else (0::nat)"]) auto
  have "[] \<notin> gn_ID ` set nodes" by (simp add: nodes_def node_def)
  from criticalPath_longest[of nodes es, unfolded e, OF ac this] obtain path where
    "criticalPath nodes es = Some path" "path = [] \<longleftrightarrow> {(''a'', ''b''), (''b'', ''c'')} = {}" by blast
  then have "criticalPath nodes es \<noteq> None \<and> criticalPath nodes es \<noteq> Some []" by simp
  then show ?thesis unfolding nodes_def es_def node_def Let_def .
qed

definition looped_spec :: "string \<Rightarrow> string \<Rightarrow> NodeResponse" where
  "looped_spec a b = \<lparr>nr_Path = a, nr_Spec = Some \<lparr>sp_Title = a, sp_Status = StatusDrafted, sp_DependsOn = [b],
     sp_DispatchedTaskID = None, sp_Doc = False\<rparr>, nr_Children = [], nr_IsLeaf = True, nr_Depth = 0\<rparr>"

lemma path_from_loop:
  assumes "map_get memo a = Some (k, b)" "map_get memo b = Some (m, a)" "a \<noteq> []" "b \<noteq> []"
  shows "path_from memo a = None"
proof (rule ccontr)
  assume "path_from memo a \<noteq> None"
  then obtain p where p: "path_from memo a = Some p" by blast
  then obtain q where q: "path_from memo b = Some q" "p = a # q"
    using assms by (subst (asm) path_from.simps) (auto simp: map_at_def bind_eq_Some_conv)
  then have "q = b # p" using assms p by (subst (asm) path_from.simps) (auto simp: map_at_def)
  then show False using q(2) by (metis length_Cons n_not_Suc_n Suc_n_not_n less_not_refl lessI less_SucI)
qed

text \<open>
  (C36) Two shown specs that depend on each other make the graph endpoint hang. The guard against
  cycles ends the memoised walk, but leaves a memo table in which each of the two is the
  successor of the other, and the loop that reads the path off the table never ends.
\<close>

theorem cyclic_specs_hang:
  assumes "a \<noteq> b"
  shows "Build L [looped_spec a b, looped_spec b a] [] includeArchived = None"
proof -
  let ?ns = "[spec_node (looped_spec a b) (the (nr_Spec (looped_spec a b))), spec_node (looped_spec b a) (the (nr_Spec (looped_spec b a)))]"
  let ?es = "[\<lparr>ge_From = SpecID b, ge_To = SpecID a, ge_Kind = EdgeSpecDep\<rparr>, \<lparr>ge_From = SpecID a, ge_To = SpecID b, ge_Kind = EdgeSpecDep\<rparr>]"
  have ne: "SpecID a \<noteq> SpecID b" using assms by (simp add: SpecID_def)
  have adj: "dependency_adj ?ns ?es = [(SpecID b, [SpecID a]), (SpecID a, [SpecID b])]"
    using ne by (simp add: dependency_adj_def spec_node_def looped_spec_def map_at_def)
  have "\<exists>m. best_start (dependency_adj ?ns ?es) ?ns ([], -1) [] = ((SpecID a, 2), m)
      \<and> map_get m (SpecID a) = Some (2, SpecID b) \<and> map_get m (SpecID b) = Some (1, SpecID a)"
    unfolding adj using ne by (simp add: map_at_def spec_node_def looped_spec_def)
  then have "criticalPath ?ns ?es = None"
    using path_from_loop[of _ "SpecID a" 2 "SpecID b" 1] by (auto simp: criticalPath_def SpecID_def)
  then show ?thesis by (simp add: Build_def spec_shown_def spec_edges_def looped_spec_def)
qed

theorem cyclic_specs_hang_witness:
  "Build unary_lib [looped_spec ''a.md'' ''b.md'', looped_spec ''b.md'' ''a.md''] [] False = None"
  by (rule cyclic_specs_hang) simp

section \<open>Readiness on the Map\<close>

definition GetGraph :: "lib \<Rightarrow> Principal option \<Rightarrow> string \<Rightarrow> NodeResponse list \<Rightarrow> Store \<Rightarrow> WorkGraph option" where
  "GetGraph L p archived specTree s =
     (let includeArchived = (archived = ''1'' \<or> archived = ''true'')
      in Build L specTree (TasksForPrincipal p includeArchived s) includeArchived)"

lemma Build_tasks:
  assumes "Build L specs ts includeArchived = Some g" "t \<in> set ts" "task_shown includeArchived t" "Status t = TaskStatusBacklog"
    "lib_ok L" "\<forall>u \<in> set ts. ID u = ID t \<longrightarrow> u = t"
  shows "graph_TaskID (uuid_String L (ID t)) \<in> set (wg_Blocked g) \<longleftrightarrow> task_blocked L ts t"
    "(\<exists>n \<in> set (wg_Nodes g). gn_Kind n = NodeTask \<and> gn_Ref n = uuid_String L (ID t) \<and> ActionStart \<in> set (gn_AvailableActions n))
       \<longleftrightarrow> \<not> task_blocked L ts t"
proof -
  have inj: "uuid_String L i = uuid_String L j \<longleftrightarrow> i = j" for i j using assms(5) by (metis lib_ok_def option.inject)
  from assms(1) have g: "set (wg_Blocked g) = (\<lambda>t. graph_TaskID (uuid_String L (ID t))) `
      {t \<in> set ts. task_shown includeArchived t \<and> Status t = TaskStatusBacklog \<and> task_blocked L ts t}"
    "set (wg_Nodes g) = (\<lambda>n. spec_node n (the (nr_Spec n))) ` {n \<in> set specs. spec_shown includeArchived n}
      \<union> task_node L ts ` {t \<in> set ts. task_shown includeArchived t}"
    by (auto simp: Build_def Let_def bind_eq_Some_conv)
  show "graph_TaskID (uuid_String L (ID t)) \<in> set (wg_Blocked g) \<longleftrightarrow> task_blocked L ts t"
    unfolding g(1) using assms(2-4,6) by (auto simp: graph_TaskID_def inj image_iff)
  show "(\<exists>n \<in> set (wg_Nodes g). gn_Kind n = NodeTask \<and> gn_Ref n = uuid_String L (ID t) \<and> ActionStart \<in> set (gn_AvailableActions n))
       \<longleftrightarrow> \<not> task_blocked L ts t"
  proof
    assume "\<not> task_blocked L ts t"
    then have "ActionStart \<in> set (gn_AvailableActions (task_node L ts t))" "task_node L ts t \<in> set (wg_Nodes g)"
      unfolding g(2) using assms(2-4) by (auto simp: task_node_def Let_def)
    then show "\<exists>n \<in> set (wg_Nodes g). gn_Kind n = NodeTask \<and> gn_Ref n = uuid_String L (ID t)
        \<and> ActionStart \<in> set (gn_AvailableActions n)" by (force simp: task_node_def Let_def)
  qed (unfold g(2), use assms(6) in \<open>auto simp: spec_node_def task_node_def Let_def inj split: if_splits\<close>)
qed

lemma taskDone_iff:
  assumes "lib_ok L" "\<And>t. t \<in> set ts \<longleftrightarrow> map_get m (ID t) = Some t \<and> P t" "\<And>i t. map_get m i = Some t \<Longrightarrow> ID t = i"
  shows "taskDone L ts (uuid_String L j) \<longleftrightarrow> (\<exists>t. map_get m j = Some t \<and> P t \<and> Status t = TaskStatusDone)"
proof -
  have inj: "uuid_String L i = uuid_String L j \<longleftrightarrow> i = j" for i j using assms(1) by (metis lib_ok_def option.inject)
  show ?thesis
  proof (cases "List.find (\<lambda>t. uuid_String L (ID t) = uuid_String L j) ts")
    case None
    then have "ID t \<noteq> j" if "t \<in> set ts" for t using that by (auto simp: find_None_iff)
    then show ?thesis using None assms(2,3) by (auto simp: taskDone_def)
  next
    case (Some t)
    then have "t \<in> set ts" "uuid_String L (ID t) = uuid_String L j" by (metis (mono_tags, lifting) find_Some_iff nth_mem)+
    then have "t \<in> set ts" "ID t = j" by (simp_all add: inj)
    then show ?thesis using Some assms(2) by (auto simp: taskDone_def)
  qed
qed

text \<open>Dependencies are stored as canonical identifiers, as the canonicalisation at load time leaves them.\<close>

definition canonical_deps :: "lib \<Rightarrow> Task \<Rightarrow> bool" where
  "canonical_deps L t \<longleftrightarrow> set (DependsOn t) \<subseteq> range (uuid_String L)"

lemma GetGraph_blocked:
  assumes "store_inv L s" "lib_ok L" "map_get (tasks s) i = Some t" "canonical_deps L t"
  shows "task_blocked L (TasksForPrincipal p incl s) t \<longleftrightarrow> (\<exists>j. uuid_String L j \<in> set (DependsOn t)
    \<and> \<not> (\<exists>d. map_get (tasks s) j = Some d \<and> (incl \<or> \<not> Archived d) \<and> principalSeesTask p d \<and> Status d = TaskStatusDone))"
proof -
  have mem: "u \<in> set (TasksForPrincipal p incl s) \<longleftrightarrow>
      map_get (tasks s) (ID u) = Some u \<and> ((incl \<or> \<not> Archived u) \<and> principalSeesTask p u)" for u
    using task_values(2)[OF assms(1), of u] by (auto simp: TasksForPrincipal_def)
  have "ID u = j" if "map_get (tasks s) j = Some u" for j u
    using that assms(1) by (auto simp: store_inv_def wf_store_def keys_ok_def)
  then have "taskDone L (TasksForPrincipal p incl s) (uuid_String L j) \<longleftrightarrow>
      (\<exists>d. map_get (tasks s) j = Some d \<and> ((incl \<or> \<not> Archived d) \<and> principalSeesTask p d) \<and> Status d = TaskStatusDone)" for j
    by (rule taskDone_iff[OF assms(2) mem])
  then show ?thesis using assms(4) by (fastforce simp: task_blocked_def canonical_deps_def list_all_iff)
qed

lemma GetGraph_readiness:
  assumes "store_inv L s" "lib_ok L" "map_get (tasks s) i = Some t" "Status t = TaskStatusBacklog"
    "includeArchived = (archived = ''1'' \<or> archived = ''true'')" "includeArchived \<or> \<not> Archived t"
    "principalSeesTask p t" "GetGraph L p archived specTree s = Some g"
  shows "graph_TaskID (uuid_String L i) \<in> set (wg_Blocked g) \<longleftrightarrow> task_blocked L (TasksForPrincipal p includeArchived s) t"
    "(\<exists>n \<in> set (wg_Nodes g). gn_Kind n = NodeTask \<and> gn_Ref n = uuid_String L i \<and> ActionStart \<in> set (gn_AvailableActions n))
       \<longleftrightarrow> \<not> task_blocked L (TasksForPrincipal p includeArchived s) t"
proof -
  have i: "ID t = i" using assms(1,3) by (auto simp: store_inv_def wf_store_def keys_ok_def)
  have mem: "u \<in> set (TasksForPrincipal p includeArchived s) \<longleftrightarrow>
      map_get (tasks s) (ID u) = Some u \<and> (includeArchived \<or> \<not> Archived u) \<and> principalSeesTask p u" for u
    using task_values(2)[OF assms(1), of u] by (auto simp: TasksForPrincipal_def)
  have B: "Build L specTree (TasksForPrincipal p includeArchived s) includeArchived = Some g"
    using assms(8) unfolding GetGraph_def Let_def assms(5) .
  have "t \<in> set (TasksForPrincipal p includeArchived s)" "task_shown includeArchived t"
    "\<forall>u \<in> set (TasksForPrincipal p includeArchived s). ID u = ID t \<longrightarrow> u = t"
    using assms(3,6,7) mem i by (auto simp: task_shown_def)
  from Build_tasks[OF B this(1,2) assms(4,2) this(3)] show
    "graph_TaskID (uuid_String L i) \<in> set (wg_Blocked g) \<longleftrightarrow> task_blocked L (TasksForPrincipal p includeArchived s) t"
    "(\<exists>n \<in> set (wg_Nodes g). gn_Kind n = NodeTask \<and> gn_Ref n = uuid_String L i \<and> ActionStart \<in> set (gn_AvailableActions n))
       \<longleftrightarrow> \<not> task_blocked L (TasksForPrincipal p includeArchived s) t"
    unfolding i by blast+
qed


text \<open>
  (C34) In the default view of the Map they do not: the handler passes the builder only the tasks
  that are not archived, so a backlog task whose prerequisite is done and archived is shown as
  blocked and without the start action, although the store reports its dependencies satisfied
  and would start it.
\<close>

theorem map_default_view_blocks:
  assumes "store_inv L s" "lib_ok L" "map_get (tasks s) i = Some t" "Status t = TaskStatusBacklog" "\<not> Archived t"
    "DependsOn t = [uuid_String L j]" "map_get (tasks s) j = Some d" "Status d = TaskStatusDone" "Archived d"
    "GetGraph L None [] specTree s = Some g"
  shows "AreDependenciesSatisfied L i s = Inr True \<and> graph_TaskID (uuid_String L i) \<in> set (wg_Blocked g)
    \<and> \<not> (\<exists>n \<in> set (wg_Nodes g). gn_Kind n = NodeTask \<and> gn_Ref n = uuid_String L i \<and> ActionStart \<in> set (gn_AvailableActions n))"
proof -
  have vis: "principalSeesTask None u" for u by (simp add: principalSeesTask_def)
  have "canonical_deps L t" using assms(6) by (simp add: canonical_deps_def)
  from GetGraph_blocked[OF assms(1-3) this, of None False] have "task_blocked L (TasksForPrincipal None False s) t"
    using assms(6,7,9) by auto
  moreover have "AreDependenciesSatisfied L i s = Inr True"
    using assms(2,3,6-8) by (simp add: AreDependenciesSatisfied_def lib_ok_def)
  ultimately show ?thesis using GetGraph_readiness[OF assms(1-4) _ _ vis assms(10), of False] assms(5) by simp
qed

definition archived_prerequisite :: "Task list" where
  "archived_prerequisite = [sample_task\<lparr>Status := TaskStatusDone, Archived := True\<rparr>, sample_task\<lparr>ID := 2, DependsOn := [''xx'']\<rparr>]"

lemma archived_prerequisite_tasks:
  assumes "s = sample_store unary_lib archived_prerequisite"
  shows "store_inv unary_lib s" "map_get (tasks s) 1 = Some (sample_task\<lparr>Status := TaskStatusDone, Archived := True\<rparr>)"
    "map_get (tasks s) 2 = Some (sample_task\<lparr>ID := 2, DependsOn := [''xx'']\<rparr>)"
proof -
  have d: "distinct (map ID archived_prerequisite)" by (simp add: archived_prerequisite_def)
  note ok = sample_store_ok[OF d, of unary_lib]
  show "store_inv unary_lib s" "map_get (tasks s) 1 = Some (sample_task\<lparr>Status := TaskStatusDone, Archived := True\<rparr>)"
    "map_get (tasks s) 2 = Some (sample_task\<lparr>ID := 2, DependsOn := [''xx'']\<rparr>)"
    unfolding assms ok(4) using ok(1) by (simp_all add: archived_prerequisite_def)
qed

lemma archived_prerequisite_list:
  "TasksForPrincipal None incl (sample_store unary_lib archived_prerequisite) = filter (\<lambda>t. incl \<or> \<not> Archived t) archived_prerequisite"
  by (simp add: TasksForPrincipal_def sample_store_def install_def empty_store_def SortFunc_def archived_prerequisite_def
      principalSeesTask_def cmpTaskPositionCreatedAt_def or_else_def cmp_Compare_def)

lemma criticalPath_small:
  "criticalPath [n] [] = Some []"
  "gn_ID m \<noteq> gn_ID n \<Longrightarrow> gn_ID m \<noteq> [] \<Longrightarrow> gn_ID n \<noteq> [] \<Longrightarrow>
     criticalPath [m, n] [\<lparr>ge_From = gn_ID m, ge_To = gn_ID n, ge_Kind = k\<rparr>] \<noteq> None"
proof -
  show "criticalPath [n] [] = Some []"
    by (cases "gn_ID n = []") (simp_all add: criticalPath_def dependency_adj_def map_at_def path_from_unfold)
  assume ne: "gn_ID m \<noteq> gn_ID n" "gn_ID m \<noteq> []" "gn_ID n \<noteq> []"
  show "criticalPath [m, n] [\<lparr>ge_From = gn_ID m, ge_To = gn_ID n, ge_Kind = k\<rparr>] \<noteq> None"
  proof (cases "k = EdgeContainment")
    case True
    then have "dependency_adj [m, n] [\<lparr>ge_From = gn_ID m, ge_To = gn_ID n, ge_Kind = k\<rparr>] = []" by (simp add: dependency_adj_def)
    then show ?thesis using ne by (simp add: criticalPath_def map_at_def path_from_unfold)
  next
    case False
    then have "dependency_adj [m, n] [\<lparr>ge_From = gn_ID m, ge_To = gn_ID n, ge_Kind = k\<rparr>] = [(gn_ID m, [gn_ID n])]"
      by (simp add: dependency_adj_def map_at_def)
    then show ?thesis using ne by (simp add: criticalPath_def map_at_def path_from_unfold)
  qed
qed

lemma Build_tasks_only:
  assumes "ns = map (task_node L ts) (filter (task_shown incl) ts)"
    "es = concat (map (task_edges L ((\<lambda>t. uuid_String L (ID t)) ` set (filter (task_shown incl) ts))) (filter (task_shown incl) ts))"
    "criticalPath ns es \<noteq> None"
  shows "Build L [] ts incl \<noteq> None"
  using assms by (auto simp: Build_def Let_def)

lemma archived_prerequisite_graph:
  "GetGraph unary_lib None [] [] (sample_store unary_lib archived_prerequisite) \<noteq> None"
  "GetGraph unary_lib None ''1'' [] (sample_store unary_lib archived_prerequisite) \<noteq> None"
proof -
  let ?a = "sample_task\<lparr>Status := TaskStatusDone, Archived := True\<rparr>" and ?b = "sample_task\<lparr>ID := 2, DependsOn := [''xx'']\<rparr>"
  have str: "uuid_String unary_lib 1 = ''xx''" "uuid_String unary_lib 2 = ''xxx''" by (simp_all add: unary_lib_def numeral_2_eq_2)
  have "Build unary_lib [] [?b] False \<noteq> None"
    by (rule Build_tasks_only[of "[task_node unary_lib [?b] ?b]" _ _ _ "[]"])
      (simp_all add: task_shown_def task_edges_def str criticalPath_small(1))
  then show "GetGraph unary_lib None [] [] (sample_store unary_lib archived_prerequisite) \<noteq> None"
    unfolding GetGraph_def Let_def archived_prerequisite_list by (simp add: archived_prerequisite_def)
  let ?m = "task_node unary_lib [?a, ?b] ?a" and ?n = "task_node unary_lib [?a, ?b] ?b"
  have i: "gn_ID ?m = ''task:xx''" "gn_ID ?n = ''task:xxx''" by (simp_all add: task_node_def Let_def graph_TaskID_def str[simplified])
  have "criticalPath [?m, ?n] [\<lparr>ge_From = gn_ID ?m, ge_To = gn_ID ?n, ge_Kind = EdgeTaskDep\<rparr>] \<noteq> None"
    by (rule criticalPath_small(2)) (simp_all add: i)
  then have "Build unary_lib [] [?a, ?b] True \<noteq> None"
    by (intro Build_tasks_only[of "[?m, ?n]" _ _ _ "[\<lparr>ge_From = gn_ID ?m, ge_To = gn_ID ?n, ge_Kind = EdgeTaskDep\<rparr>]"])
      (simp_all add: task_shown_def task_edges_def str[simplified] i graph_TaskID_def)
  then show "GetGraph unary_lib None ''1'' [] (sample_store unary_lib archived_prerequisite) \<noteq> None"
    unfolding GetGraph_def Let_def archived_prerequisite_list by (simp add: archived_prerequisite_def)
qed


theorem map_default_view_blocks_witness:
  "\<exists>g. GetGraph unary_lib None [] [] (sample_store unary_lib archived_prerequisite) = Some g \<and> ''task:xxx'' \<in> set (wg_Blocked g)
    \<and> AreDependenciesSatisfied unary_lib 2 (sample_store unary_lib archived_prerequisite) = Inr True"
proof -
  obtain g where g: "GetGraph unary_lib None [] [] (sample_store unary_lib archived_prerequisite) = Some g"
    using archived_prerequisite_graph(1) by blast
  note ok = archived_prerequisite_tasks[OF refl]
  from map_default_view_blocks[OF ok(1) unary_lib_ok ok(3) _ _ _ ok(2) _ _ g] show ?thesis
    using g by (simp add: unary_lib_def numeral_2_eq_2 graph_TaskID_def)
qed

end
