(* ===== verification/Task_Effects.thy ===== *)
theory Task_Effects
  imports Store_System
begin

text \<open>
  The effect of the store methods on the tasks in memory, which is the same whether the
  write to disk succeeds or not. The runner and the automation of the server are sequences of
  store calls whose errors are mostly ignored; their proofs rewrite with these equations.
\<close>

named_theorems effects "the task map after a store method"

definition do_all :: "(Store \<Rightarrow> Store) list \<Rightarrow> Store \<Rightarrow> Store" where
  "do_all fs s = fold (\<lambda>f. f) fs s"

lemma do_all_simps [simp]:
  "do_all [] s = s" "do_all (f # fs) s = do_all fs (f s)" "do_all (fs @ gs) s = do_all gs (do_all fs s)"
  by (simp_all add: do_all_def)

section \<open>Events and blobs\<close>

lemma ensureEventsLoaded_tasks [simp]: "tasks (ensureEventsLoadedLocked i s) = tasks s"
  by (simp add: ensureEventsLoadedLocked_def loadEvents_def split: sum.split)

lemma InsertEvent_tasks [simp]: "tasks (fst (InsertEvent ctx i ty data now s)) = tasks s"
  by (simp add: InsertEvent_def Let_def split: prod.split sum.split)

lemma AppendTurnUsage_tasks [simp]: "tasks (fst (AppendTurnUsage i rec s)) = tasks s"
  by (simp add: AppendTurnUsage_def split: option.split)

lemma SaveTurnOutput_get:
  "map_get (tasks (fst (SaveTurnOutput i turn out err now s))) j = map_get (tasks s) j
   \<or> j = i \<and> map_get (tasks (fst (SaveTurnOutput i turn out err now s))) j =
       map_option (\<lambda>t. stamped (t\<lparr>TruncatedTurns := TruncatedTurns t @ [turn], UpdatedAt := now\<rparr>)) (map_get (tasks s) j)"
proof -
  have m: "map_get (tasks (fst (mark_truncated b i turn now s))) j =
     (if b \<and> j = i then map_option (\<lambda>t. stamped (t\<lparr>TruncatedTurns := TruncatedTurns t @ [turn], UpdatedAt := now\<rparr>)) (map_get (tasks s) j)
      else map_get (tasks s) j)" for b s
    by (simp add: mark_truncated_def MarkTurnTruncated_def mutateTask_assign_get)
  obtain o1 n where 1: "truncateTurnData out s = (o1, n)" by fastforce
  obtain b1 r1 where 2: "SaveBlob i (stdout_key turn) (BBytes o1) (backend s) = (b1, r1)" by fastforce
  obtain o2 k where 3: "truncateTurnData err (s\<lparr>backend := b1\<rparr>) = (o2, k)" by fastforce
  obtain b2 r2 where 4: "SaveBlob i (stderr_key turn) (BBytes o2) b1 = (b2, r2)" by fastforce
  show ?thesis
    by (cases r1; cases r2; cases "err = []") (auto simp: SaveTurnOutput_def 1 2 3 4 m)
qed

section \<open>Fields\<close>

lemma field_effects [effects]:
  "map_get (tasks (fst (UpdateTaskTurns i turns now s))) j =
     (if j = i then map_option (\<lambda>t. stamped (t\<lparr>Turns := turns, UpdatedAt := now\<rparr>)) (map_get (tasks s) i) else map_get (tasks s) j)"
  "map_get (tasks (fst (UpdateTaskResult i result sid stop turns now s))) j =
     (if j = i then map_option (\<lambda>t. stamped (t\<lparr>Result := Some result, SessionID := Some sid, StopReason := Some stop,
        Turns := turns, UpdatedAt := now\<rparr>)) (map_get (tasks s) i) else map_get (tasks s) j)"
  "map_get (tasks (fst (UpdateTaskEnvironment i env now s))) j =
     (if j = i then map_option (\<lambda>t. stamped (t\<lparr>Environment := Some env, UpdatedAt := now\<rparr>)) (map_get (tasks s) i) else map_get (tasks s) j)"
  "map_get (tasks (fst (AccumulateSubAgentUsage i agent delta now s))) j =
     (if j = i then map_option (\<lambda>t. stamped ((add_usage agent delta t)\<lparr>UpdatedAt := now\<rparr>)) (map_get (tasks s) i) else map_get (tasks s) j)"
  "map_get (tasks (fst (UpdateTaskWorktrees i paths branch now s))) j =
     (if j = i then map_option (\<lambda>t. stamped (t\<lparr>WorktreePaths := paths, BranchName := branch, UpdatedAt := now\<rparr>)) (map_get (tasks s) i) else map_get (tasks s) j)"
  "map_get (tasks (fst (UpdateTaskTestRun i isTest verdict now s))) j =
     (if j = i then map_option (\<lambda>t. stamped ((set_test_run isTest verdict t)\<lparr>UpdatedAt := now\<rparr>)) (map_get (tasks s) i) else map_get (tasks s) j)"
  "map_get (tasks (fst (UpdateTaskPendingTestFeedback i msg now s))) j =
     (if j = i then map_option (\<lambda>t. stamped (t\<lparr>PendingTestFeedback := msg, UpdatedAt := now\<rparr>)) (map_get (tasks s) i) else map_get (tasks s) j)"
  "map_get (tasks (fst (IncrementTestFailCount i now s))) j =
     (if j = i then map_option (\<lambda>t. stamped (t\<lparr>TestFailCount := TestFailCount t + 1, UpdatedAt := now\<rparr>)) (map_get (tasks s) i) else map_get (tasks s) j)"
  "map_get (tasks (fst (ResetTestFailCount i now s))) j =
     (if j = i then map_option (\<lambda>t. stamped (t\<lparr>TestFailCount := 0, UpdatedAt := now\<rparr>)) (map_get (tasks s) i) else map_get (tasks s) j)"
  "map_get (tasks (fst (SetTaskFailureCategory i cat now s))) j =
     (if j = i then map_option (\<lambda>t. stamped (t\<lparr>FailureCategory := cat, UpdatedAt := now\<rparr>)) (map_get (tasks s) i) else map_get (tasks s) j)"
  "map_get (tasks (fst (IncrementAutoRetryCount i cat now s))) j =
     (if j = i then map_option (\<lambda>t. stamped ((consume_retry cat t)\<lparr>UpdatedAt := now\<rparr>)) (map_get (tasks s) i) else map_get (tasks s) j)"
  "map_get (tasks (fst (ClearReviewResult i now s))) j =
     (if j = i then map_option (\<lambda>t. stamped (t\<lparr>ReviewUnresolved := None, ReviewHeadline := [], ReviewSessionDir := [], UpdatedAt := now\<rparr>))
        (map_get (tasks s) i) else map_get (tasks s) j)"
  by (simp_all add: UpdateTaskTurns_def UpdateTaskResult_def UpdateTaskEnvironment_def AccumulateSubAgentUsage_def
      UpdateTaskWorktrees_def UpdateTaskTestRun_def UpdateTaskPendingTestFeedback_def IncrementTestFailCount_def
      ResetTestFailCount_def SetTaskFailureCategory_def IncrementAutoRetryCount_def ClearReviewResult_def
      mutateTask_assign_get)

section \<open>Status\<close>

lemma buildAndSaveSummary_tasks [simp]: "tasks (buildAndSaveSummary t s) = tasks s"
  by (simp add: buildAndSaveSummary_def SaveSummary_def split: prod.split)

lemma complete_done_tasks [simp]: "tasks (complete_done st t s) = tasks s"
  by (simp add: complete_done_def Let_def)

lemma schedule_tasks [simp]: "tasks (scheduleTerminalCompaction i s) = tasks s"
  by (simp add: scheduleTerminalCompaction_def)

lemma write_and_notify_get:
  assumes "\<And>t s. tasks (act t s) = tasks s"
  shows "map_get (tasks (fst (write_and_notify i t act s))) j = (if j = i then Some (stamped t) else map_get (tasks s) j)"
proof -
  obtain e where "store_task i t s =
     (if save_ok (ID t) s
      then (s\<lparr>backend := written s t, tasks := map_put i (stamped t) (tasks s)\<rparr>, Inr (stamped t))
      else (s\<lparr>tasks := map_put i (stamped t) (tasks s)\<rparr>, Inl e))" using store_task_eq by blast
  then show ?thesis by (simp add: write_and_notify_def assms)
qed

lemma set_status_get:
  "map_get (tasks (fst (set_status i t st n1 n2 s))) j =
     (if j = i then Some (stamped (with_status st n1 n2 t)) else map_get (tasks s) j)"
proof -
  have w: "map_get (tasks (fst (write_and_notify i (with_status st n1 n2 t) (complete_done st) (move_status (Status t) st i s)))) j =
     (if j = i then Some (stamped (with_status st n1 n2 t)) else map_get (tasks s) j)"
    by (simp add: write_and_notify_get)
  show ?thesis
    by (cases "write_and_notify i (with_status st n1 n2 t) (complete_done st) (move_status (Status t) st i s)";
        cases "snd (write_and_notify i (with_status st n1 n2 t) (complete_done st) (move_status (Status t) st i s))")
      (use w in \<open>auto simp: set_status_def\<close>)
qed

lemma UpdateTaskStatus_get [effects]:
  "map_get (tasks (fst (UpdateTaskStatus i st n1 n2 s))) j =
     (if j = i then map_option (\<lambda>t. if st \<in> set (AllowedTransitions (Status t)) then stamped (with_status st n1 n2 t) else t)
        (map_get (tasks s) i) else map_get (tasks s) j)"
  by (simp add: UpdateTaskStatus_def set_status_get Validate_cases AllowedTransitions_def split: option.split)

lemma ForceUpdateTaskStatus_get [effects]:
  "map_get (tasks (fst (ForceUpdateTaskStatus i st n1 n2 s))) j =
     (if j = i then map_option (\<lambda>t. stamped (with_status st n1 n2 t)) (map_get (tasks s) i) else map_get (tasks s) j)"
  by (simp add: ForceUpdateTaskStatus_def set_status_get split: option.split)

declare ResetTaskForRetry_get [effects]

lemma with_status_fields [simp]:
  "Status (with_status st n1 n2 t) = st" "IsTestRun (with_status st n1 n2 t) = IsTestRun t"
  "TestFailCount (with_status st n1 n2 t) = TestFailCount t" "SessionID (with_status st n1 n2 t) = SessionID t"
  "Result (with_status st n1 n2 t) = Result t" "Usage (with_status st n1 n2 t) = Usage t"
  "FailureCategory (with_status st n1 n2 t) = FailureCategory t" "LastTestResult (with_status st n1 n2 t) = LastTestResult t"
  "PendingTestFeedback (with_status st n1 n2 t) = PendingTestFeedback t" "AutoRetryCount (with_status st n1 n2 t) = AutoRetryCount t"
  "AutoRetryBudget (with_status st n1 n2 t) = AutoRetryBudget t" "WorktreePaths (with_status st n1 n2 t) = WorktreePaths t"
  by (simp_all add: with_status_def Let_def)

lemma stamped_fields [simp]:
  "IsTestRun (stamped t) = IsTestRun t" "TestFailCount (stamped t) = TestFailCount t" "SessionID (stamped t) = SessionID t"
  "Result (stamped t) = Result t" "Usage (stamped t) = Usage t" "FailureCategory (stamped t) = FailureCategory t"
  "LastTestResult (stamped t) = LastTestResult t" "PendingTestFeedback (stamped t) = PendingTestFeedback t"
  "AutoRetryCount (stamped t) = AutoRetryCount t" "AutoRetryBudget (stamped t) = AutoRetryBudget t"
  "WorktreePaths (stamped t) = WorktreePaths t" "MaxCostUSD (stamped t) = MaxCostUSD t" "MaxInputTokens (stamped t) = MaxInputTokens t"
  by (simp_all add: stamped_def)

section \<open>Success\<close>

text \<open>When writes of task files succeed and the store is consistent, the methods report no error.\<close>

definition quiet :: "lib \<Rightarrow> Store \<Rightarrow> bool" where
  "quiet L s \<longleftrightarrow> store_inv L s \<and> no_save_faults s"

lemma quiet_step: "quiet L s \<Longrightarrow> good_step L s s' \<Longrightarrow> quiet L s'"
  by (simp add: quiet_def good_step_def no_save_faults_def)

lemma quiet_save_ok:
  assumes "quiet L s" "map_get (tasks s) i = Some t"
  shows "save_ok i s" "subs_inv (store_hub s)" "ID t = i"
  using assms inv_in_tasks(1,3)[of L s i t]
  by (auto simp: quiet_def save_ok_def no_save_faults_def store_inv_def wf_store_def)

lemma write_and_notify_ok:
  assumes "save_ok (ID t) s" "subs_inv (store_hub s)" "\<And>t s. store_hub (act t s) = store_hub s"
  shows "snd (write_and_notify i t act s) = Inr ()"
proof -
  obtain e where "store_task i t s =
     (if save_ok (ID t) s
      then (s\<lparr>backend := written s t, tasks := map_put i (stamped t) (tasks s)\<rparr>, Inr (stamped t))
      else (s\<lparr>tasks := map_put i (stamped t) (tasks s)\<rparr>, Inl e))" using store_task_eq by blast
  then show ?thesis using assms by (simp add: write_and_notify_def notify_eq)
qed

lemma complete_done_hub [simp]: "store_hub (complete_done st t s) = store_hub s"
  by (simp add: complete_done_def Let_def buildAndSaveSummary_def SaveSummary_def split: prod.split)

lemma set_status_ok:
  assumes "quiet L s" "map_get (tasks s) i = Some t"
  shows "snd (set_status i t st n1 n2 s) = Inr ()"
proof -
  have "ID (with_status st n1 n2 t) = i" using quiet_save_ok(3)[OF assms] by (simp add: with_status_def Let_def)
  then have "snd (write_and_notify i (with_status st n1 n2 t) (complete_done st) (move_status (Status t) st i s)) = Inr ()"
    using quiet_save_ok(1,2)[OF assms] by (intro write_and_notify_ok) (simp_all add: save_ok_def)
  then show ?thesis
    by (cases "write_and_notify i (with_status st n1 n2 t) (complete_done st) (move_status (Status t) st i s)")
      (simp add: set_status_def)
qed

lemma status_ok:
  assumes "quiet L s" "map_get (tasks s) i = Some t"
  shows "snd (ForceUpdateTaskStatus i st n1 n2 s) = Inr ()"
    "st \<in> set (AllowedTransitions (Status t)) \<Longrightarrow> snd (UpdateTaskStatus i st n1 n2 s) = Inr ()"
  using set_status_ok[OF assms]
  by (simp_all add: ForceUpdateTaskStatus_def UpdateTaskStatus_def assms(2) Validate_cases AllowedTransitions_def)

lemma mutate_ok:
  assumes "quiet L s" "map_get (tasks s) i = Some t" "ID (f t) = ID t"
  shows "snd (mutateTask i (assign f) now s) = Inr ()"
  using quiet_save_ok[OF assms(1,2)] assms(2,3) write_and_notify_ok[of "(f t)\<lparr>UpdatedAt := now\<rparr>" s "\<lambda>_ s. s" i]
  by (simp add: mutateTask_def assign_def write_and_notify_plain)

end
