(* ===== verification/Runner_Turns.thy ===== *)
theory Runner_Turns
  imports Task_Effects
begin

text \<open>
  \<open>internal/runner/execute.go\<close> and \<open>execute_testrun.go\<close>: the loop that runs an agent turn by turn
  and moves its task out of \<open>in_progress\<close>.

  A run is driven by the list of replies of the agent's container, one per turn; the run has
  not returned when the list ends and the loop wants another turn. A reply also says what
  other goroutines did to the store while the container ran. What lies outside these two
  files is an argument: flow resolution and the flow engine, worktree set-up, oversight and
  the verdict that the regular expressions read off the test agent's text. Every clock
  reading is an argument too; \<open>c n\<close> is the reading at the n-th call of the clock.
\<close>

section \<open>Failures\<close>

record go_error =
  err_msg :: string
  err_deadline :: bool

definition Contains :: "string \<Rightarrow> string \<Rightarrow> bool" where
  "Contains s sub \<longleftrightarrow> Index s sub \<noteq> None"

definition classifyFailure :: "go_error option \<Rightarrow> bool \<Rightarrow> string \<Rightarrow> FailureCategory" where
  "classifyFailure err isError result =
     (if (case err of Some e \<Rightarrow> err_deadline e | None \<Rightarrow> False) then FailureCategoryTimeout
      else if Contains result ''budget exceeded'' then FailureCategoryBudget
      else if isError then FailureCategoryAgentError
      else case err of
             Some e \<Rightarrow> if Contains (err_msg e) ''empty output'' \<or> Contains (err_msg e) ''exit status''
                        then FailureCategoryContainerCrash else FailureCategoryUnknown
           | None \<Rightarrow> FailureCategoryUnknown)"

text \<open>Events are written with the background context, which carries no actor.\<close>

abbreviation bg_event :: "uuid \<Rightarrow> EventType \<Rightarrow> event_data \<Rightarrow> time \<Rightarrow> Store \<Rightarrow> Store" where
  "bg_event i ty data now s \<equiv> fst (InsertEvent (Some None) i ty data now s)"

definition state_change :: "TaskStatus \<Rightarrow> TaskStatus \<Rightarrow> event_data" where
  "state_change from to = DataStrings (NewStateChangeData from to TriggerSystem [])"

definition tryAutoRetry :: "uuid \<Rightarrow> FailureCategory \<Rightarrow> (nat \<Rightarrow> time) \<Rightarrow> Store \<Rightarrow> Store \<times> bool" where
  "tryAutoRetry i category c s =
     (case GetTask i s of
        Inl _ \<Rightarrow> (s, False)
      | Inr t \<Rightarrow>
          if \<not> IsAutoRetryEligible t category then (s, False)
          else case IncrementAutoRetryCount i category (c 0) s of
                 (s1, Inl _) \<Rightarrow> (s1, False)
               | (s1, Inr _) \<Rightarrow>
                   let s2 = (case GetTask i s1 of
                               Inl _ \<Rightarrow> s1
                             | Inr updated \<Rightarrow>
                                 bg_event i EventTypeSystem
                                   (DataStrings [(''message'', ''auto-retry '' @ fmt_d (AutoRetryCount updated) @ ''/''
                                      @ fmt_d MaxAutoRetries @ '' after '' @ FailureCategory_string category)]) (c 1) s1)
                   in (fst (UpdateTaskStatus i TaskStatusBacklog (c 2) (c 3) s2), True))"

definition mark_failed :: "uuid \<Rightarrow> (nat \<Rightarrow> time) \<Rightarrow> Store \<Rightarrow> Store" where
  "mark_failed i c s = do_all
     [\<lambda>s. fst (UpdateTaskStatus i TaskStatusFailed (c 4) (c 5) s),
      bg_event i EventTypeStateChange (state_change TaskStatusInProgress TaskStatusFailed) (c 6)] s"

definition retry_or_fail :: "uuid \<Rightarrow> FailureCategory \<Rightarrow> (nat \<Rightarrow> time) \<Rightarrow> Store \<Rightarrow> Store" where
  "retry_or_fail i category c s =
     (case tryAutoRetry i category c s of (s1, retried) \<Rightarrow> if retried then s1 else mark_failed i c s1)"

definition run_guard :: "uuid \<Rightarrow> (nat \<Rightarrow> time) \<Rightarrow> Store \<Rightarrow> Store" where
  "run_guard i c s =
     retry_or_fail i FailureCategoryUnknown c (fst (SetTaskFailureCategory i FailureCategoryUnknown (c 7) s))"

section \<open>Turns\<close>

record agentOutput =
  out_Result :: string
  out_StopReason :: string
  out_SessionID :: string
  out_ObservedModel :: string
  out_Usage :: TaskUsage
  out_IsError :: bool
  out_ActualSandbox :: harness_ID

datatype container_result = ContainerError go_error | ContainerOutput agentOutput | ContainerPanic

record container_reply =
  rep_result :: container_result
  rep_stdout :: string
  rep_stderr :: string
  rep_session :: string
  rep_during :: "Store \<Rightarrow> Store"
  rep_clock :: "nat \<Rightarrow> time"

text \<open>
  What is fixed during a run: the task as it was read at the start, whether a board directory
  exists, and the code that is an argument. \<open>rep_session\<close> is what \<open>extractSessionID\<close> finds in the
  output of the container.
\<close>

record run_frame =
  rf_ID :: uuid
  rf_task :: Task
  rf_board :: bool
  rf_oversight :: "Store \<Rightarrow> Store"
  rf_testOversight :: "Store \<Rightarrow> Store"
  rf_verdict :: "string \<Rightarrow> string"

record turn_state =
  ts_store :: Store
  ts_turns :: int
  ts_sessionID :: string
  ts_prompt :: string
  ts_testSessionID :: string
  ts_execEnv :: ExecutionEnvironment

datatype turn_result = Continue turn_state | Return Store

definition span :: "string \<Rightarrow> string \<Rightarrow> event_data" where
  "span phase label = DataSpan \<lparr>Phase = phase, Label = label\<rparr>"

definition turn_label :: "bool \<Rightarrow> int \<Rightarrow> string" where
  "turn_label isTestRun turns = (if isTestRun then ''test_'' else ''implementation_'') @ fmt_d turns"

definition begin_turn :: "run_frame \<Rightarrow> (nat \<Rightarrow> time) \<Rightarrow> turn_state \<Rightarrow> turn_state" where
  "begin_turn F c ts =
     (let turns = ts_turns ts + 1; i = rf_ID F; board = ''board_context_'' @ fmt_d turns
      in ts\<lparr>ts_turns := turns, ts_store := do_all
           ((if rf_board F then [bg_event i EventTypeSpanStart (span ''board_context'' board) (c 10),
                                 bg_event i EventTypeSpanEnd (span ''board_context'' board) (c 11)] else [])
            @ [bg_event i EventTypeSpanStart (span ''agent_turn'' (turn_label (IsTestRun (rf_task F)) turns)) (c 12)])
           (ts_store ts)\<rparr>)"

definition end_container :: "run_frame \<Rightarrow> container_reply \<Rightarrow> turn_state \<Rightarrow> turn_state" where
  "end_container F rep ts =
     (let i = rf_ID F; turns = ts_turns ts; c = rep_clock rep
      in ts\<lparr>ts_store := do_all
           ([rep_during rep,
             bg_event i EventTypeSpanEnd (span ''agent_turn'' (turn_label (IsTestRun (rf_task F)) turns)) (c 13),
             \<lambda>s. fst (SaveTurnOutput i turns (rep_stdout rep) (rep_stderr rep) (c 14) s)]
            @ (if rep_stderr rep \<noteq> []
               then [bg_event i EventTypeSystem (DataStrings [(''stderr_file'', ''turn-'' @ fmt_0d 4 turns @ ''.stderr.txt''),
                       (''turn'', fmt_d turns)]) (c 15)] else []))
           (ts_store ts)\<rparr>)"

definition fresh_session :: "run_frame \<Rightarrow> turn_state \<Rightarrow> turn_state" where
  "fresh_session F ts = ts\<lparr>ts_sessionID := [],
     ts_prompt := (if ExecutionPrompt (rf_task F) \<noteq> [] then ExecutionPrompt (rf_task F) else Prompt (rf_task F))\<rparr>"

definition cancelled :: "uuid \<Rightarrow> Store \<Rightarrow> bool" where
  "cancelled i s = (case GetTask i s of Inl _ \<Rightarrow> False | Inr t \<Rightarrow> Status t = TaskStatusCancelled)"

definition on_error :: "run_frame \<Rightarrow> container_reply \<Rightarrow> go_error \<Rightarrow> turn_state \<Rightarrow> turn_result" where
  "on_error F rep e ts =
     (let i = rf_ID F; c = rep_clock rep; s = ts_store ts;
          sessionID = (if ts_sessionID ts = [] \<and> rep_stdout rep \<noteq> [] \<and> rep_session rep \<noteq> []
                       then rep_session rep else ts_sessionID ts)
      in if sessionID \<noteq> [] \<and> Contains (err_msg e) ''empty output from container''
         then Continue (fresh_session F (ts\<lparr>ts_store := bg_event i EventTypeSystem
                (DataStrings [(''result'', ''Session resume failed (empty output). Retrying with fresh session...'')]) (c 20) s\<rparr>))
         else if cancelled i s then Return s
         else let category = classifyFailure (Some e) False []
              in Return (retry_or_fail i category c (do_all
                   [\<lambda>s. fst (SetTaskFailureCategory i category (c 21) s),
                    \<lambda>s. fst (UpdateTaskResult i (err_msg e) sessionID [] (ts_turns ts) (c 22) s),
                    bg_event i EventTypeError (DataStrings [(''error'', err_msg e)]) (c 23)] s)))"

section \<open>Output of a turn\<close>

definition record_output :: "run_frame \<Rightarrow> (nat \<Rightarrow> time) \<Rightarrow> agentOutput \<Rightarrow> turn_state \<Rightarrow> turn_state" where
  "record_output F c out ts =
     (let i = rf_ID F; isTestRun = IsTestRun (rf_task F); turns = ts_turns ts;
          observed = (out_ObservedModel out \<noteq> [] \<and> out_ObservedModel out \<noteq> ModelName (ts_execEnv ts));
          env = (if observed then (ts_execEnv ts)\<lparr>ModelName := out_ObservedModel out\<rparr> else ts_execEnv ts);
          sid = (if \<not> isTestRun \<and> out_SessionID out \<noteq> [] then out_SessionID out else ts_sessionID ts);
          testSid = (if isTestRun \<and> out_SessionID out \<noteq> [] then out_SessionID out else ts_testSessionID ts);
          subAgent = (if isTestRun then ''test'' else ''implementation'')
      in ts\<lparr>ts_execEnv := env, ts_sessionID := sid, ts_testSessionID := testSid, ts_store := do_all
           ([bg_event i EventTypeOutput (DataStrings [(''result'', out_Result out), (''stop_reason'', out_StopReason out),
               (''session_id'', out_SessionID out)]) (c 30)]
            @ (if observed then [\<lambda>s. fst (UpdateTaskEnvironment i env (c 31) s)] else [])
            @ [if isTestRun then (\<lambda>s. fst (UpdateTaskTurns i turns (c 32) s))
               else (\<lambda>s. fst (UpdateTaskResult i (out_Result out) sid (out_StopReason out) turns (c 32) s)),
               \<lambda>s. fst (AccumulateSubAgentUsage i subAgent (out_Usage out) (c 33) s),
               \<lambda>s. fst (AppendTurnUsage i \<lparr>Turn = turns, tu_Timestamp = c 34, tu_Usage = out_Usage out,
                 tu_StopReason = out_StopReason out, tu_Sandbox = out_ActualSandbox out, SubAgent = subAgent\<rparr> s)])
           (ts_store ts)\<rparr>)"

definition input_tokens :: "TaskUsage \<Rightarrow> int" where
  "input_tokens u = InputTokens u + CacheReadInputTokens u + CacheCreationTokens u"

definition cost_exceeded :: "Task \<Rightarrow> bool" where
  "cost_exceeded t \<longleftrightarrow> MaxCostUSD t > 0 \<and> CostUSD (Usage t) \<ge> MaxCostUSD t"

definition over_budget :: "Task \<Rightarrow> bool" where
  "over_budget t \<longleftrightarrow> cost_exceeded t \<or> MaxInputTokens t > 0 \<and> input_tokens (Usage t) \<ge> MaxInputTokens t"

text \<open>\<open>%.4f\<close>: four decimals, rounded to nearest.\<close>

definition fmt_4f :: "real \<Rightarrow> string" where
  "fmt_4f x = (let n = nat \<bar>round (x * 10000)\<bar>
     in (if x < 0 then ''-'' else []) @ dec (n div 10000) @ ''.'' @ fmt_0d 4 (int (n mod 10000)))"

definition budget_reason :: "Task \<Rightarrow> string" where
  "budget_reason t =
     (if cost_exceeded t then ''cost budget exceeded: $'' @ fmt_4f (CostUSD (Usage t)) @ '' of $'' @ fmt_4f (MaxCostUSD t)
      else ''token budget exceeded: '' @ fmt_d (input_tokens (Usage t)) @ '' of '' @ fmt_d (MaxInputTokens t) @ '' input tokens'')"

definition pause_for_budget :: "uuid \<Rightarrow> (nat \<Rightarrow> time) \<Rightarrow> Task \<Rightarrow> Store \<Rightarrow> Store" where
  "pause_for_budget i c t s = do_all
     [\<lambda>s. fst (UpdateTaskStatus i TaskStatusWaiting (c 40) (c 41) s),
      \<lambda>s. fst (SetTaskFailureCategory i FailureCategoryBudget (c 42) s),
      bg_event i EventTypeStateChange (state_change TaskStatusInProgress TaskStatusWaiting) (c 43),
      bg_event i EventTypeSystem (DataRaw (''{\"budget_exceeded\":true,\"message\":\"'' @ budget_reason t @ ''\"}'')) (c 44),
      bg_event i EventTypeSpanStart (span ''feedback_waiting'' ''feedback_waiting'') (c 45)] s"

definition buildTestFailureFeedback :: "string \<Rightarrow> string" where
  "buildTestFailureFeedback result =
     (let r = TrimSpace result; r = (if r = [] then ''The test agent did not provide detailed failure output.'' else r)
      in ''Automated test verification failed. Address the following issues before continuing:'' @ [CHR 0x0A, CHR 0x0A] @ r)"

definition finalizeTestRun :: "run_frame \<Rightarrow> (nat \<Rightarrow> time) \<Rightarrow> string \<Rightarrow> Store \<Rightarrow> Store" where
  "finalizeTestRun F c result s =
     (let i = rf_ID F; v = rf_verdict F result; verdict = (if v = [] then ''fail'' else v)
      in do_all
       ([\<lambda>s. fst (UpdateTaskTestRun i False verdict (c 50) s)]
        @ (if verdict = ''fail''
           then [\<lambda>s. fst (IncrementTestFailCount i (c 51) s),
                 \<lambda>s. fst (UpdateTaskPendingTestFeedback i (buildTestFailureFeedback result) (c 52) s)]
           else [\<lambda>s. fst (ResetTestFailCount i (c 51) s)])
        @ [rf_testOversight F,
           bg_event i EventTypeSystem (DataStrings [(''result'', ''Test verification complete: ''
             @ (if verdict = ''fail'' then ''FAIL'' else ''PASS''))]) (c 53),
           \<lambda>s. fst (UpdateTaskStatus i TaskStatusWaiting (c 54) (c 55) s),
           bg_event i EventTypeStateChange (state_change TaskStatusInProgress TaskStatusWaiting) (c 56),
           bg_event i EventTypeSpanStart (span ''feedback_waiting'' ''feedback_waiting'') (c 57)]) s)"

text \<open>
  The stop reason decides: \<open>end_turn\<close> ends the run, \<open>max_tokens\<close> and \<open>pause_turn\<close> continue it with
  an empty prompt, and any other waits for the user. The oversight of a finished turn is
  generated in the background, that of an unknown stop reason in place.
\<close>

definition await_feedback :: "uuid \<Rightarrow> (nat \<Rightarrow> time) \<Rightarrow> string option \<Rightarrow> Store \<Rightarrow> Store" where
  "await_feedback i c note s = do_all
     ([\<lambda>s. fst (UpdateTaskStatus i TaskStatusWaiting (c 60) (c 61) s),
       bg_event i EventTypeStateChange (state_change TaskStatusInProgress TaskStatusWaiting) (c 62)]
      @ (case note of Some m \<Rightarrow> [bg_event i EventTypeSystem (DataStrings [(''result'', m)]) (c 63)] | None \<Rightarrow> [])
      @ [bg_event i EventTypeSpanStart (span ''feedback_waiting'' ''feedback_waiting'') (c 64)]) s"

definition review_note :: string where
  "review_note = ''Task complete '' @ map char_of [0xE2, 0x80, 0x94 :: nat] @ '' awaiting review.''"

definition on_stop :: "run_frame \<Rightarrow> (nat \<Rightarrow> time) \<Rightarrow> agentOutput \<Rightarrow> turn_state \<Rightarrow> turn_result" where
  "on_stop F c out ts =
     (let i = rf_ID F; isTestRun = IsTestRun (rf_task F); s = ts_store ts
      in if out_StopReason out = ''end_turn''
         then Return (if isTestRun then finalizeTestRun F c (out_Result out) s
                      else await_feedback i c (Some review_note) s)
         else if out_StopReason out \<in> {''max_tokens'', ''pause_turn''}
         then Continue (ts\<lparr>ts_prompt := [], ts_sessionID :=
                (if isTestRun \<and> ts_testSessionID ts \<noteq> [] then ts_testSessionID ts else ts_sessionID ts)\<rparr>)
         else if cancelled i s then Return s
         else Return (if isTestRun then finalizeTestRun F c (out_Result out) s
                      else await_feedback i c None (rf_oversight F s)))"

definition on_output :: "run_frame \<Rightarrow> container_reply \<Rightarrow> agentOutput \<Rightarrow> turn_state \<Rightarrow> turn_result" where
  "on_output F rep out ts0 =
     (let i = rf_ID F; c = rep_clock rep; ts = record_output F c out ts0; s = ts_store ts
      in case (case GetTask i s of Inr t \<Rightarrow> if over_budget t then Some t else None | Inl _ \<Rightarrow> None) of
           Some t \<Rightarrow> Return (pause_for_budget i c t s)
         | None \<Rightarrow>
             if out_IsError out then
               if ts_sessionID ts \<noteq> [] \<and> Contains (out_Result out @ '' '' @ rep_stdout rep) ''No conversation found''
               then Continue (fresh_session F (ts\<lparr>ts_store := bg_event i EventTypeSystem
                      (DataStrings [(''result'', ''Session expired or lost. Retrying with fresh session...'')]) (c 35) s\<rparr>))
               else let category = classifyFailure None True (out_Result out)
                    in Return (retry_or_fail i category c (fst (SetTaskFailureCategory i category (c 36) s)))
             else on_stop F c out ts)"

definition run_turn :: "run_frame \<Rightarrow> container_reply \<Rightarrow> turn_state \<Rightarrow> turn_result" where
  "run_turn F rep ts0 =
     (let ts = end_container F rep (begin_turn F (rep_clock rep) ts0)
      in case rep_result rep of
           ContainerError e \<Rightarrow> on_error F rep e ts
         | ContainerOutput out \<Rightarrow> on_output F rep out ts
         | ContainerPanic \<Rightarrow> Return (run_guard (rf_ID F) (rep_clock rep)
             (rep_during rep (ts_store (begin_turn F (rep_clock rep) ts0)))))"

fun run_loop :: "run_frame \<Rightarrow> container_reply list \<Rightarrow> turn_state \<Rightarrow> Store option" where
  "run_loop F [] ts = None"
| "run_loop F (rep # reps) ts =
     (case run_turn F rep ts of Return s \<Rightarrow> Some s | Continue ts' \<Rightarrow> run_loop F reps ts')"

section \<open>The run\<close>

record run_env =
  re_clock :: "nat \<Rightarrow> time"
  re_execEnv :: "Task \<Rightarrow> ExecutionEnvironment"
  re_flowSlug :: "Task \<Rightarrow> string"
  re_agentic :: "(Task \<Rightarrow> string \<Rightarrow> Store \<Rightarrow> Store) option"
  re_flowEngine :: bool
  re_flow :: "(Task \<Rightarrow> Store \<Rightarrow> Store \<times> go_error option) option"
  re_native :: "(Task \<Rightarrow> string \<Rightarrow> Store \<Rightarrow> Store) option"
  re_worktreeValid :: "string \<Rightarrow> bool"
  re_setupWorktrees :: "Task \<Rightarrow> go_error + (string, string) gomap \<times> string"
  re_board :: bool
  re_oversight :: "Store \<Rightarrow> Store"
  re_testOversight :: "Store \<Rightarrow> Store"
  re_verdict :: "string \<Rightarrow> string"

definition run_flow :: "uuid \<Rightarrow> run_env \<Rightarrow> Task \<Rightarrow> string \<Rightarrow> Store \<Rightarrow> Store" where
  "run_flow i E task slug s =
     (let c = re_clock E in
      case re_flow E of
        None \<Rightarrow>
          let msg = ''unknown flow '' @ [CHR 0x22] @ slug @ [CHR 0x22] in do_all
            [\<lambda>s. fst (UpdateTaskStatus i TaskStatusFailed (c 70) (c 71) s),
             \<lambda>s. fst (SetTaskFailureCategory i (classifyFailure (Some \<lparr>err_msg = msg, err_deadline = False\<rparr>) False []) (c 72) s),
             \<lambda>s. fst (UpdateTaskResult i msg [] [] 0 (c 73) s),
             bg_event i EventTypeError (DataStrings [(''error'', msg)]) (c 74),
             bg_event i EventTypeStateChange (state_change TaskStatusInProgress TaskStatusFailed) (c 75)] s
      | Some execute \<Rightarrow>
          (case execute task s of
             (s1, Some e) \<Rightarrow>
               if cancelled i s1 then s1
               else let category = classifyFailure (Some e) False []
                    in case tryAutoRetry i category c (fst (SetTaskFailureCategory i category (c 76) s1)) of
                         (s2, retried) \<Rightarrow>
                           if retried then s2
                           else do_all
                             [\<lambda>s. fst (UpdateTaskStatus i TaskStatusFailed (c 77) (c 78) s),
                              \<lambda>s. fst (UpdateTaskResult i (err_msg e) [] [] 0 (c 79) s),
                              bg_event i EventTypeError (DataStrings [(''error'', err_msg e)]) (c 80),
                              bg_event i EventTypeStateChange (state_change TaskStatusInProgress TaskStatusFailed) (c 81)] s2
           | (s1, None) \<Rightarrow> do_all
               [\<lambda>s. fst (UpdateTaskStatus i TaskStatusWaiting (c 82) (c 83) s),
                bg_event i EventTypeStateChange (state_change TaskStatusInProgress TaskStatusWaiting) (c 84),
                \<lambda>s. fst (UpdateTaskStatus i TaskStatusCommitting (c 85) (c 86) s),
                bg_event i EventTypeStateChange (state_change TaskStatusWaiting TaskStatusCommitting) (c 87),
                \<lambda>s. fst (UpdateTaskStatus i TaskStatusDone (c 88) (c 89) s),
                bg_event i EventTypeStateChange (state_change TaskStatusCommitting TaskStatusDone) (c 90)] s1))"

text \<open>Worktrees are set up when there are none or a stored one is gone or broken.\<close>

definition ensure_worktrees :: "uuid \<Rightarrow> string \<Rightarrow> run_env \<Rightarrow> Task \<Rightarrow> Store \<Rightarrow> Store + Store" where
  "ensure_worktrees i sessionID E task s =
     (let c = re_clock E in
      if WorktreePaths task \<noteq> [] \<and> list_all (\<lambda>(repo, wt). re_worktreeValid E wt) (WorktreePaths task) then Inr s
      else let s1 = do_all [bg_event i EventTypeSpanStart (span ''worktree_setup'' ''worktree_setup'') (c 100),
                            bg_event i EventTypeSpanEnd (span ''worktree_setup'' ''worktree_setup'') (c 101)] s
           in case re_setupWorktrees E task of
                Inl e \<Rightarrow> Inl (do_all
                  [\<lambda>s. fst (UpdateTaskStatus i TaskStatusFailed (c 102) (c 103) s),
                   \<lambda>s. fst (SetTaskFailureCategory i FailureCategoryWorktree (c 104) s),
                   \<lambda>s. fst (UpdateTaskResult i (err_msg e) sessionID [] (Turns task) (c 105) s),
                   bg_event i EventTypeError (DataStrings [(''error'', err_msg e)]) (c 106),
                   bg_event i EventTypeStateChange (state_change TaskStatusInProgress TaskStatusFailed) (c 107)] s1)
              | Inr (paths, branch) \<Rightarrow> Inr (fst (UpdateTaskWorktrees i paths branch (c 108) s1)))"

definition Run :: "uuid \<Rightarrow> string \<Rightarrow> string \<Rightarrow> bool \<Rightarrow> run_env \<Rightarrow> container_reply list \<Rightarrow> Store \<Rightarrow> Store option" where
  "Run i prompt0 sessionID resumedFromWaiting E reps s0 =
     (let c = re_clock E;
          s1 = (if resumedFromWaiting
                then bg_event i EventTypeSpanEnd (span ''feedback_waiting'' ''feedback_waiting'') (c 110) s0 else s0)
      in case GetTask i s1 of
           Inl _ \<Rightarrow> Some (run_guard i c s1)
         | Inr task \<Rightarrow>
             let execEnv = re_execEnv E task;
                 s2 = fst (UpdateTaskEnvironment i execEnv (c 111) s1);
                 prompt = (if ExecutionPrompt task \<noteq> [] then ExecutionPrompt task else prompt0);
                 slug = re_flowSlug E task
             in case re_agentic E of
                  Some agentic \<Rightarrow> Some (agentic task prompt s2)
                | None \<Rightarrow>
                    if slug \<noteq> ''implement'' \<and> re_flowEngine E then Some (run_flow i E task slug s2)
                    else case ensure_worktrees i sessionID E task s2 of
                           Inl s3 \<Rightarrow> Some s3
                         | Inr s3 \<Rightarrow>
                             (case (if IsTestRun task then None else re_native E) of
                                Some native \<Rightarrow> Some (native task prompt s3)
                              | None \<Rightarrow>
                                  let s4 = do_all [bg_event i EventTypeSpanStart (span ''board_context'' ''board_context'') (c 112),
                                                   bg_event i EventTypeSpanEnd (span ''board_context'' ''board_context'') (c 113)] s3
                                  in run_loop \<lparr>rf_ID = i, rf_task = task, rf_board = re_board E, rf_oversight = re_oversight E,
                                       rf_testOversight = re_testOversight E, rf_verdict = re_verdict E\<rparr> reps
                                       \<lparr>ts_store = s4, ts_turns = Turns task, ts_sessionID = sessionID, ts_prompt = prompt,
                                        ts_testSessionID = [], ts_execEnv = execEnv\<rparr>))"

section \<open>Every run settles its task\<close>

text \<open>
  What a run expects of the code around it: it neither removes the task nor moves it, except
  that a user may cancel it.
\<close>

definition status_at :: "uuid \<Rightarrow> Store \<Rightarrow> TaskStatus option" where
  "status_at i s = map_option Status (map_get (tasks s) i)"

definition active :: "uuid \<Rightarrow> Store \<Rightarrow> bool" where
  "active i s \<longleftrightarrow> status_at i s = Some TaskStatusInProgress \<or> status_at i s = Some TaskStatusCancelled"

definition settled :: "uuid \<Rightarrow> Store \<Rightarrow> bool" where
  "settled i s \<longleftrightarrow> status_at i s \<noteq> None \<and> status_at i s \<noteq> Some TaskStatusInProgress"

definition well_behaved :: "uuid \<Rightarrow> (Store \<Rightarrow> Store) \<Rightarrow> bool" where
  "well_behaved i f \<longleftrightarrow> (\<forall>s. active i s \<longrightarrow> active i (f s))"

lemma Status_closures [simp]:
  "Status (add_usage agent delta t) = Status t" "Status (set_test_run isTest verdict t) = Status t"
  "Status (consume_retry cat t) = Status t"
  by (simp_all add: update_closures)

lemma status_effects [simp]:
  "status_at i (bg_event j ty data now s) = status_at i s"
  "status_at i (fst (AppendTurnUsage j rec s)) = status_at i s"
  "status_at i (fst (UpdateTaskTurns j turns now s)) = status_at i s"
  "status_at i (fst (UpdateTaskResult j result sid stop turns now s)) = status_at i s"
  "status_at i (fst (UpdateTaskEnvironment j env now s)) = status_at i s"
  "status_at i (fst (AccumulateSubAgentUsage j agent delta now s)) = status_at i s"
  "status_at i (fst (UpdateTaskWorktrees j paths branch now s)) = status_at i s"
  "status_at i (fst (UpdateTaskTestRun j isTest verdict now s)) = status_at i s"
  "status_at i (fst (UpdateTaskPendingTestFeedback j msg now s)) = status_at i s"
  "status_at i (fst (IncrementTestFailCount j now s)) = status_at i s"
  "status_at i (fst (ResetTestFailCount j now s)) = status_at i s"
  "status_at i (fst (SetTaskFailureCategory j cat now s)) = status_at i s"
  "status_at i (fst (IncrementAutoRetryCount j cat now s)) = status_at i s"
  "status_at i (fst (ClearReviewResult j now s)) = status_at i s"
  "status_at i (fst (UpdateTaskStatus i st n1 n2 s)) =
     map_option (\<lambda>old. if st \<in> set (AllowedTransitions old) then st else old) (status_at i s)"
  by (cases "map_get (tasks s) i", auto simp: status_at_def effects)+

lemma status_SaveTurnOutput [simp]: "status_at i (fst (SaveTurnOutput j turn out err now s)) = status_at i s"
  using SaveTurnOutput_get[of j turn out err now s i] by (cases "map_get (tasks s) i") (auto simp: status_at_def)

lemma active_simps:
  "active i s \<Longrightarrow> status_at i s = Some TaskStatusInProgress \<or> status_at i s = Some TaskStatusCancelled"
  by (simp add: active_def)

lemma cancelled_iff: "cancelled i s \<longleftrightarrow> status_at i s = Some TaskStatusCancelled"
  by (auto simp: cancelled_def GetTask_def status_at_def split: option.split)

lemma tryAutoRetry_active:
  assumes "active i s" "tryAutoRetry i category c s = (s1, retried)"
  shows "if retried then settled i s1 else status_at i s1 = status_at i s"
proof -
  obtain t where t: "map_get (tasks s) i = Some t" using assms(1) by (auto simp: active_def status_at_def)
  obtain s' r where inc: "IncrementAutoRetryCount i category (c 0) s = (s', r)" by fastforce
  have st: "status_at i s' = status_at i s" using status_effects(13)[of i i category "c 0" s] inc by simp
  show ?thesis
  proof (cases "IsAutoRetryEligible t category")
    case True
    then show ?thesis
      using assms t inc st
      by (cases r) (auto simp: tryAutoRetry_def GetTask_def settled_def active_def Let_def split: option.splits)
  next
    case False
    then show ?thesis using assms t by (auto simp: tryAutoRetry_def GetTask_def)
  qed
qed

lemma retry_or_fail_settles:
  assumes "active i s"
  shows "settled i (retry_or_fail i category c s)"
proof -
  obtain s1 retried where r: "tryAutoRetry i category c s = (s1, retried)" by fastforce
  then show ?thesis
    using tryAutoRetry_active[OF assms r] assms
    by (auto simp: retry_or_fail_def mark_failed_def settled_def active_def)
qed

definition frame_ok :: "run_frame \<Rightarrow> bool" where
  "frame_ok F \<longleftrightarrow> well_behaved (rf_ID F) (rf_oversight F) \<and> well_behaved (rf_ID F) (rf_testOversight F)"

lemma await_feedback_settles: "active i s \<Longrightarrow> settled i (await_feedback i c note s)"
  by (auto simp: await_feedback_def settled_def active_def split: option.split)

lemma pause_settles: "active i s \<Longrightarrow> settled i (pause_for_budget i c t s)"
  by (auto simp: pause_for_budget_def settled_def active_def)

lemma finalize_settles:
  assumes "active (rf_ID F) s" "frame_ok F"
  shows "settled (rf_ID F) (finalizeTestRun F c result s)"
proof -
  have "status_at (rf_ID F) (rf_testOversight F s') = Some TaskStatusInProgress
      \<or> status_at (rf_ID F) (rf_testOversight F s') = Some TaskStatusCancelled"
    if "status_at (rf_ID F) s' = status_at (rf_ID F) s" for s'
    using that assms unfolding frame_ok_def well_behaved_def active_def by metis
  then have "settled (rf_ID F) (do_all
     [rf_testOversight F, bg_event (rf_ID F) EventTypeSystem d1 m1,
      \<lambda>s. fst (UpdateTaskStatus (rf_ID F) TaskStatusWaiting m2 m3 s),
      bg_event (rf_ID F) EventTypeStateChange d2 m4, bg_event (rf_ID F) EventTypeSpanStart d3 m5] s')"
    if "status_at (rf_ID F) s' = status_at (rf_ID F) s" for s' d1 d2 d3 m1 m2 m3 m4 m5
    using that by (fastforce simp: settled_def)
  then show ?thesis by (simp add: finalizeTestRun_def Let_def)
qed

definition outcome_ok :: "uuid \<Rightarrow> turn_result \<Rightarrow> bool" where
  "outcome_ok i r = (case r of Continue ts \<Rightarrow> active i (ts_store ts) | Return s \<Rightarrow> settled i s)"

lemma on_error_ok:
  assumes "active (rf_ID F) (ts_store ts)"
  shows "outcome_ok (rf_ID F) (on_error F rep e ts)"
proof -
  have r: "settled (rf_ID F) (retry_or_fail (rf_ID F) cat c s')" if "status_at (rf_ID F) s' = status_at (rf_ID F) (ts_store ts)" for s' cat c
    using that assms by (intro retry_or_fail_settles) (simp add: active_def)
  show ?thesis
    using assms by (auto simp: outcome_ok_def on_error_def Let_def fresh_session_def cancelled_iff active_def settled_def[of _ "ts_store ts"] r)
qed

lemma record_output_status [simp]: "status_at (rf_ID F) (ts_store (record_output F c out ts)) = status_at (rf_ID F) (ts_store ts)"
  by (auto simp: record_output_def Let_def)

lemma on_stop_ok:
  assumes "active (rf_ID F) (ts_store ts)" "frame_ok F"
  shows "outcome_ok (rf_ID F) (on_stop F c out ts)"
proof -
  have "active (rf_ID F) (rf_oversight F (ts_store ts))" using assms by (simp add: frame_ok_def well_behaved_def)
  then show ?thesis
    using assms finalize_settles[OF assms]
    by (auto simp: outcome_ok_def on_stop_def Let_def cancelled_iff await_feedback_settles settled_def[of _ "ts_store ts"])
qed

lemma on_output_ok:
  assumes "active (rf_ID F) (ts_store ts)" "frame_ok F"
  shows "outcome_ok (rf_ID F) (on_output F rep out ts)"
proof -
  define ts1 where "ts1 = record_output F (rep_clock rep) out ts"
  have a: "active (rf_ID F) (ts_store ts1)" using assms(1) by (simp add: ts1_def active_def)
  have b: "active (rf_ID F) s'" if "status_at (rf_ID F) s' = status_at (rf_ID F) (ts_store ts1)" for s'
    using that a by (simp add: active_def)
  show ?thesis
    unfolding on_output_def Let_def ts1_def[symmetric]
    using on_stop_ok[OF a assms(2), of "rep_clock rep" out] pause_settles[OF a]
    by (auto simp: outcome_ok_def fresh_session_def retry_or_fail_settles b split: option.split sum.split)
qed

lemma run_turn_ok:
  assumes "active (rf_ID F) (ts_store ts)" "frame_ok F" "well_behaved (rf_ID F) (rep_during rep)"
  shows "outcome_ok (rf_ID F) (run_turn F rep ts)"
proof -
  have "active (rf_ID F) (ts_store (begin_turn F (rep_clock rep) ts))"
    using assms(1) by (simp add: begin_turn_def Let_def active_def)
  then have d: "active (rf_ID F) (rep_during rep (ts_store (begin_turn F (rep_clock rep) ts)))"
    using assms(3) by (simp add: well_behaved_def)
  then have e: "active (rf_ID F) (ts_store (end_container F rep (begin_turn F (rep_clock rep) ts)))"
    by (simp add: end_container_def Let_def active_def)
  have "settled (rf_ID F) (run_guard (rf_ID F) (rep_clock rep) (rep_during rep (ts_store (begin_turn F (rep_clock rep) ts))))"
    unfolding run_guard_def by (rule retry_or_fail_settles) (use d in \<open>simp add: active_def\<close>)
  then show ?thesis
    using on_error_ok[OF e] on_output_ok[OF e assms(2)]
    by (simp add: run_turn_def Let_def outcome_ok_def[of _ "Return _"] split: container_result.split)
qed

lemma run_loop_settles:
  assumes "run_loop F reps ts = Some s" "active (rf_ID F) (ts_store ts)" "frame_ok F"
    "\<forall>rep \<in> set reps. well_behaved (rf_ID F) (rep_during rep)"
  shows "settled (rf_ID F) s"
  using assms
proof (induction reps arbitrary: ts)
  case (Cons rep reps)
  then show ?case
    using run_turn_ok[of F ts rep] by (cases "run_turn F rep ts") (auto simp: outcome_ok_def)
qed simp

definition env_ok :: "uuid \<Rightarrow> run_env \<Rightarrow> bool" where
  "env_ok i E \<longleftrightarrow> re_agentic E = None \<and> re_native E = None
     \<and> well_behaved i (re_oversight E) \<and> well_behaved i (re_testOversight E)
     \<and> (\<forall>f t. re_flow E = Some f \<longrightarrow> well_behaved i (fst \<circ> f t))"

lemma run_flow_settles:
  assumes "active i s" "env_ok i E"
  shows "settled i (run_flow i E task slug s)"
proof (cases "re_flow E")
  case None
  then show ?thesis using assms(1) by (auto simp: run_flow_def Let_def settled_def active_def)
next
  case (Some f)
  obtain s1 r where f: "f task s = (s1, r)" by fastforce
  have "active i (fst (f task s))" using assms Some by (auto simp: env_ok_def well_behaved_def)
  then have a: "active i s1" using f by simp
  show ?thesis
  proof (cases r)
    case None
    then show ?thesis using a Some f by (auto simp: run_flow_def Let_def settled_def active_def)
  next
    case (Some e)
    define cat where "cat = classifyFailure (Some e) False []"
    define s2 where "s2 = fst (SetTaskFailureCategory i cat (re_clock E 76) s1)"
    have a2: "active i s2" using a by (simp add: s2_def active_def)
    obtain s3 b where t: "tryAutoRetry i cat (re_clock E) s2 = (s3, b)" by fastforce
    show ?thesis
      using tryAutoRetry_active[OF a2 t] a2 a Some f \<open>re_flow E = Some f\<close> t
      by (cases b) (auto simp: run_flow_def Let_def cat_def[symmetric] s2_def[symmetric] cancelled_iff settled_def active_def)
  qed
qed

lemma Run_settles_task:
  assumes "Run i prompt sessionID resumed E reps s = Some s'"
    "active i s" "env_ok i E" "\<forall>rep \<in> set reps. well_behaved i (rep_during rep)"
  shows "settled i s'"
proof -
  define s1 where "s1 = (if resumed
    then bg_event i EventTypeSpanEnd (span ''feedback_waiting'' ''feedback_waiting'') (re_clock E 110) s else s)"
  have a1: "active i s1" using assms(2) by (simp add: s1_def active_def)
  then obtain task where task: "GetTask i s1 = Inr task" by (auto simp: active_def status_at_def GetTask_def)
  define s2 where "s2 = fst (UpdateTaskEnvironment i (re_execEnv E task) (re_clock E 111) s1)"
  have a2: "active i s2" using a1 by (simp add: s2_def active_def)
  have w: "case ensure_worktrees i sessionID E task s2 of Inl s3 \<Rightarrow> settled i s3 | Inr s3 \<Rightarrow> active i s3"
    using a2 by (auto simp: ensure_worktrees_def Let_def settled_def active_def split: sum.split)
  note defs = s1_def[symmetric] s2_def[symmetric] Let_def task
  show ?thesis
  proof (cases "re_flowSlug E task \<noteq> ''implement'' \<and> re_flowEngine E")
    case True
    then show ?thesis using assms(1,3) run_flow_settles[OF a2 assms(3)] by (auto simp: Run_def defs env_ok_def)
  next
    case no_flow: False
    show ?thesis
    proof (cases "ensure_worktrees i sessionID E task s2")
      case (Inl s3)
      then show ?thesis using assms(1,3) no_flow w by (auto simp: Run_def defs env_ok_def)
    next
      case (Inr s3)
      define F where "F = \<lparr>rf_ID = i, rf_task = task, rf_board = re_board E, rf_oversight = re_oversight E,
        rf_testOversight = re_testOversight E, rf_verdict = re_verdict E\<rparr>"
      have F: "rf_ID F = i" "frame_ok F" using assms(3) by (simp_all add: F_def frame_ok_def env_ok_def)
      have n: "(if IsTestRun task then None else re_native E) = None" "re_agentic E = None"
        using assms(3) by (simp_all add: env_ok_def)
      define ts where "ts = \<lparr>ts_store = do_all [bg_event i EventTypeSpanStart (span ''board_context'' ''board_context'') (re_clock E 112),
          bg_event i EventTypeSpanEnd (span ''board_context'' ''board_context'') (re_clock E 113)] s3,
        ts_turns = Turns task, ts_sessionID = sessionID,
        ts_prompt = (if ExecutionPrompt task \<noteq> [] then ExecutionPrompt task else prompt),
        ts_testSessionID = [], ts_execEnv = re_execEnv E task\<rparr>"
      have "run_loop F reps ts = Some s'" using assms(1) no_flow Inr by (simp add: Run_def defs n F_def ts_def)
      moreover have "active i (ts_store ts)" using w Inr by (simp add: ts_def active_def)
      ultimately show ?thesis using run_loop_settles[of F reps ts s'] F assms(4) by simp
    qed
  qed
qed

definition sample_env :: run_env where
  "sample_env = \<lparr>re_clock = (\<lambda>n. int n + 100),
     re_execEnv = (\<lambda>_. \<lparr>ContainerImage = [], ContainerDigest = [], ModelName = [], APIBaseURL = [], env_Sandbox = [], RecordedAt = 0\<rparr>),
     re_flowSlug = (\<lambda>_. ''implement''), re_agentic = None, re_flowEngine = False, re_flow = None, re_native = None,
     re_worktreeValid = (\<lambda>_. True), re_setupWorktrees = (\<lambda>_. Inr ([(''/repo'', ''/wt'')], ''task/x'')), re_board = False,
     re_oversight = (\<lambda>s. s), re_testOversight = (\<lambda>s. s), re_verdict = (\<lambda>_. ''fail'')\<rparr>"

definition sample_out :: "string \<Rightarrow> agentOutput" where
  "sample_out stop = \<lparr>out_Result = ''ok'', out_StopReason = stop, out_SessionID = ''sid'', out_ObservedModel = [],
     out_Usage = zero_usage\<lparr>InputTokens := 10\<rparr>, out_IsError = False, out_ActualSandbox = ''claude''\<rparr>"

definition sample_reply :: "string \<Rightarrow> container_reply" where
  "sample_reply stop = \<lparr>rep_result = ContainerOutput (sample_out stop),
     rep_stdout = ''out'', rep_stderr = [], rep_session = [], rep_during = (\<lambda>s. s), rep_clock = (\<lambda>n. int n + 1000)\<rparr>"

lemma sample_reply_sel [simp]: "rep_result (sample_reply stop) = ContainerOutput (sample_out stop)"
  "rep_during (sample_reply stop) s = s" "out_StopReason (sample_out stop) = stop" "\<not> out_IsError (sample_out stop)"
  by (simp_all add: sample_reply_def sample_out_def)

definition crash_reply :: container_reply where
  "crash_reply = (sample_reply [])\<lparr>rep_result := ContainerError \<lparr>err_msg = ''exit status 137'', err_deadline = False\<rparr>, rep_stdout := []\<rparr>"

definition running_store :: "(Task \<Rightarrow> Task) \<Rightarrow> Store" where
  "running_store f = sample_store unary_lib [f (sample_task\<lparr>Status := TaskStatusInProgress\<rparr>)]"

lemma running_store_get:
  assumes "ID (f (sample_task\<lparr>Status := TaskStatusInProgress\<rparr>)) = 1"
  shows "map_get (tasks (running_store f)) 1 = Some (f (sample_task\<lparr>Status := TaskStatusInProgress\<rparr>))"
    "store_inv unary_lib (running_store f)"
proof -
  have d: "distinct (map ID [f (sample_task\<lparr>Status := TaskStatusInProgress\<rparr>)])" by simp
  show "map_get (tasks (running_store f)) 1 = Some (f (sample_task\<lparr>Status := TaskStatusInProgress\<rparr>))"
    "store_inv unary_lib (running_store f)"
    using sample_store_ok[OF d, of unary_lib] assms by (simp_all add: running_store_def)
qed

lemma sample_env_ok [simp]: "env_ok i sample_env" "well_behaved i (rep_during (sample_reply stop))" "well_behaved i (rep_during crash_reply)"
  by (simp_all add: env_ok_def sample_env_def well_behaved_def sample_reply_def crash_reply_def)

section \<open>Every run ends\<close>

definition final_reply :: "container_reply \<Rightarrow> bool" where
  "final_reply rep \<longleftrightarrow> (case rep_result rep of
     ContainerError e \<Rightarrow> \<not> Contains (err_msg e) ''empty output from container''
   | ContainerOutput out \<Rightarrow> \<not> out_IsError out \<and> out_StopReason out \<notin> {''max_tokens'', ''pause_turn''}
   | ContainerPanic \<Rightarrow> True)"

lemma final_returns:
  assumes "final_reply rep"
  shows "\<exists>s. run_turn F rep ts = Return s"
  using assms
  by (auto simp: final_reply_def run_turn_def on_error_def on_output_def on_stop_def Let_def split: container_result.splits option.split)

lemma run_loop_ends:
  assumes "\<exists>rep \<in> set reps. final_reply rep"
  shows "\<exists>s. run_loop F reps ts = Some s"
  using assms
proof (induction reps arbitrary: ts)
  case (Cons rep reps)
  show ?case
  proof (cases "run_turn F rep ts")
    case (Continue ts')
    then have "\<not> final_reply rep" using final_returns[of rep F ts] by auto
    then show ?thesis using Cons Continue by auto
  qed simp
qed simp

lemma Run_returns:
  assumes "\<exists>rep \<in> set reps. final_reply rep"
  shows "\<exists>s'. Run i prompt sessionID resumed E reps s = Some s'"
proof -
  have "run_loop F reps ts \<noteq> None" for F ts using run_loop_ends[OF assms, of F ts] by auto
  moreover define s1 where "s1 = (if resumed
    then bg_event i EventTypeSpanEnd (span ''feedback_waiting'' ''feedback_waiting'') (re_clock E 110) s else s)"
  ultimately have "Run i prompt sessionID resumed E reps s \<noteq> None"
    unfolding Run_def Let_def s1_def[symmetric]
    by (simp del: do_all_simps split del: if_split split: sum.split option.split) (simp del: do_all_simps)
  then show ?thesis by auto
qed

text \<open>
  (C9) Every run ends at the latest with the first final reply (an error of the container, its
  time limit among them, a panic, or an answer that neither asks to continue nor reports an
  error) and leaves its task outside \<open>in_progress\<close>: waiting, failed, back in the backlog, done or
  cancelled. This holds whatever the agent answers, whether worktree set-up or the flow fails,
  and whether writes to disk fail or not; a user may cancel the task at any time.
\<close>

theorem Run_settles:
  assumes "active i s" "env_ok i E" "\<forall>rep \<in> set reps. well_behaved i (rep_during rep)" "\<exists>rep \<in> set reps. final_reply rep"
  shows "\<exists>s'. Run i prompt sessionID resumed E reps s = Some s' \<and> settled i s'"
  using Run_returns[OF assms(4)] Run_settles_task assms(1-3) by blast

theorem Run_settles_witness:
  "\<exists>s'. Run 1 ''do it'' [] False sample_env [sample_reply ''max_tokens'', crash_reply] (running_store (\<lambda>t. t)) = Some s'
    \<and> map_get (tasks s') 1 \<noteq> None \<and> map_option Status (map_get (tasks s') 1) \<noteq> Some TaskStatusInProgress"
proof -
  have "active 1 (running_store (\<lambda>t. t))" using running_store_get(1)[of "\<lambda>t. t"] by (simp add: active_def status_at_def)
  moreover have "final_reply crash_reply"
    by (simp add: final_reply_def crash_reply_def Contains_def Index.simps)
  ultimately show ?thesis
    using Run_settles[of 1 "running_store (\<lambda>t. t)" sample_env "[sample_reply ''max_tokens'', crash_reply]" "''do it''" "[]" False]
    by (auto simp: settled_def status_at_def)
qed

section \<open>Usage and budget\<close>

definition spending :: "uuid \<Rightarrow> Store \<Rightarrow> (TaskUsage \<times> real \<times> int) option" where
  "spending i s = map_option (\<lambda>t. (Usage t, MaxCostUSD t, MaxInputTokens t)) (map_get (tasks s) i)"

lemma spending_closures [simp]:
  "Usage (set_test_run isTest verdict t) = Usage t" "Usage (consume_retry cat t) = Usage t"
  "MaxCostUSD (set_test_run isTest verdict t) = MaxCostUSD t" "MaxCostUSD (consume_retry cat t) = MaxCostUSD t"
  "MaxInputTokens (set_test_run isTest verdict t) = MaxInputTokens t" "MaxInputTokens (consume_retry cat t) = MaxInputTokens t"
  "MaxCostUSD (with_status st n1 n2 t) = MaxCostUSD t" "MaxInputTokens (with_status st n1 n2 t) = MaxInputTokens t"
  "MaxCostUSD (add_usage agent delta t) = MaxCostUSD t" "MaxInputTokens (add_usage agent delta t) = MaxInputTokens t"
  "Usage (add_usage agent delta t) = usage_add (Usage t) delta"
  by (simp_all add: update_closures with_status_def)

lemma spending_effects [simp]:
  "spending i (bg_event j ty data now s) = spending i s"
  "spending i (fst (AppendTurnUsage j rec s)) = spending i s"
  "spending i (fst (UpdateTaskTurns j turns now s)) = spending i s"
  "spending i (fst (UpdateTaskResult j result sid stop turns now s)) = spending i s"
  "spending i (fst (UpdateTaskEnvironment j env now s)) = spending i s"
  "spending i (fst (UpdateTaskTestRun j isTest verdict now s)) = spending i s"
  "spending i (fst (UpdateTaskPendingTestFeedback j msg now s)) = spending i s"
  "spending i (fst (IncrementTestFailCount j now s)) = spending i s"
  "spending i (fst (ResetTestFailCount j now s)) = spending i s"
  "spending i (fst (SetTaskFailureCategory j cat now s)) = spending i s"
  "spending i (fst (IncrementAutoRetryCount j cat now s)) = spending i s"
  "spending i (fst (UpdateTaskStatus j st n1 n2 s)) = spending i s"
  "spending i (fst (AccumulateSubAgentUsage i agent delta now s)) =
     map_option (\<lambda>(u, m). (usage_add u delta, m)) (spending i s)"
  by (cases "map_get (tasks s) i", auto simp: spending_def effects)+

lemma spending_SaveTurnOutput [simp]: "spending i (fst (SaveTurnOutput j turn out err now s)) = spending i s"
  using SaveTurnOutput_get[of j turn out err now s i] by (cases "map_get (tasks s) i") (auto simp: spending_def)

lemma retry_or_fail_spending: "spending i (retry_or_fail j category c s) = spending i s"
proof -
  obtain s1 r where inc: "IncrementAutoRetryCount j category (c 0) s = (s1, r)" by fastforce
  have "spending i s1 = spending i s" using spending_effects(11)[of i j category "c 0" s] inc by simp
  then show ?thesis
    by (cases r) (auto simp: retry_or_fail_def tryAutoRetry_def inc mark_failed_def Let_def split: sum.split)
qed

definition result_store :: "turn_result \<Rightarrow> Store" where
  "result_store r = (case r of Continue ts \<Rightarrow> ts_store ts | Return s \<Rightarrow> s)"

definition answered :: "container_reply \<Rightarrow> TaskUsage list" where
  "answered rep = (case rep_result rep of ContainerOutput out \<Rightarrow> [out_Usage out] | _ \<Rightarrow> [])"

definition charge :: "TaskUsage list \<Rightarrow> TaskUsage \<times> real \<times> int \<Rightarrow> TaskUsage \<times> real \<times> int" where
  "charge us = (\<lambda>(u, m). (foldl usage_add u us, m))"

text \<open>Other goroutines leave the usage and the limits of the task alone.\<close>

definition thrifty :: "uuid \<Rightarrow> (Store \<Rightarrow> Store) \<Rightarrow> bool" where
  "thrifty i f \<longleftrightarrow> (\<forall>s. spending i (f s) = spending i s)"

lemma run_turn_spending:
  assumes "thrifty (rf_ID F) (rep_during rep)" "thrifty (rf_ID F) (rf_oversight F)" "thrifty (rf_ID F) (rf_testOversight F)"
  shows "spending (rf_ID F) (result_store (run_turn F rep ts)) = map_option (charge (answered rep)) (spending (rf_ID F) (ts_store ts))"
proof -
  define ts0 where "ts0 = end_container F rep (begin_turn F (rep_clock rep) ts)"
  have d: "spending (rf_ID F) (rep_during rep (ts_store (begin_turn F (rep_clock rep) ts))) = spending (rf_ID F) (ts_store ts)"
    using assms(1) by (simp add: thrifty_def begin_turn_def Let_def)
  then have 0: "spending (rf_ID F) (ts_store ts0) = spending (rf_ID F) (ts_store ts)"
    by (simp add: ts0_def end_container_def Let_def)
  show ?thesis
  proof (cases "rep_result rep")
    case (ContainerOutput out)
    define ts1 where "ts1 = record_output F (rep_clock rep) out ts0"
    have "spending (rf_ID F) (ts_store ts1) = map_option (charge (answered rep)) (spending (rf_ID F) (ts_store ts0))"
      by (simp add: ts1_def record_output_def Let_def answered_def ContainerOutput charge_def)
    moreover have "spending (rf_ID F) (result_store (on_output F rep out ts0)) = spending (rf_ID F) (ts_store ts1)"
      unfolding on_output_def Let_def ts1_def[symmetric]
      using assms(2,3)
      by (auto simp: thrifty_def result_store_def on_stop_def Let_def fresh_session_def retry_or_fail_spending
          pause_for_budget_def finalizeTestRun_def await_feedback_def split: option.split)
    ultimately show ?thesis using ContainerOutput 0 by (simp add: run_turn_def Let_def ts0_def)
  next
    case (ContainerError e)
    then have "spending (rf_ID F) (result_store (run_turn F rep ts)) = spending (rf_ID F) (ts_store ts0)"
      by (simp add: run_turn_def Let_def ts0_def[symmetric] result_store_def on_error_def fresh_session_def retry_or_fail_spending)
    then show ?thesis using ContainerError 0 by (simp add: answered_def charge_def option.map_id)
  next
    case ContainerPanic
    then show ?thesis
      using d by (simp add: run_turn_def Let_def result_store_def run_guard_def retry_or_fail_spending answered_def charge_def option.map_id)
  qed
qed



section \<open>Test runs and the implementation session\<close>

definition impl_of :: "uuid \<Rightarrow> Store \<Rightarrow> (string option \<times> string option) option" where
  "impl_of i s = map_option (\<lambda>t. (SessionID t, Result t)) (map_get (tasks s) i)"

lemma impl_closures [simp]:
  "SessionID (add_usage agent delta t) = SessionID t" "Result (add_usage agent delta t) = Result t"
  "SessionID (set_test_run isTest verdict t) = SessionID t" "Result (set_test_run isTest verdict t) = Result t"
  "SessionID (consume_retry cat t) = SessionID t" "Result (consume_retry cat t) = Result t"
  "IsTestRun (add_usage agent delta t) = IsTestRun t" "IsTestRun (consume_retry cat t) = IsTestRun t"
  by (simp_all add: update_closures)

lemma impl_effects [simp]:
  "impl_of i (bg_event j ty data now s) = impl_of i s"
  "impl_of i (fst (AppendTurnUsage j rec s)) = impl_of i s"
  "impl_of i (fst (UpdateTaskTurns j turns now s)) = impl_of i s"
  "impl_of i (fst (UpdateTaskEnvironment j env now s)) = impl_of i s"
  "impl_of i (fst (AccumulateSubAgentUsage j agent delta now s)) = impl_of i s"
  "impl_of i (fst (UpdateTaskTestRun j isTest verdict now s)) = impl_of i s"
  "impl_of i (fst (UpdateTaskPendingTestFeedback j msg now s)) = impl_of i s"
  "impl_of i (fst (IncrementTestFailCount j now s)) = impl_of i s"
  "impl_of i (fst (ResetTestFailCount j now s)) = impl_of i s"
  "impl_of i (fst (SetTaskFailureCategory j cat now s)) = impl_of i s"
  "impl_of i (fst (IncrementAutoRetryCount j cat now s)) = impl_of i s"
  "impl_of i (fst (UpdateTaskStatus j st n1 n2 s)) = impl_of i s"
  by (cases "map_get (tasks s) i", auto simp: impl_of_def effects)+

lemma impl_SaveTurnOutput [simp]: "impl_of i (fst (SaveTurnOutput j turn out err now s)) = impl_of i s"
  using SaveTurnOutput_get[of j turn out err now s i] by (cases "map_get (tasks s) i") (auto simp: impl_of_def)

lemma retry_or_fail_impl: "impl_of i (retry_or_fail j category c s) = impl_of i s"
proof -
  obtain s1 r where inc: "IncrementAutoRetryCount j category (c 0) s = (s1, r)" by fastforce
  have "impl_of i s1 = impl_of i s" using impl_effects(11)[of i j category "c 0" s] inc by simp
  then show ?thesis
    by (cases r) (auto simp: retry_or_fail_def tryAutoRetry_def inc mark_failed_def Let_def split: sum.split)
qed

text \<open>
  (C12) An answer of the test agent leaves the result and the session of the implementation
  untouched, whatever it is.
\<close>

theorem test_answer_keeps_implementation:
  assumes "IsTestRun (rf_task F)" "rep_result rep = ContainerOutput out"
    "\<And>s. impl_of i (rep_during rep s) = impl_of i s" "\<And>s. impl_of i (rf_oversight F s) = impl_of i s"
    "\<And>s. impl_of i (rf_testOversight F s) = impl_of i s"
  shows "impl_of i (result_store (run_turn F rep ts)) = impl_of i (ts_store ts)"
proof -
  define ts0 where "ts0 = end_container F rep (begin_turn F (rep_clock rep) ts)"
  define ts1 where "ts1 = record_output F (rep_clock rep) out ts0"
  have "impl_of i (ts_store ts0) = impl_of i (ts_store ts)"
    by (simp add: ts0_def begin_turn_def end_container_def Let_def assms(3))
  moreover have "impl_of i (ts_store ts1) = impl_of i (ts_store ts0)"
    using assms(1) by (simp add: ts1_def record_output_def Let_def)
  moreover have "impl_of i (result_store (on_output F rep out ts0)) = impl_of i (ts_store ts1)"
    unfolding on_output_def Let_def ts1_def[symmetric]
    using assms(1,4,5)
    by (auto simp: result_store_def on_stop_def Let_def fresh_session_def retry_or_fail_impl pause_for_budget_def
        finalizeTestRun_def split: option.split)
  ultimately show ?thesis using assms(2) by (simp add: run_turn_def Let_def ts0_def)
qed

text \<open>
  (C13) An error of the test agent's container does not: the handler starts a test run with no
  session, so when none can be read off the output the empty session and the error text
  replace the session and the result of the implementation.
\<close>

theorem test_error_loses_implementation:
  assumes "IsTestRun (rf_task F)" "rep_result rep = ContainerError e" "rep_session rep = []" "ts_sessionID ts = []"
    "status_at (rf_ID F) (rep_during rep (ts_store (begin_turn F (rep_clock rep) ts))) = Some TaskStatusInProgress"
  shows "\<exists>s'. run_turn F rep ts = Return s' \<and> impl_of (rf_ID F) s' = Some (Some [], Some (err_msg e))
    \<and> settled (rf_ID F) s'"
proof -
  define ts0 where "ts0 = end_container F rep (begin_turn F (rep_clock rep) ts)"
  have st: "status_at (rf_ID F) (ts_store ts0) = Some TaskStatusInProgress"
    using assms(5) by (simp add: ts0_def end_container_def Let_def)
  have sid: "ts_sessionID ts0 = []" using assms(4) by (simp add: ts0_def begin_turn_def end_container_def Let_def)
  obtain t where t: "map_get (tasks (ts_store ts0)) (rf_ID F) = Some t" using st by (auto simp: status_at_def)
  define s1 where "s1 = do_all
     [\<lambda>s. fst (SetTaskFailureCategory (rf_ID F) (classifyFailure (Some e) False []) (rep_clock rep 21) s),
      \<lambda>s. fst (UpdateTaskResult (rf_ID F) (err_msg e) [] [] (ts_turns ts0) (rep_clock rep 22) s),
      bg_event (rf_ID F) EventTypeError (DataStrings [(''error'', err_msg e)]) (rep_clock rep 23)] (ts_store ts0)"
  have "impl_of (rf_ID F) s1 = Some (Some [], Some (err_msg e))" using t by (simp add: s1_def impl_of_def effects)
  moreover have "active (rf_ID F) s1" using st by (simp add: s1_def active_def)
  moreover have "run_turn F rep ts = Return (retry_or_fail (rf_ID F) (classifyFailure (Some e) False []) (rep_clock rep) s1)"
    using assms(2,3) sid st
    by (simp add: run_turn_def Let_def ts0_def[symmetric] on_error_def cancelled_iff s1_def)
  ultimately show ?thesis by (simp add: retry_or_fail_impl retry_or_fail_settles)
qed

section \<open>Sample turns\<close>

definition sample_frame :: "bool \<Rightarrow> run_frame" where
  "sample_frame isTest = \<lparr>rf_ID = 1, rf_task = sample_task\<lparr>Status := TaskStatusInProgress, IsTestRun := isTest\<rparr>, rf_board = False,
     rf_oversight = (\<lambda>s. s), rf_testOversight = (\<lambda>s. s), rf_verdict = (\<lambda>_. ''fail'')\<rparr>"

definition limited :: "bool \<Rightarrow> Task \<Rightarrow> Task" where
  "limited isTest t = t\<lparr>MaxCostUSD := 0, MaxInputTokens := 100, SessionID := Some ''impl'', Result := Some ''done'', IsTestRun := isTest\<rparr>"

definition sample_turn :: "bool \<Rightarrow> turn_state" where
  "sample_turn isTest = \<lparr>ts_store = running_store (limited isTest), ts_turns = 0, ts_sessionID = [], ts_prompt = ''do it'',
     ts_testSessionID = [], ts_execEnv = re_execEnv sample_env sample_task\<rparr>"

lemma sample_turn_get:
  "map_get (tasks (ts_store (sample_turn isTest))) 1 = Some (limited isTest (sample_task\<lparr>Status := TaskStatusInProgress\<rparr>))"
  using running_store_get(1)[of "limited isTest"] by (simp add: sample_turn_def limited_def)

lemma sample_thrifty [simp]:
  "thrifty i (rep_during (sample_reply stop))" "thrifty i (rep_during crash_reply)"
  "thrifty i (rf_oversight (sample_frame b))" "thrifty i (rf_testOversight (sample_frame b))" "rf_ID (sample_frame b) = 1"
  by (simp_all add: thrifty_def sample_reply_def crash_reply_def sample_frame_def)

lemma crash_final: "final_reply crash_reply"
  by (simp add: final_reply_def crash_reply_def Contains_def Index.simps)


lemma sample_record:
  assumes "spending 1 (ts_store ts) = Some (zero_usage, 0, 100)"
  shows "\<exists>t. GetTask 1 (ts_store (record_output (sample_frame isTest) c (sample_out stop) ts)) = Inr t \<and> \<not> over_budget t"
proof -
  have "spending 1 (ts_store (record_output (sample_frame isTest) c (sample_out stop) ts))
      = Some (zero_usage\<lparr>InputTokens := 10\<rparr>, 0, 100)"
    using assms by (simp add: record_output_def Let_def sample_out_def usage_add_def zero_usage_def)
  then show ?thesis
    by (auto simp: spending_def GetTask_def over_budget_def cost_exceeded_def input_tokens_def zero_usage_def)
qed

lemma sample_continues:
  "\<exists>ts'. run_turn (sample_frame isTest) (sample_reply ''max_tokens'') (sample_turn isTest) = Continue ts'
    \<and> map_get (tasks (ts_store ts')) 1 \<noteq> None"
proof -
  define ts0 where "ts0 = end_container (sample_frame isTest) (sample_reply ''max_tokens'')
    (begin_turn (sample_frame isTest) (rep_clock (sample_reply ''max_tokens'')) (sample_turn isTest))"
  have "spending 1 (ts_store (sample_turn isTest)) = Some (zero_usage, 0, 100)"
    using sample_turn_get[of isTest] by (simp add: spending_def limited_def)
  then have "spending 1 (ts_store ts0) = Some (zero_usage, 0, 100)"
    by (simp add: ts0_def end_container_def begin_turn_def Let_def)
  from sample_record[OF this, of isTest "rep_clock (sample_reply ''max_tokens'')" "''max_tokens''"]
  show ?thesis
    by (auto simp: run_turn_def Let_def ts0_def[symmetric] on_output_def on_stop_def GetTask_def split: option.splits)
qed


theorem test_answer_keeps_implementation_witness:
  "impl_of 1 (result_store (run_turn (sample_frame True) (sample_reply ''end_turn'') (sample_turn True))) = Some (Some ''impl'', Some ''done'')"
proof -
  have "impl_of 1 (result_store (run_turn (sample_frame True) (sample_reply ''end_turn'') (sample_turn True))) = impl_of 1 (ts_store (sample_turn True))"
    by (rule test_answer_keeps_implementation[OF _ sample_reply_sel(1)]) (simp_all add: sample_frame_def)
  then show ?thesis using sample_turn_get[of True] by (simp add: impl_of_def limited_def)
qed

theorem test_error_loses_implementation_witness:
  "\<exists>s'. run_turn (sample_frame True) crash_reply (sample_turn True) = Return s' \<and> impl_of 1 s' = Some (Some [], Some ''exit status 137'')"
proof -
  have r: "rep_result crash_reply = ContainerError \<lparr>err_msg = ''exit status 137'', err_deadline = False\<rparr>" by (simp add: crash_reply_def)
  have "status_at 1 (ts_store (sample_turn True)) = Some TaskStatusInProgress"
    using sample_turn_get[of True] by (simp add: status_at_def limited_def)
  then show ?thesis
    using test_error_loses_implementation[OF _ r, of "sample_frame True" "sample_turn True"]
    by (auto simp: begin_turn_def Let_def crash_reply_def sample_reply_def sample_turn_def sample_frame_def)
qed

end
