(* ===== verification/Circuit_Breaker.thy ===== *)
theory Circuit_Breaker
  imports Prelude
begin

text \<open>
  \<open>internal/pkg/circuitbreaker\<close>: the mutex-based breaker with exponential backoff, with its
  delays as 64-bit words, and the lock-free three-state breaker. The reopening of a half-open
  breaker is a compare-and-swap followed by a separate store, modelled as two atomic parts.
\<close>

section \<open>Exponential backoff\<close>

type_synonym duration64 = "64 word"

record BackoffBreaker =
  bb_failures :: int
  openUntil :: time
  baseDelay :: duration64
  maxDelay :: duration64

definition NewBackoff :: "duration64 \<Rightarrow> duration64 \<Rightarrow> BackoffBreaker" where
  "NewBackoff base mx =
     \<lparr>bb_failures = 0, openUntil = 0,
      baseDelay = (if sint base \<le> 0 then 30000000000 else base),
      maxDelay = (if sint mx \<le> 0 then 300000000000 else mx)\<rparr>"

definition IsOpen :: "time \<Rightarrow> BackoffBreaker \<Rightarrow> bool" where
  "IsOpen now b \<longleftrightarrow> \<not> IsZero (openUntil b) \<and> now < openUntil b"

definition backoff_delay :: "duration64 \<Rightarrow> duration64 \<Rightarrow> int \<Rightarrow> duration64" where
  "backoff_delay base mx failures =
     (let backoff = base * push_bit (nat (failures - 1)) 1
      in if sint backoff \<le> 0 \<or> sint backoff > sint mx then mx else backoff)"

definition bb_RecordFailure :: "time \<Rightarrow> BackoffBreaker \<Rightarrow> BackoffBreaker \<times> int" where
  "bb_RecordFailure now b =
     (let failures = bb_failures b + 1
      in (b\<lparr>bb_failures := failures,
           openUntil := now + sint (backoff_delay (baseDelay b) (maxDelay b) failures)\<rparr>, failures))"

definition bb_RecordSuccess :: "BackoffBreaker \<Rightarrow> BackoffBreaker" where
  "bb_RecordSuccess b = b\<lparr>bb_failures := 0, openUntil := 0\<rparr>"

definition RetryAt :: "time \<Rightarrow> BackoffBreaker \<Rightarrow> time option" where
  "RetryAt now b = (if IsZero (openUntil b) \<or> \<not> now < openUntil b then None else Some (openUntil b))"

section \<open>Three states\<close>

datatype breaker_state = Closed | Open | HalfOpen

definition state_String :: "breaker_state \<Rightarrow> string" where
  "state_String st = (case st of Closed \<Rightarrow> ''closed'' | Open \<Rightarrow> ''open'' | HalfOpen \<Rightarrow> ''half-open'')"

record Breaker =
  br_state :: breaker_state
  br_failures :: "32 word"
  threshold :: int
  openDuration :: int
  openAt :: time

definition NewBreaker :: "int \<Rightarrow> int \<Rightarrow> Breaker" where
  "NewBreaker thr dur = \<lparr>br_state = Closed, br_failures = 0, threshold = thr, openDuration = dur, openAt = 0\<rparr>"

definition CompareAndSwap :: "breaker_state \<Rightarrow> breaker_state \<Rightarrow> Breaker \<Rightarrow> Breaker \<times> bool" where
  "CompareAndSwap old new b = (if br_state b = old then (b\<lparr>br_state := new\<rparr>, True) else (b, False))"

text \<open>
  \<open>Allow\<close> in its atomic parts: the probe slot of an open breaker; the swap back to open of a
  half-open one; and the store of the new opening time, which only the winner of the swap does.
\<close>

definition try_probe :: "time \<Rightarrow> Breaker \<Rightarrow> Breaker \<times> bool" where
  "try_probe now b =
     (if now - openAt b < openDuration b then (b, False) else CompareAndSwap Open HalfOpen b)"

definition begin_reopen :: "Breaker \<Rightarrow> Breaker \<times> bool" where
  "begin_reopen b = CompareAndSwap HalfOpen Open b"

definition finish_reopen :: "time \<Rightarrow> Breaker \<times> bool \<Rightarrow> Breaker" where
  "finish_reopen now r = (case r of (b, won) \<Rightarrow> if won then b\<lparr>openAt := now\<rparr> else b)"

definition Allow :: "time \<Rightarrow> Breaker \<Rightarrow> Breaker \<times> bool" where
  "Allow now b =
     (case br_state b of
        Closed \<Rightarrow> (b, True)
      | Open \<Rightarrow> try_probe now b
      | HalfOpen \<Rightarrow> (finish_reopen now (begin_reopen b), False))"

definition br_RecordSuccess :: "Breaker \<Rightarrow> Breaker" where
  "br_RecordSuccess b = b\<lparr>br_state := Closed, br_failures := 0\<rparr>"

definition br_RecordFailure :: "time \<Rightarrow> Breaker \<Rightarrow> Breaker" where
  "br_RecordFailure now b =
     (let b1 = b\<lparr>br_failures := br_failures b + 1\<rparr>
      in case br_state b1 of
           Closed \<Rightarrow>
             if sint (br_failures b1) \<ge> threshold b1
             then finish_reopen now (CompareAndSwap Closed Open b1) else b1
         | HalfOpen \<Rightarrow> finish_reopen now (CompareAndSwap HalfOpen Open b1)
         | Open \<Rightarrow> b1)"

section \<open>Delays\<close>

lemma sint_word64:
  assumes "- (2 ^ 63) \<le> n" "n < 2 ^ 63"
  shows "sint (word_of_int n :: 64 word) = n"
  using assms unfolding sint_sbintrunc' by (intro signed_take_bit_int_eq_self) simp_all

lemma push_one: "(push_bit k 1 :: 64 word) = word_of_int (2 ^ k)"
  by (simp add: push_bit_eq_mult)

text \<open>A multiple of \<open>2 ^ k\<close> stays one when it is reduced to a signed 64-bit number.\<close>

lemma sint_multiple:
  assumes "k \<le> 64"
  shows "2 ^ k dvd sint (word_of_int (m * 2 ^ k) :: 64 word)"
proof -
  have "take_bit 64 (sint (word_of_int (m * 2 ^ k) :: 64 word)) = (m * 2 ^ k) mod 2 ^ 64"
    using uint_sint[of "word_of_int (m * 2 ^ k) :: 64 word"] unfolding uint_word_of_int by simp
  moreover have "(2 :: int) ^ k dvd 2 ^ 64" using assms by (rule le_imp_power_dvd)
  ultimately show ?thesis unfolding take_bit_eq_mod by (metis dvd_mod_iff dvd_triv_right)
qed

text \<open>
  With the default delays the product overflows from the thirtieth failure on; the wrapped
  value is then a multiple of \<open>2 ^ 39\<close>, hence not positive or beyond the cap.
\<close>

lemma default_delay:
  assumes "1 \<le> n"
  shows "sint (backoff_delay 30000000000 300000000000 n) = min (30000000000 * 2 ^ nat (n - 1)) 300000000000"
proof -
  define k where "k = nat (n - 1)"
  have prod: "(30000000000 :: 64 word) * push_bit k 1 = word_of_int (30000000000 * 2 ^ k)"
    by (simp add: push_one)
  have mx: "sint (300000000000 :: 64 word) = 300000000000" by simp
  show ?thesis
  proof (cases "k \<le> 28")
    case True
    then have "(2 :: int) ^ k \<le> 2 ^ 28" by (intro power_increasing) auto
    then have "sint (word_of_int (30000000000 * 2 ^ k) :: 64 word) = 30000000000 * 2 ^ k"
      by (intro sint_word64) (auto intro: order_trans[of _ 0])
    then show ?thesis unfolding backoff_delay_def Let_def k_def[symmetric] prod mx by (simp add: min_def)
  next
    case False
    define x where "x = sint (word_of_int (30000000000 * 2 ^ k) :: 64 word)"
    have "30000000000 * 2 ^ k = (29296875 * 2 ^ (k - 29)) * (2 :: int) ^ 39"
      using False power_add[of "2 :: int" "k - 29" 29] by simp
    then have "(2 :: int) ^ 39 dvd x"
      unfolding x_def by (simp only:) (rule sint_multiple, simp)
    then have "x \<le> 0 \<or> x > 300000000000" using zdvd_imp_le[of "2 ^ 39" x] by fastforce
    moreover have "(2 :: int) ^ 29 \<le> 2 ^ k" using False by (intro power_increasing) auto
    ultimately show ?thesis
      unfolding backoff_delay_def Let_def k_def[symmetric] prod mx by (simp add: x_def min_def)
  qed
qed

definition fail_at :: "time list \<Rightarrow> BackoffBreaker \<Rightarrow> BackoffBreaker" where
  "fail_at ts = fold (\<lambda>t b. fst (bb_RecordFailure t b)) ts"

lemma fail_at_spec:
  "bb_failures (fail_at ts b) = bb_failures b + int (length ts) \<and> baseDelay (fail_at ts b) = baseDelay b
   \<and> maxDelay (fail_at ts b) = maxDelay b
   \<and> (ts \<noteq> [] \<longrightarrow> openUntil (fail_at ts b)
        = last ts + sint (backoff_delay (baseDelay b) (maxDelay b) (bb_failures b + int (length ts))))"
  unfolding fail_at_def by (induction ts rule: rev_induct) (simp_all add: bb_RecordFailure_def Let_def algebra_simps)



section \<open>Probes\<close>

datatype breaker_op = OpAllow time | OpFailure time

fun op_time :: "breaker_op \<Rightarrow> time" where
  "op_time (OpAllow t) = t"
| "op_time (OpFailure t) = t"

text \<open>The times at which a sequence of calls admits an operation.\<close>

fun admitted :: "breaker_op list \<Rightarrow> Breaker \<Rightarrow> time list" where
  "admitted [] b = []"
| "admitted (OpAllow t # ops) b = (case Allow t b of (b', ok) \<Rightarrow> (if ok then [t] else []) @ admitted ops b')"
| "admitted (OpFailure t # ops) b = admitted ops (br_RecordFailure t b)"

lemmas breaker_defs = Allow_def try_probe_def begin_reopen_def finish_reopen_def CompareAndSwap_def br_RecordFailure_def Let_def

text \<open>\<open>lp\<close> is the time of the last probe; a half-open breaker admits nothing before it has been reopened.\<close>

lemma admitted_spaced:
  assumes "br_state b = Open \<and> lp \<le> openAt b \<or> br_state b = HalfOpen \<and> lp \<le> now"
    "sorted (map op_time ops)" "\<forall>p \<in> set ops. now \<le> op_time p" "openDuration b = d" "0 \<le> d"
  shows "sorted_wrt (\<lambda>s t. s + d \<le> t) (admitted ops b) \<and> (\<forall>t \<in> set (admitted ops b). lp + d \<le> t)"
  using assms
proof (induction ops arbitrary: b lp now)
  case (Cons p ops)
  have later: "sorted (map op_time ops)" "\<forall>q \<in> set ops. op_time p \<le> op_time q" "now \<le> op_time p"
    using Cons.prems(2,3) by auto
  note IH = Cons.IH[OF _ later(1,2) _ Cons.prems(5)]
  show ?case
  proof (cases p)
    case (OpFailure t)
    then show ?thesis using Cons.prems later IH[of "br_RecordFailure t b" lp]
      by (auto simp: breaker_defs split: if_splits)
  next
    case (OpAllow t)
    show ?thesis
    proof (cases "br_state b = Open \<and> d \<le> t - openAt b")
      case True
      then have "Allow t b = (b\<lparr>br_state := HalfOpen\<rparr>, True)" using Cons.prems(4) by (simp add: breaker_defs)
      then show ?thesis
        using OpAllow True Cons.prems IH[of "b\<lparr>br_state := HalfOpen\<rparr>" t] by auto
    next
      case False
      then obtain b' where b': "Allow t b = (b', False)" "br_state b' = Open" "openDuration b' = d" "lp \<le> openAt b'"
        using OpAllow Cons.prems later(3) by (cases "br_state b") (auto simp: breaker_defs)
      then show ?thesis using OpAllow IH[of b' lp] by simp
    qed
  qed
qed simp

text \<open>
  An open breaker admits one probe at a time: as long as no success is recorded, and with
  calls that do not overlap, any two admitted operations are at least the open duration apart,
  and the first one is that far from the opening.
\<close>

theorem probes_spaced:
  assumes "br_state b = Open" "sorted (map op_time ops)" "\<forall>p \<in> set ops. openAt b \<le> op_time p" "0 \<le> openDuration b"
  shows "sorted_wrt (\<lambda>s t. s + openDuration b \<le> t) (admitted ops b)
    \<and> (\<forall>t \<in> set (admitted ops b). openAt b + openDuration b \<le> t)"
  using admitted_spaced[of b "openAt b" "openAt b" ops "openDuration b"] assms by simp

theorem probes_spaced_witness:
  "let b = br_RecordFailure 100 (NewBreaker 1 30); ops = [OpAllow 120, OpAllow 130, OpFailure 135, OpAllow 150, OpAllow 165]
   in admitted ops b = [130, 165] \<and> sorted_wrt (\<lambda>s t. s + openDuration b \<le> t) (admitted ops b)"
proof -
  define b where "b = br_RecordFailure 100 (NewBreaker 1 30)"
  define ops where "ops = [OpAllow 120, OpAllow 130, OpFailure 135, OpAllow 150, OpAllow 165]"
  have b: "br_state b = Open" "openAt b = 100" "openDuration b = 30"
    by (simp_all add: b_def NewBreaker_def breaker_defs)
  have "sorted_wrt (\<lambda>s t. s + openDuration b \<le> t) (admitted ops b)"
    using probes_spaced[of b ops] b by (simp add: ops_def)
  moreover have "admitted ops b = [130, 165]"
    using b by (simp add: ops_def breaker_defs)
  ultimately show ?thesis by (simp add: b_def ops_def Let_def)
qed

text \<open>
  The limit to one probe does not survive overlapping calls. A call that finds the breaker
  half-open swaps it back to open before it stores the new opening time; a third call in
  between still sees the old time and is admitted as a second probe at the same moment.
\<close>

theorem probe_race:
  assumes "br_state b = Open" "openAt b + openDuration b \<le> now"
  shows "case Allow now b of (b1, first) \<Rightarrow> case begin_reopen b1 of (b2, won) \<Rightarrow> case Allow now b2 of (b3, second) \<Rightarrow>
    first \<and> won \<and> second \<and> br_state (finish_reopen now (b3, won)) = HalfOpen"
  using assms by (simp add: breaker_defs)

theorem probe_race_witness:
  "case Allow 50 (br_RecordFailure 10 (NewBreaker 1 30)) of (b1, first) \<Rightarrow> case begin_reopen b1 of (b2, won) \<Rightarrow>
   case Allow 50 b2 of (b3, second) \<Rightarrow> first \<and> won \<and> second \<and> br_state (finish_reopen 50 (b3, won)) = HalfOpen"
  by (rule probe_race) (simp_all add: NewBreaker_def breaker_defs)

section \<open>Opening\<close>

definition fail_breaker :: "time list \<Rightarrow> Breaker \<Rightarrow> Breaker" where
  "fail_breaker ts = fold br_RecordFailure ts"

lemma sint_count32: "int n < 2 ^ 31 \<Longrightarrow> sint (of_nat n :: 32 word) = int n"
  using sint_sbintrunc'[of "int n", where 'a = 32] by (simp add: signed_take_bit_int_eq_self)

text \<open>A new breaker opens with the failure that reaches the threshold, not before.\<close>

lemma opens_at_threshold:
  assumes "0 < thr" "int (length ts) < 2 ^ 31"
  shows "br_failures (fail_breaker ts (NewBreaker thr d)) = of_nat (length ts)
    \<and> threshold (fail_breaker ts (NewBreaker thr d)) = thr
    \<and> br_state (fail_breaker ts (NewBreaker thr d)) = (if int (length ts) < thr then Closed else Open)
    \<and> (thr \<le> int (length ts) \<longrightarrow> openAt (fail_breaker ts (NewBreaker thr d)) = ts ! nat (thr - 1))"
  using assms(2)
proof (induction ts rule: rev_induct)
  case (snoc t ts)
  define b where "b = fail_breaker ts (NewBreaker thr d)"
  have IH: "br_failures b = of_nat (length ts)" "threshold b = thr"
    "br_state b = (if int (length ts) < thr then Closed else Open)"
    "thr \<le> int (length ts) \<Longrightarrow> openAt b = ts ! nat (thr - 1)"
    using snoc by (auto simp: b_def)
  have f: "sint (br_failures b + 1) = int (length ts) + 1"
    using sint_count32[of "Suc (length ts)"] snoc.prems by (simp add: IH(1) add.commute)
  have s: "fail_breaker (ts @ [t]) (NewBreaker thr d) = br_RecordFailure t b"
    by (simp add: fail_breaker_def b_def)
  consider "int (length ts) + 1 < thr" | "thr = int (length ts) + 1" | "thr \<le> int (length ts)" by linarith
  then show ?case
  proof cases
    case 3
    then have "nat (thr - 1) < length ts" using assms(1) by linarith
    with 3 show ?thesis unfolding s using IH by (simp add: breaker_defs nth_append)
  qed (unfold s, use IH f in \<open>simp_all add: breaker_defs nth_append\<close>)
qed (use assms(1) in \<open>simp add: fail_breaker_def NewBreaker_def\<close>)

end
