(* ===== verification/Routine_Engine.thy ===== *)
theory Routine_Engine
  imports Prelude
begin

text \<open>
  \<open>internal/routine/engine.go\<close>: one timer per routine, armed by registration and re-armed after
  every fire. A timer of \<open>time.AfterFunc\<close> is armed until it is stopped or expires; after it
  has expired its callback is a goroutine that still has to take the lock, which \<open>Stop\<close> does not
  prevent. A fire takes the lock twice, so it is modelled as two atomic parts.
\<close>

section \<open>Schedules and timers\<close>

datatype Schedule = FixedInterval duration | DisabledSchedule

definition schedule_Next :: "Schedule \<Rightarrow> time \<Rightarrow> time" where
  "schedule_Next s now = (case s of FixedInterval d \<Rightarrow> if d \<le> 0 then 0 else now + d | DisabledSchedule \<Rightarrow> 0)"

datatype timer_status = Armed | Firing | Over

record routine_timer =
  rt_routine :: uuid
  rt_due :: time
  rt_status :: timer_status

record routine_entry =
  re_schedule :: Schedule
  re_nextRun :: time
  re_timer :: "nat option"

record Engine =
  eng_entries :: "(uuid, routine_entry) gomap"
  eng_timers :: "routine_timer list"
  eng_fires :: "uuid list"

definition NewEngine :: Engine where
  "NewEngine = \<lparr>eng_entries = [], eng_timers = [], eng_fires = []\<rparr>"

definition AfterFunc :: "time \<Rightarrow> uuid \<Rightarrow> Engine \<Rightarrow> Engine \<times> nat" where
  "AfterFunc due i e =
     (e\<lparr>eng_timers := eng_timers e @ [\<lparr>rt_routine = i, rt_due = due, rt_status = Armed\<rparr>]\<rparr>, length (eng_timers e))"

definition timer_Stop :: "nat \<Rightarrow> Engine \<Rightarrow> Engine" where
  "timer_Stop n e =
     (if n < length (eng_timers e) \<and> rt_status (eng_timers e ! n) = Armed
      then e\<lparr>eng_timers := (eng_timers e)[n := (eng_timers e ! n)\<lparr>rt_status := Over\<rparr>]\<rparr> else e)"

definition stop_timer :: "nat option \<Rightarrow> Engine \<Rightarrow> Engine" where
  "stop_timer tm e = (case tm of None \<Rightarrow> e | Some n \<Rightarrow> timer_Stop n e)"

section \<open>Operations\<close>

definition armLocked :: "time \<Rightarrow> uuid \<Rightarrow> Schedule \<Rightarrow> Engine \<Rightarrow> Engine" where
  "armLocked now i s e =
     (let e1 = (case map_get (eng_entries e) i of None \<Rightarrow> e | Some ent \<Rightarrow> stop_timer (re_timer ent) e);
          nxt = schedule_Next s now
      in if IsZero nxt
         then e1\<lparr>eng_entries := map_put i \<lparr>re_schedule = s, re_nextRun = 0, re_timer = None\<rparr> (eng_entries e1)\<rparr>
         else case AfterFunc (now + max (nxt - now) 0) i e1 of
                (e2, n) \<Rightarrow> e2\<lparr>eng_entries := map_put i \<lparr>re_schedule = s, re_nextRun = nxt, re_timer = Some n\<rparr>
                              (eng_entries e2)\<rparr>)"

definition Register :: "time \<Rightarrow> uuid \<Rightarrow> Schedule option \<Rightarrow> Engine \<Rightarrow> Engine" where
  "Register now i so e =
     (let s = (case so of None \<Rightarrow> DisabledSchedule | Some s \<Rightarrow> s)
      in case map_get (eng_entries e) i of
           Some ent \<Rightarrow> if re_schedule ent = s then e else armLocked now i s e
         | None \<Rightarrow> armLocked now i s e)"

definition Unregister :: "uuid \<Rightarrow> Engine \<Rightarrow> Engine" where
  "Unregister i e =
     (case map_get (eng_entries e) i of
        None \<Rightarrow> e
      | Some ent \<Rightarrow> (stop_timer (re_timer ent) e)\<lparr>eng_entries := map_del i (eng_entries e)\<rparr>)"

definition reArmAfterFire :: "time \<Rightarrow> uuid \<Rightarrow> Engine \<Rightarrow> Engine" where
  "reArmAfterFire now i e =
     (case map_get (eng_entries e) i of
        None \<Rightarrow> e
      | Some ent \<Rightarrow> if re_timer ent \<noteq> None then e else armLocked now i (re_schedule ent) e)"

text \<open>The first locked part of \<open>Trigger\<close> and the start of the callback; the result says whether to re-arm.\<close>

definition trigger_begin :: "uuid \<Rightarrow> Engine \<Rightarrow> Engine \<times> bool" where
  "trigger_begin i e =
     (case map_get (eng_entries e) i of
        None \<Rightarrow> (e, False)
      | Some ent \<Rightarrow>
          let e1 = (case re_timer ent of
                      None \<Rightarrow> e
                    | Some n \<Rightarrow> (timer_Stop n e)\<lparr>eng_entries :=
                         map_put i (ent\<lparr>re_timer := None, re_nextRun := 0\<rparr>) (eng_entries e)\<rparr>)
          in (e1\<lparr>eng_fires := eng_fires e1 @ [i]\<rparr>, True))"

definition Trigger :: "time \<Rightarrow> uuid \<Rightarrow> Engine \<Rightarrow> Engine" where
  "Trigger now i e = (case trigger_begin i e of (e1, ok) \<Rightarrow> if ok then reArmAfterFire now i e1 else e1)"

text \<open>The first locked part of the callback of a timer that has expired.\<close>

definition onFire_begin :: "uuid \<Rightarrow> Engine \<Rightarrow> Engine \<times> bool" where
  "onFire_begin i e =
     (case map_get (eng_entries e) i of
        None \<Rightarrow> (e, False)
      | Some ent \<Rightarrow>
          (e\<lparr>eng_entries := map_put i (ent\<lparr>re_timer := None, re_nextRun := 0\<rparr>) (eng_entries e),
             eng_fires := eng_fires e @ [i]\<rparr>, True))"

definition onFire :: "time \<Rightarrow> uuid \<Rightarrow> Engine \<Rightarrow> Engine" where
  "onFire now i e = (case onFire_begin i e of (e1, ok) \<Rightarrow> if ok then reArmAfterFire now i e1 else e1)"

definition NextRuns :: "Engine \<Rightarrow> (uuid, time) gomap" where
  "NextRuns e = map (\<lambda>(i, ent). (i, re_nextRun ent)) (eng_entries e)"

text \<open>The runtime: an armed timer expires, and its callback runs.\<close>

definition expire :: "nat \<Rightarrow> Engine \<Rightarrow> Engine" where
  "expire n e =
     (if n < length (eng_timers e) \<and> rt_status (eng_timers e ! n) = Armed
      then e\<lparr>eng_timers := (eng_timers e)[n := (eng_timers e ! n)\<lparr>rt_status := Firing\<rparr>]\<rparr> else e)"

definition run_callback :: "time \<Rightarrow> nat \<Rightarrow> Engine \<Rightarrow> Engine" where
  "run_callback now n e =
     (if n < length (eng_timers e) \<and> rt_status (eng_timers e ! n) = Firing
      then onFire now (rt_routine (eng_timers e ! n))
             (e\<lparr>eng_timers := (eng_timers e)[n := (eng_timers e ! n)\<lparr>rt_status := Over\<rparr>]\<rparr>) else e)"

section \<open>One timer per routine\<close>

definition armed :: "uuid \<Rightarrow> Engine \<Rightarrow> nat set" where
  "armed i e = {n. n < length (eng_timers e) \<and> rt_routine (eng_timers e ! n) = i \<and> rt_status (eng_timers e ! n) = Armed}"

definition due_at :: "Engine \<Rightarrow> nat \<Rightarrow> time" where
  "due_at e n = rt_due (eng_timers e ! n)"

definition entry_timers :: "uuid \<Rightarrow> Engine \<Rightarrow> nat set" where
  "entry_timers i e = (case map_get (eng_entries e) i of None \<Rightarrow> {} | Some ent \<Rightarrow> set_option (re_timer ent))"

definition no_callback :: "Engine \<Rightarrow> bool" where
  "no_callback e \<longleftrightarrow> (\<forall>t \<in> set (eng_timers e). rt_status t \<noteq> Firing)"

definition enabled :: "Schedule \<Rightarrow> bool" where
  "enabled s \<longleftrightarrow> (case s of FixedInterval d \<Rightarrow> d > 0 | DisabledSchedule \<Rightarrow> False)"

definition entry_ok :: "Engine \<Rightarrow> routine_entry \<Rightarrow> bool" where
  "entry_ok e ent \<longleftrightarrow> (case re_timer ent of
       None \<Rightarrow> \<not> enabled (re_schedule ent) \<and> re_nextRun ent = 0
     | Some n \<Rightarrow> enabled (re_schedule ent) \<and> n < length (eng_timers e) \<and> re_nextRun ent = due_at e n)"

definition timers_ok :: "Engine \<Rightarrow> bool" where
  "timers_ok e \<longleftrightarrow> (\<forall>i. armed i e = entry_timers i e)"

text \<open>Every entry has the timer its schedule asks for, no other timer is armed, no callback is pending.\<close>

definition engine_inv :: "Engine \<Rightarrow> bool" where
  "engine_inv e \<longleftrightarrow> timers_ok e \<and> no_callback e \<and> (\<forall>i ent. map_get (eng_entries e) i = Some ent \<longrightarrow> entry_ok e ent)"

lemma armed_Stop [simp]: "armed j (timer_Stop n e) = armed j e - {n}"
  by (auto simp: armed_def timer_Stop_def nth_list_update split: if_splits)

lemma stop_timer_simps [simp]:
  "armed j (stop_timer tm e) = armed j e - set_option tm" "eng_entries (stop_timer tm e) = eng_entries e"
  "length (eng_timers (stop_timer tm e)) = length (eng_timers e)" "due_at (stop_timer tm e) n = due_at e n"
  "eng_entries (timer_Stop k e) = eng_entries e" "length (eng_timers (timer_Stop k e)) = length (eng_timers e)"
  "due_at (timer_Stop k e) n = due_at e n"
proof -
  show "armed j (stop_timer tm e) = armed j e - set_option tm" by (cases tm) (simp_all add: stop_timer_def)
qed (auto simp: stop_timer_def timer_Stop_def due_at_def nth_list_update split: option.split)

lemma armed_append:
  "armed j (e\<lparr>eng_timers := eng_timers e @ [t]\<rparr>)
     = armed j e \<union> (if rt_routine t = j \<and> rt_status t = Armed then {length (eng_timers e)} else {})"
  by (auto simp: armed_def nth_append less_Suc_eq)

lemma no_callback_Stop [simp]: "no_callback e \<Longrightarrow> no_callback (timer_Stop n e)"
  "no_callback e \<Longrightarrow> no_callback (stop_timer tm e)"
  using set_update_subset_insert[of "eng_timers e"]
  by (fastforce simp: no_callback_def stop_timer_def timer_Stop_def split: option.split)+

lemma armed_entries [simp]:
  "armed j (e\<lparr>eng_entries := m\<rparr>) = armed j e" "armed j (e\<lparr>eng_fires := f\<rparr>) = armed j e"
  "due_at (e\<lparr>eng_entries := m\<rparr>) n = due_at e n" "due_at (e\<lparr>eng_fires := f\<rparr>) n = due_at e n"
  "no_callback (e\<lparr>eng_entries := m\<rparr>) = no_callback e" "no_callback (e\<lparr>eng_fires := f\<rparr>) = no_callback e"
  by (simp_all add: armed_def due_at_def no_callback_def)

lemma schedule_Next_simps:
  "now > 0 \<Longrightarrow> IsZero (schedule_Next s now) \<longleftrightarrow> \<not> enabled s" "now > 0 \<Longrightarrow> enabled s \<Longrightarrow> now < schedule_Next s now"
  by (auto simp: schedule_Next_def enabled_def split: Schedule.splits)

lemma entry_ok_mono:
  assumes "entry_ok e ent" "length (eng_timers e) \<le> length (eng_timers e')"
    "\<And>k. k < length (eng_timers e) \<Longrightarrow> due_at e' k = due_at e k"
  shows "entry_ok e' ent"
  using assms by (auto simp: entry_ok_def split: option.splits)

text \<open>Replacing the entry of one routine, when its new timer is the only one armed for it.\<close>

lemma engine_inv_put:
  assumes "\<And>j. armed j e' = (if j = i then set_option (re_timer ent) else entry_timers j e)" "no_callback e'"
    "\<And>j ent. j \<noteq> i \<Longrightarrow> map_get (eng_entries e) j = Some ent \<Longrightarrow> entry_ok e ent"
    "length (eng_timers e) \<le> length (eng_timers e')" "\<And>k. k < length (eng_timers e) \<Longrightarrow> due_at e' k = due_at e k"
    "entry_ok e' ent"
  shows "engine_inv (e'\<lparr>eng_entries := map_put i ent (eng_entries e)\<rparr>)"
proof -
  have "entry_ok e' x" if "map_get (map_put i ent (eng_entries e)) j = Some x" for j x
  proof (cases "j = i")
    case False
    then show ?thesis using that assms(3)[of j x] entry_ok_mono[OF _ assms(4,5)] by simp
  qed (use that assms(6) in simp)
  moreover have "entry_ok (e'\<lparr>eng_entries := m\<rparr>) x = entry_ok e' x" for m x
    by (simp add: entry_ok_def split: option.split)
  ultimately show ?thesis
    using assms(1,2) by (simp add: engine_inv_def timers_ok_def entry_timers_def)
qed

lemma armLocked_inv:
  assumes "timers_ok e" "no_callback e" "now > 0"
    "\<And>j ent. j \<noteq> i \<Longrightarrow> map_get (eng_entries e) j = Some ent \<Longrightarrow> entry_ok e ent"
  shows "engine_inv (armLocked now i s e)"
proof -
  define e1 where "e1 = (case map_get (eng_entries e) i of None \<Rightarrow> e | Some ent \<Rightarrow> stop_timer (re_timer ent) e)"
  have e1: "eng_entries e1 = eng_entries e" "length (eng_timers e1) = length (eng_timers e)" "due_at e1 = due_at e"
    "no_callback e1"
    using assms(2) by (auto simp: e1_def fun_eq_iff split: option.split)
  have own: "armed i e = entry_timers i e" using assms(1) by (simp add: timers_ok_def)
  have a1: "armed j e1 = (if j = i then {} else entry_timers j e)" for j
  proof -
    have "armed j e1 = armed j e - armed i e"
      using own by (auto simp: e1_def entry_timers_def split: option.split)
    moreover have "armed j e \<inter> armed i e = {}" if "j \<noteq> i" using that by (auto simp: armed_def)
    ultimately show ?thesis using assms(1) by (auto simp: timers_ok_def)
  qed
  show ?thesis
  proof (cases "enabled s")
    case False
    then have arm: "armLocked now i s e = e1\<lparr>eng_entries :=
        map_put i \<lparr>re_schedule = s, re_nextRun = 0, re_timer = None\<rparr> (eng_entries e1)\<rparr>"
      using schedule_Next_simps(1)[OF assms(3), of s] by (simp add: armLocked_def Let_def e1_def)
    show ?thesis unfolding arm e1(1)
      by (rule engine_inv_put) (use a1 assms(4) e1 False in \<open>simp_all add: entry_ok_def\<close>)
  next
    case True
    define nxt where "nxt = schedule_Next s now"
    have nxt: "nxt \<noteq> 0" "now + max (nxt - now) 0 = nxt"
      using schedule_Next_simps[OF assms(3), of s] True by (auto simp: nxt_def)
    define n where "n = length (eng_timers e)"
    define e2 where "e2 = e1\<lparr>eng_timers := eng_timers e1 @ [\<lparr>rt_routine = i, rt_due = nxt, rt_status = Armed\<rparr>]\<rparr>"
    have arm: "armLocked now i s e = e2\<lparr>eng_entries :=
        map_put i \<lparr>re_schedule = s, re_nextRun = nxt, re_timer = Some n\<rparr> (eng_entries e)\<rparr>"
      using nxt e1(1,2)
      by (simp add: armLocked_def Let_def e1_def[symmetric] nxt_def[symmetric] AfterFunc_def e2_def n_def)
    have "armed j e2 = (if j = i then {n} else entry_timers j e)" for j
      using a1[of j] e1(2) by (simp add: e2_def armed_append n_def)
    moreover have "no_callback e2" using e1(4) by (auto simp: no_callback_def e2_def)
    moreover have "due_at e2 k = due_at e k" if "k < n" for k
      using that e1(2,3) by (simp add: due_at_def e2_def n_def nth_append fun_eq_iff)
    moreover have "due_at e2 n = nxt" "length (eng_timers e2) = Suc n"
      using e1(2) by (simp_all add: due_at_def e2_def n_def nth_append)
    ultimately show ?thesis unfolding arm
      by (intro engine_inv_put) (use assms(4) True in \<open>simp_all add: entry_ok_def n_def[symmetric]\<close>)
  qed
qed

lemma Register_inv:
  assumes "engine_inv e" "now > 0"
  shows "engine_inv (Register now i so e)"
proof -
  have "engine_inv (armLocked now i s e)" for s
    using assms by (intro armLocked_inv) (simp_all add: engine_inv_def)
  then show ?thesis using assms(1) by (simp add: Register_def Let_def split: option.split)
qed

lemma own_timer_disjoint:
  assumes "timers_ok e" "map_get (eng_entries e) i = Some ent" "j \<noteq> i"
  shows "armed j e - set_option (re_timer ent) = entry_timers j e" "armed i e - set_option (re_timer ent) = {}"
proof -
  have "armed i e = set_option (re_timer ent)" "armed j e = entry_timers j e"
    using assms by (simp_all add: timers_ok_def entry_timers_def)
  moreover have "armed j e \<inter> armed i e = {}" using assms(3) by (auto simp: armed_def)
  ultimately show "armed j e - set_option (re_timer ent) = entry_timers j e" "armed i e - set_option (re_timer ent) = {}"
    by auto
qed

lemma Unregister_inv:
  assumes "engine_inv e"
  shows "engine_inv (Unregister i e)"
proof (cases "map_get (eng_entries e) i")
  case (Some ent)
  have t: "timers_ok e" using assms by (simp add: engine_inv_def)
  have "armed j (stop_timer (re_timer ent) e) = (if j = i then {} else entry_timers j e)" for j
    using own_timer_disjoint[OF t Some, of j] own_timer_disjoint(2)[OF t Some, of "Suc i"] by simp
  moreover have "entry_ok ((stop_timer (re_timer ent) e)\<lparr>eng_entries := m\<rparr>) x" if "entry_ok e x" for m x
    using that by (rule entry_ok_mono) simp_all
  ultimately show ?thesis
    using assms Some by (simp add: Unregister_def engine_inv_def timers_ok_def entry_timers_def)
qed (use assms in \<open>simp add: Unregister_def\<close>)

text \<open>After a fire the entry has no timer; arming it again restores the invariant.\<close>

lemma rearm_inv:
  assumes "engine_inv e" "map_get (eng_entries e) i = Some ent" "now > 0"
  shows "engine_inv (reArmAfterFire now i ((stop_timer (re_timer ent) e)\<lparr>
    eng_entries := map_put i (ent\<lparr>re_timer := None, re_nextRun := 0\<rparr>) (eng_entries e), eng_fires := f\<rparr>))"
proof -
  define e1 where "e1 = (stop_timer (re_timer ent) e)\<lparr>
    eng_entries := map_put i (ent\<lparr>re_timer := None, re_nextRun := 0\<rparr>) (eng_entries e), eng_fires := f\<rparr>"
  have t: "timers_ok e" using assms by (simp add: engine_inv_def)
  have "armed j e1 = (if j = i then {} else entry_timers j e)" for j
    using own_timer_disjoint[OF t assms(2), of j] own_timer_disjoint(2)[OF t assms(2), of "Suc i"] by (simp add: e1_def)
  then have "timers_ok e1" by (simp add: timers_ok_def e1_def entry_timers_def)
  moreover have "entry_ok e1 x" if "entry_ok e x" for x
    using that by (rule entry_ok_mono) (simp_all add: e1_def)
  ultimately have "engine_inv (armLocked now i (re_schedule ent) e1)"
    using assms by (intro armLocked_inv) (auto simp: e1_def engine_inv_def split: if_splits)
  moreover have "reArmAfterFire now i e1 = armLocked now i (re_schedule ent) e1"
    by (simp add: reArmAfterFire_def e1_def)
  ultimately show ?thesis by (simp add: e1_def)
qed

lemma Trigger_inv:
  assumes "engine_inv e" "now > 0"
  shows "engine_inv (Trigger now i e)"
proof (cases "map_get (eng_entries e) i")
  case (Some ent)
  define e1 where "e1 = (stop_timer (re_timer ent) e)\<lparr>
    eng_entries := map_put i (ent\<lparr>re_timer := None, re_nextRun := 0\<rparr>) (eng_entries e), eng_fires := eng_fires e @ [i]\<rparr>"
  have fires: "eng_fires (timer_Stop n e) = eng_fires e" for n by (simp add: timer_Stop_def)
  have "ent\<lparr>re_timer := None, re_nextRun := 0\<rparr> = ent" if "re_timer ent = None"
  proof -
    have "entry_ok e ent" using assms(1) Some by (simp add: engine_inv_def)
    with that show ?thesis by (cases ent) (simp add: entry_ok_def)
  qed
  then have "trigger_begin i e = (e1, True)"
    using Some by (cases "re_timer ent") (simp_all add: trigger_begin_def e1_def stop_timer_def fires map_put_same)
  then show ?thesis using rearm_inv[OF assms(1) Some assms(2)] by (simp add: Trigger_def e1_def)
qed (use assms in \<open>simp add: Trigger_def trigger_begin_def\<close>)

text \<open>A timer elapses and its callback runs before anything else takes the lock.\<close>

definition elapse :: "time \<Rightarrow> nat \<Rightarrow> Engine \<Rightarrow> Engine" where
  "elapse now n e = run_callback now n (expire n e)"

lemma elapse_eq:
  assumes "no_callback e"
  shows "elapse now n e = (if n < length (eng_timers e) \<and> rt_status (eng_timers e ! n) = Armed
     then onFire now (rt_routine (eng_timers e ! n)) (timer_Stop n e) else e)"
  using assms by (auto simp: elapse_def run_callback_def expire_def timer_Stop_def no_callback_def)

lemma elapse_inv:
  assumes "engine_inv e" "now > 0"
  shows "engine_inv (elapse now n e)"
proof (cases "n < length (eng_timers e) \<and> rt_status (eng_timers e ! n) = Armed")
  case True
  define i where "i = rt_routine (eng_timers e ! n)"
  have "n \<in> armed i e" using True by (simp add: armed_def i_def)
  then obtain ent where ent: "map_get (eng_entries e) i = Some ent" "re_timer ent = Some n"
    using assms(1) by (auto simp: engine_inv_def timers_ok_def entry_timers_def split: option.splits)
  have "elapse now n e = onFire now i (timer_Stop n e)"
    using True assms(1) by (simp add: elapse_eq engine_inv_def i_def)
  moreover have "eng_fires (timer_Stop n e) = eng_fires e" by (simp add: timer_Stop_def)
  ultimately show ?thesis
    using rearm_inv[OF assms(1) ent(1) assms(2), of "eng_fires e @ [i]"] ent
    by (simp add: onFire_def onFire_begin_def stop_timer_def)
next
  case False
  then have "elapse now n e = e" using assms(1) elapse_eq[of e now n] by (auto simp: engine_inv_def)
  with assms show ?thesis by simp
qed

section \<open>Histories\<close>

datatype engine_op =
    OpRegister uuid "Schedule option"
  | OpUnregister uuid
  | OpTrigger uuid
  | OpElapse nat

fun engine_step :: "time \<times> engine_op \<Rightarrow> Engine \<Rightarrow> Engine" where
  "engine_step (now, OpRegister i so) e = Register now i so e"
| "engine_step (now, OpUnregister i) e = Unregister i e"
| "engine_step (now, OpTrigger i) e = Trigger now i e"
| "engine_step (now, OpElapse n) e = elapse now n e"

lemma engine_run_inv:
  assumes "\<forall>p \<in> set ops. fst p > 0" "engine_inv e"
  shows "engine_inv (fold engine_step ops e)"
  using assms
proof (induction ops arbitrary: e)
  case (Cons p ops)
  obtain now op where p: "p = (now, op)" by (cases p)
  have "engine_inv (engine_step p e)"
    using Cons.prems p by (cases op) (simp_all add: Register_inv Unregister_inv Trigger_inv elapse_inv)
  with Cons show ?case by simp
qed simp

lemma NewEngine_inv: "engine_inv NewEngine"
  by (simp add: engine_inv_def timers_ok_def no_callback_def NewEngine_def armed_def entry_timers_def)

text \<open>
  (C38) As long as callbacks do not overlap with other calls, every registered routine whose
  schedule is enabled has exactly one armed timer, due at the next run that is reported; a
  disabled or unregistered routine has none.
\<close>

theorem one_timer_per_routine:
  assumes "\<forall>p \<in> set ops. fst p > 0" "e = fold engine_step ops NewEngine"
  shows "case map_get (eng_entries e) i of
      None \<Rightarrow> armed i e = {}
    | Some ent \<Rightarrow>
        if enabled (re_schedule ent) then \<exists>n. armed i e = {n} \<and> due_at e n = re_nextRun ent
        else armed i e = {} \<and> re_nextRun ent = 0"
proof -
  have inv: "engine_inv e" using engine_run_inv[OF assms(1) NewEngine_inv] assms(2) by simp
  then have a: "armed i e = entry_timers i e" by (simp add: engine_inv_def timers_ok_def)
  show ?thesis
  proof (cases "map_get (eng_entries e) i")
    case (Some ent)
    then have "entry_ok e ent" using inv by (simp add: engine_inv_def)
    with a Some show ?thesis by (auto simp: entry_ok_def entry_timers_def split: option.splits)
  qed (simp add: a entry_timers_def)
qed

theorem one_timer_per_routine_witness:
  "let e = fold engine_step [(5, OpRegister 7 (Some (FixedInterval 10))), (15, OpElapse 0), (17, OpTrigger 7)] NewEngine
   in \<exists>n. armed 7 e = {n} \<and> due_at e n = 27 \<and> eng_fires e = [7, 7]"
proof -
  define ops :: "(time \<times> engine_op) list" where
    "ops = [(5, OpRegister 7 (Some (FixedInterval 10))), (15, OpElapse 0), (17, OpTrigger 7)]"
  define e where "e = fold engine_step ops NewEngine"
  have "map_get (eng_entries e) 7 = Some \<lparr>re_schedule = FixedInterval 10, re_nextRun = 27, re_timer = Some 2\<rparr>"
    "eng_fires e = [7, 7]"
    by (simp_all add: e_def ops_def NewEngine_def Register_def armLocked_def schedule_Next_def AfterFunc_def
        elapse_def expire_def run_callback_def onFire_def onFire_begin_def reArmAfterFire_def Trigger_def trigger_begin_def
        timer_Stop_def stop_timer_def Let_def)
  then show ?thesis
    using one_timer_per_routine[OF _ e_def, of 7]
    unfolding Let_def ops_def[symmetric] e_def[symmetric] by (simp add: ops_def enabled_def)
qed

text \<open>
  (C39) A stale callback doubles a routine. When a timer has expired but its callback has not
  yet taken the lock, a registration with a new interval cannot stop it: the callback then
  discards the new timer without stopping it and arms another one. From then on two timers are
  armed for the routine, and it fires twice as often.
\<close>

theorem stale_callback_two_timers:
  assumes "engine_inv e" "map_get (eng_entries e) i = Some ent" "re_timer ent = Some n"
    "re_schedule ent \<noteq> FixedInterval d" "d > 0" "now > 0"
    "e' = run_callback now n (Register now i (Some (FixedInterval d)) (expire n e))"
  shows "card (armed i e') = 2 \<and> (\<forall>k \<in> armed i e'. due_at e' k = now + d) \<and> eng_fires e' = eng_fires e @ [i]"
proof -
  define ts where "ts = eng_timers e"
  have n: "n < length ts" "rt_routine (ts ! n) = i" "rt_status (ts ! n) = Armed" "armed i e = {n}"
  proof -
    have "armed i e = {n}" using assms(1-3) by (simp add: engine_inv_def timers_ok_def entry_timers_def)
    then show "armed i e = {n}" "n < length ts" "rt_routine (ts ! n) = i" "rt_status (ts ! n) = Armed"
      by (auto simp: armed_def ts_def)
  qed
  define over where "over = ts[n := (ts ! n)\<lparr>rt_status := Over\<rparr>]"
  define new where "new = \<lparr>rt_routine = i, rt_due = now + d, rt_status = Armed\<rparr>"
  have e': "eng_timers e' = over @ [new, new]" "eng_fires e' = eng_fires e @ [i]"
    using assms(2-7) n(1-3)
    by (simp_all add: expire_def ts_def[symmetric] Register_def armLocked_def schedule_Next_def AfterFunc_def stop_timer_def
        timer_Stop_def run_callback_def onFire_def onFire_begin_def reArmAfterFire_def nth_append list_update_append
        over_def new_def Let_def max_def)
  have "armed i e' = {length ts, Suc (length ts)}"
  proof -
    have nth: "eng_timers e' ! k = (if k < length ts then over ! k else new)" if "k < length ts + 2" for k
      using that by (auto simp: e'(1) over_def nth_append nth_Cons' less_Suc_eq)
    have "\<not> (rt_routine (over ! k) = i \<and> rt_status (over ! k) = Armed)" if "k < length ts" for k
    proof (cases "k = n")
      case False
      then have "k \<notin> armed i e" by (simp add: n(4))
      with that False show ?thesis by (simp add: armed_def over_def ts_def)
    qed (use that in \<open>simp add: over_def\<close>)
    moreover have "length (eng_timers e') = length ts + 2" by (simp add: e'(1) over_def)
    ultimately show ?thesis unfolding armed_def using nth by (force simp: new_def less_Suc_eq)
  qed
  moreover have "due_at e' k = now + d" if "k \<in> {length ts, Suc (length ts)}" for k
    using that by (auto simp: due_at_def e'(1) over_def nth_append new_def)
  ultimately show ?thesis using e'(2) by simp
qed

theorem stale_callback_two_timers_witness:
  "let e = Register 5 7 (Some (FixedInterval 10)) NewEngine;
       e' = run_callback 15 0 (Register 15 7 (Some (FixedInterval 20)) (expire 0 e))
   in card (armed 7 e') = 2 \<and> eng_fires e' = [7]"
proof -
  define e where "e = Register 5 7 (Some (FixedInterval 10)) NewEngine"
  have inv: "engine_inv e" unfolding e_def by (rule Register_inv[OF NewEngine_inv]) simp
  have ent: "map_get (eng_entries e) 7 = Some \<lparr>re_schedule = FixedInterval 10, re_nextRun = 15, re_timer = Some 0\<rparr>"
    "eng_fires e = []"
    by (simp_all add: e_def Register_def NewEngine_def armLocked_def schedule_Next_def AfterFunc_def Let_def)
  show ?thesis
    using stale_callback_two_timers[OF inv ent(1), of 0 20 15] ent(2) unfolding Let_def e_def[symmetric] by simp
qed

end
