(* ===== verification/Handler_State.thy ===== *)
theory Handler_State
  imports Runner_Turns Circuit_Breaker Routine_Engine
begin

text \<open>
  The state of the server that the HTTP handlers and the automation share: \<open>handler.go\<close>,
  \<open>event_helpers.go\<close> and the watcher breakers of \<open>internal/handler\<close>. The store of the viewed
  workspace group, the routine engine and the container breaker are those of the other
  theories. Calls that start a goroutine of the runner are recorded in the order in which they
  are made; the goroutines are the definitions of the theories that model them.
\<close>

section \<open>Breakers of the watchers\<close>

record watcherBreaker =
  wb_breaker :: BackoffBreaker
  lastReason :: string
  lastTaskID :: "uuid option"

definition newWatcherBreaker :: watcherBreaker where
  "newWatcherBreaker = \<lparr>wb_breaker = NewBackoff 0 0, lastReason = [], lastTaskID = None\<rparr>"

definition isOpen :: "time \<Rightarrow> watcherBreaker \<Rightarrow> bool" where
  "isOpen now wb = IsOpen now (wb_breaker wb)"

definition recordFailure :: "uuid option \<Rightarrow> string \<Rightarrow> time \<Rightarrow> watcherBreaker \<Rightarrow> watcherBreaker \<times> int" where
  "recordFailure taskID reason now wb =
     (case bb_RecordFailure now (wb_breaker wb) of
        (b, n) \<Rightarrow> (wb\<lparr>lastReason := reason, lastTaskID := taskID, wb_breaker := b\<rparr>, n))"

definition recordSuccess :: "watcherBreaker \<Rightarrow> watcherBreaker" where
  "recordSuccess wb = wb\<lparr>wb_breaker := bb_RecordSuccess (wb_breaker wb), lastReason := [], lastTaskID := None\<rparr>"

record watcherHealthEntry =
  we_Name :: string
  Healthy :: bool
  we_Failures :: int
  we_RetryAt :: "time option"
  LastReason :: string

definition healthEntry :: "string \<Rightarrow> time \<Rightarrow> time \<Rightarrow> watcherBreaker \<Rightarrow> watcherHealthEntry" where
  "healthEntry name now now' wb =
     (let op = IsOpen now (wb_breaker wb)
      in \<lparr>we_Name = name, Healthy = (\<not> op), we_Failures = bb_failures (wb_breaker wb),
          we_RetryAt = (if op then RetryAt now' (wb_breaker wb) else None),
          LastReason = (if op then lastReason wb else [])\<rparr>)"

section \<open>State\<close>

text \<open>
  \<open>groupLimit\<close> is the entry of the viewed workspace group in the table of limits, if there is
  one; its parts are the limits for regular tasks and for test runs. \<open>taskLocked\<close> is the answer of
  the agent sessions to \<open>IsTaskLocked\<close>.
\<close>

record launched_run =
  run_ID :: uuid
  run_prompt :: string
  run_session :: string
  run_resumed :: bool

record launched_commit =
  com_ID :: uuid
  com_session :: string
  com_trigger :: Task_Model.Trigger
  com_prefix :: string

record Handler =
  h_store :: Store
  h_engine :: "Engine option"
  h_autoimplement :: bool
  h_autotest :: bool
  h_autosubmit :: bool
  h_autosync :: bool
  h_review :: bool
  h_breakers :: "string \<Rightarrow> watcherBreaker"
  h_groupLimit :: "(int option \<times> int option) option"
  cachedMaxParallel :: int
  cachedMaxTestParallel :: int
  h_circuit :: Breaker
  taskLocked :: "uuid \<Rightarrow> bool"
  scheduledPromoteTimer :: "time option"
  reviewInFlight :: "uuid list"
  h_runs :: "launched_run list"
  h_commits :: "launched_commit list"
  h_syncs :: "(uuid \<times> string \<times> TaskStatus) list"
  h_killed :: "uuid list"
  h_stopped :: "uuid list"
  h_cleaned :: "uuid list"
  h_threads :: "(uuid \<times> bool) list"

text \<open>The world outside: the file system, git, prompt templates, and the text of an error.\<close>

record world =
  w_lib :: lib
  w_stat :: "string \<Rightarrow> bool"
  w_isGitRepo :: "string \<Rightarrow> bool"
  w_hasOrigin :: "string \<Rightarrow> bool"
  w_fetch :: "string \<Rightarrow> go_error option"
  w_behind :: "string \<Rightarrow> string \<Rightarrow> go_error + int"
  w_conflicts :: "string \<Rightarrow> go_error + bool"
  w_ensure :: "Task \<Rightarrow> go_error + (string, string) gomap \<times> string"
  w_diff :: "(string, string) gomap \<Rightarrow> string"
  w_testPrompt :: "string \<Rightarrow> string \<Rightarrow> string \<Rightarrow> string \<Rightarrow> string"
  w_text :: "error \<Rightarrow> string"

definition on_store :: "(Store \<Rightarrow> Store) \<Rightarrow> Handler \<Rightarrow> Handler" where
  "on_store f h = h\<lparr>h_store := f (h_store h)\<rparr>"

definition try_store :: "(Store \<Rightarrow> unit outcome) \<Rightarrow> Handler \<Rightarrow> Handler \<times> error option" where
  "try_store f h =
     (case f (h_store h) of
        (s, Inl e) \<Rightarrow> (h\<lparr>h_store := s\<rparr>, Some e)
      | (s, Inr _) \<Rightarrow> (h\<lparr>h_store := s\<rparr>, None))"

definition on_breaker :: "string \<Rightarrow> (watcherBreaker \<Rightarrow> watcherBreaker) \<Rightarrow> Handler \<Rightarrow> Handler" where
  "on_breaker name f h = h\<lparr>h_breakers := (h_breakers h)(name := f (h_breakers h name))\<rparr>"

definition trip :: "string \<Rightarrow> uuid \<Rightarrow> string \<Rightarrow> time \<Rightarrow> Handler \<Rightarrow> Handler" where
  "trip name i reason now = on_breaker name (\<lambda>wb. fst (recordFailure (Some i) reason now wb))"

definition ContainerCircuitAllow :: "time \<Rightarrow> Handler \<Rightarrow> Handler \<times> bool" where
  "ContainerCircuitAllow now h = (case Allow now (h_circuit h) of (b, ok) \<Rightarrow> (h\<lparr>h_circuit := b\<rparr>, ok))"

definition RunBackground :: "uuid \<Rightarrow> string \<Rightarrow> string \<Rightarrow> bool \<Rightarrow> Handler \<Rightarrow> Handler" where
  "RunBackground i prompt session resumed h =
     h\<lparr>h_runs := h_runs h @ [\<lparr>run_ID = i, run_prompt = prompt, run_session = session, run_resumed = resumed\<rparr>]\<rparr>"

definition cascadeArchiveThreadsForTask :: "uuid \<Rightarrow> Handler \<Rightarrow> Handler" where
  "cascadeArchiveThreadsForTask i h = h\<lparr>h_threads := h_threads h @ [(i, True)]\<rparr>"

definition cascadeUnarchiveThreadsForTask :: "uuid \<Rightarrow> Handler \<Rightarrow> Handler" where
  "cascadeUnarchiveThreadsForTask i h = h\<lparr>h_threads := h_threads h @ [(i, False)]\<rparr>"

definition StopTaskWorker :: "uuid \<Rightarrow> Handler \<Rightarrow> Handler" where
  "StopTaskWorker i h = h\<lparr>h_stopped := h_stopped h @ [i]\<rparr>"

definition unregisterRoutine :: "uuid \<Rightarrow> Handler \<Rightarrow> Handler" where
  "unregisterRoutine i h = h\<lparr>h_engine := map_option (Unregister i) (h_engine h)\<rparr>"

definition session_of :: "Task \<Rightarrow> string" where
  "session_of t = (case SessionID t of Some sid \<Rightarrow> sid | None \<Rightarrow> [])"

section \<open>Events\<close>

text \<open>A request context carries the actor for the store and the principal of the request, if any.\<close>

record request_ctx =
  ctx_actor :: actor_context
  ctx_principal :: "(string \<times> string) option"

definition background_ctx :: request_ctx where
  "background_ctx = \<lparr>ctx_actor = Some None, ctx_principal = None\<rparr>"

definition actorTypeFor :: "string \<Rightarrow> string" where
  "actorTypeFor principalType = (if principalType = ''service'' then ''service'' else ''user'')"

definition stampEventActor :: "request_ctx \<Rightarrow> actor_context" where
  "stampEventActor ctx =
     (case ctx_principal ctx of
        Some (sub, ty) \<Rightarrow> WithActorPrincipal (ctx_actor ctx) sub (actorTypeFor ty)
      | None \<Rightarrow> ctx_actor ctx)"

definition insertEventOrLog :: "request_ctx \<Rightarrow> uuid \<Rightarrow> EventType \<Rightarrow> event_data \<Rightarrow> time \<Rightarrow> Handler \<Rightarrow> Handler" where
  "insertEventOrLog ctx i ty data now = on_store (\<lambda>s. fst (InsertEvent (stampEventActor ctx) i ty data now s))"

definition state_change_by :: "TaskStatus \<Rightarrow> TaskStatus \<Rightarrow> Task_Model.Trigger \<Rightarrow> event_data" where
  "state_change_by from to trigger = DataStrings (NewStateChangeData from to trigger [])"

definition note_result :: "string \<Rightarrow> event_data" where
  "note_result text = DataStrings [(''result'', text)]"

definition closeFeedbackWaitingSpan :: "request_ctx \<Rightarrow> uuid \<Rightarrow> time \<Rightarrow> Handler \<Rightarrow> Handler" where
  "closeFeedbackWaitingSpan ctx i now =
     on_store (\<lambda>s. fst (InsertEvent (ctx_actor ctx) i EventTypeSpanEnd (span ''feedback_waiting'' ''feedback_waiting'') now s))"

definition openWatcherBreaker :: "string \<Rightarrow> uuid \<Rightarrow> string \<Rightarrow> time \<Rightarrow> time \<Rightarrow> Handler \<Rightarrow> Handler" where
  "openWatcherBreaker name i reason now1 now2 h =
     insertEventOrLog background_ctx i EventTypeSystem
       (note_result (''['' @ name @ ''] circuit breaker opened: '' @ reason)) now2 (trip name i reason now1 h)"

section \<open>Limits\<close>

definition currentGroupParallelLimit :: "bool \<Rightarrow> Handler \<Rightarrow> int option" where
  "currentGroupParallelLimit testRun h =
     (case h_groupLimit h of
        None \<Rightarrow> None
      | Some (maxParallel, maxTestParallel) \<Rightarrow>
          (case (if testRun then maxTestParallel else maxParallel) of
             None \<Rightarrow> None
           | Some v \<Rightarrow> Some (if v = 0 then 2147483647 else v)))"

definition maxConcurrentTasks :: "Handler \<Rightarrow> int" where
  "maxConcurrentTasks h = (case currentGroupParallelLimit False h of Some v \<Rightarrow> v | None \<Rightarrow> cachedMaxParallel h)"

definition maxTestConcurrentTasks :: "Handler \<Rightarrow> int" where
  "maxTestConcurrentTasks h = (case currentGroupParallelLimit True h of Some v \<Rightarrow> v | None \<Rightarrow> cachedMaxTestParallel h)"

definition countGlobalInProgress :: "Handler \<Rightarrow> int" where
  "countGlobalInProgress h = CountRegularInProgress (h_store h)"

definition countGlobalTestsInProgress :: "Handler \<Rightarrow> int" where
  "countGlobalTestsInProgress h =
     int (length (filter IsTestRun (ListTasksByStatus TaskStatusInProgress (h_store h))))"

section \<open>Worktrees\<close>

definition missingTaskWorktrees :: "world \<Rightarrow> Task \<Rightarrow> string list" where
  "missingTaskWorktrees w t =
     map fst (filter (\<lambda>(repo, wt). wt = [] \<or> \<not> w_stat w wt \<or> \<not> w_isGitRepo w wt) (WorktreePaths t))"

definition validateTaskWorktreesForCommit :: "world \<Rightarrow> Task \<Rightarrow> (int \<times> string) option" where
  "validateTaskWorktreesForCommit w t =
     (if WorktreePaths t = [] then Some (409, ''task has no worktrees to commit'')
      else let missing = missingTaskWorktrees w t
           in if missing \<noteq> [] then Some (409, ''task worktree missing for: '' @ Join missing '', '') else None)"

definition restoreTaskWorktreesForCommit :: "world \<Rightarrow> Task \<Rightarrow> time \<Rightarrow> Handler \<Rightarrow> Handler \<times> Task \<times> string option" where
  "restoreTaskWorktreesForCommit w t now h =
     (if WorktreePaths t = [] \<or> missingTaskWorktrees w t = [] then (h, t, None)
      else case w_ensure w t of
             Inl e \<Rightarrow> (h, t, Some (err_msg e))
           | Inr (paths, branch) \<Rightarrow>
               (case try_store (UpdateTaskWorktrees (ID t) paths branch now) h of
                  (h1, Some e) \<Rightarrow> (h1, t, Some (w_text w e))
                | (h1, None) \<Rightarrow>
                    (case GetTask (ID t) (h_store h1) of
                       Inl e \<Rightarrow> (h1, t, Some (w_text w e))
                     | Inr updated \<Rightarrow> (h1, updated, None))))"

section \<open>Sample values\<close>

definition sample_world :: world where
  "sample_world = \<lparr>w_lib = unary_lib, w_stat = (\<lambda>_. True), w_isGitRepo = (\<lambda>_. True), w_hasOrigin = (\<lambda>_. False),
     w_fetch = (\<lambda>_. None), w_behind = (\<lambda>_ _. Inr 0), w_conflicts = (\<lambda>_. Inr False),
     w_ensure = (\<lambda>_. Inl \<lparr>err_msg = ''no repository'', err_deadline = False\<rparr>), w_diff = (\<lambda>_. []),
     w_testPrompt = (\<lambda>prompt _ _ _. prompt), w_text = (\<lambda>_. ''error'')\<rparr>"

definition sample_handler :: "Store \<Rightarrow> Handler" where
  "sample_handler s = \<lparr>h_store = s, h_engine = None, h_autoimplement = True, h_autotest = True, h_autosubmit = True,
     h_autosync = True, h_review = False, h_breakers = (\<lambda>_. newWatcherBreaker), h_groupLimit = None,
     cachedMaxParallel = 1, cachedMaxTestParallel = 1, h_circuit = NewBreaker 5 30, taskLocked = (\<lambda>_. False),
     scheduledPromoteTimer = None, reviewInFlight = [], h_runs = [], h_commits = [], h_syncs = [], h_killed = [],
     h_stopped = [], h_cleaned = [], h_threads = []\<rparr>"

lemma sample_handler_sel [simp]:
  "h_store (sample_handler s) = s" "h_engine (sample_handler s) = None" "h_autoimplement (sample_handler s) = True"
  "h_autotest (sample_handler s) = True" "h_autosubmit (sample_handler s) = True" "h_review (sample_handler s) = False"
  "h_breakers (sample_handler s) = (\<lambda>_. newWatcherBreaker)" "h_groupLimit (sample_handler s) = None"
  "cachedMaxParallel (sample_handler s) = 1" "cachedMaxTestParallel (sample_handler s) = 1"
  "h_circuit (sample_handler s) = NewBreaker 5 30" "taskLocked (sample_handler s) = (\<lambda>_. False)"
  "h_runs (sample_handler s) = []" "h_commits (sample_handler s) = []" "h_syncs (sample_handler s) = []"
  "reviewInFlight (sample_handler s) = []"
  by (simp_all add: sample_handler_def)

lemma sample_world_sel [simp]:
  "w_lib sample_world = unary_lib" "w_stat sample_world = (\<lambda>_. True)" "w_isGitRepo sample_world = (\<lambda>_. True)"
  "w_hasOrigin sample_world = (\<lambda>_. False)"
  by (simp_all add: sample_world_def)

end
