(* ===== verification/Handler_Execute.thy ===== *)
theory Handler_Execute
  imports Handler_State
begin

text \<open>
  \<open>internal/handler/execute.go\<close>: feedback, completion, cancellation, resumption, archiving, test
  and sync of a task. A handler returns the response it writes. \<open>promoteMu\<close> makes the handlers
  that hold it atomic; \<open>ResumeTask\<close> and \<open>SyncTask\<close> read the task before they take the lock and are
  split there.
\<close>

datatype response = HTTPError int string | HTTPOk int "(string, string) gomap"

section \<open>Feedback\<close>

primrec try_all :: "(Store \<Rightarrow> unit outcome) list \<Rightarrow> Handler \<Rightarrow> Handler \<times> error option" where
  "try_all [] h = (h, None)"
| "try_all (f # fs) h = (case try_store f h of (h1, Some e) \<Rightarrow> (h1, Some e) | (h1, None) \<Rightarrow> try_all fs h1)"

definition resume_calls :: "uuid \<Rightarrow> (nat \<Rightarrow> time) \<Rightarrow> (Store \<Rightarrow> unit outcome) list" where
  "resume_calls i c =
     [UpdateTaskTestRun i False [] (c 0), UpdateTaskPendingTestFeedback i [] (c 1), ClearReviewResult i (c 2),
      ResetTestFailCount i (c 3), UpdateTaskStatus i TaskStatusInProgress (c 4) (c 5)]"

definition resumeWaitingTaskWithFeedbackLocked ::
  "request_ctx \<Rightarrow> Task \<Rightarrow> string \<Rightarrow> Task_Model.Trigger \<Rightarrow> string \<Rightarrow> (nat \<Rightarrow> time) \<Rightarrow> Handler \<Rightarrow> Handler \<times> error option" where
  "resumeWaitingTaskWithFeedbackLocked ctx t message trigger systemMessage c h =
     (let i = ID t in
      case try_all (resume_calls i c) h of
        (h1, Some e) \<Rightarrow> (h1, Some e)
      | (h1, None) \<Rightarrow>
          let h2 = insertEventOrLog ctx i EventTypeFeedback (DataStrings [(''message'', message)]) (c 6) h1;
              h3 = insertEventOrLog ctx i EventTypeStateChange
                     (state_change_by TaskStatusWaiting TaskStatusInProgress trigger) (c 7) h2;
              h4 = (if systemMessage \<noteq> []
                    then insertEventOrLog ctx i EventTypeSystem (note_result systemMessage) (c 8) h3 else h3)
          in (RunBackground i message (session_of t) True h4, None))"

definition SubmitFeedback :: "world \<Rightarrow> request_ctx \<Rightarrow> uuid \<Rightarrow> string \<Rightarrow> (nat \<Rightarrow> time) \<Rightarrow> Handler \<Rightarrow> Handler \<times> response" where
  "SubmitFeedback w ctx i message c h =
     (if TrimSpace message = [] then (h, HTTPError 400 ''message is required'')
      else case GetTask i (h_store h) of
             Inl _ \<Rightarrow> (h, HTTPError 404 ''task not found'')
           | Inr t \<Rightarrow>
               if Status t \<noteq> TaskStatusWaiting then (h, HTTPError 400 ''task is not in waiting status'')
               else case try_store (UpdateTaskTestRun i False [] (c 9)) h of
                      (h1, Some e) \<Rightarrow> (h1, HTTPError 500 (w_text w e))
                    | (h1, None) \<Rightarrow>
                        (case resumeWaitingTaskWithFeedbackLocked ctx t message TriggerFeedback [] c h1 of
                           (h2, Some e) \<Rightarrow> (h2, HTTPError 500 (w_text w e))
                         | (h2, None) \<Rightarrow> (h2, HTTPOk 200 [(''status'', ''resumed'')])))"

section \<open>Completion\<close>

text \<open>
  The goroutine that commits: \<open>commit\<close> is the pipeline of the runner, whose error says whether
  the generation of the commit message failed.
\<close>

definition commit_failed ::
  "world \<Rightarrow> launched_commit \<Rightarrow> go_error \<Rightarrow> bool \<Rightarrow> (nat \<Rightarrow> time) \<Rightarrow> Handler \<Rightarrow> Handler" where
  "commit_failed w lc e inMessage c h =
     (let i = com_ID lc; trigger = com_trigger lc;
          pause = (\<lambda>h. if trigger \<noteq> TriggerUser
                       then openWatcherBreaker ''auto-submit'' i (err_msg e) (c 20) (c 21) h else h);
          fail = (\<lambda>h. pause (insertEventOrLog background_ctx i EventTypeStateChange
                   (state_change_by TaskStatusCommitting TaskStatusFailed trigger) (c 25)
                   (insertEventOrLog background_ctx i EventTypeError
                     (DataStrings [(''error'', com_prefix lc @ err_msg e)]) (c 24)
                     (fst (try_store (UpdateTaskStatus i TaskStatusFailed (c 22) (c 23)) h)))))
      in if inMessage then
           (case try_store (ForceUpdateTaskStatus i TaskStatusWaiting (c 26) (c 27)) h of
              (h1, Some _) \<Rightarrow> fail h1
            | (h1, None) \<Rightarrow>
                pause (insertEventOrLog background_ctx i EventTypeSystem
                  (note_result ''Commit aborted: commit message generation failed. Task returned to waiting for review.'') (c 29)
                  (insertEventOrLog background_ctx i EventTypeStateChange
                    (state_change_by TaskStatusCommitting TaskStatusWaiting trigger) (c 28) h1)))
         else fail h)"

definition run_commit ::
  "world \<Rightarrow> launched_commit \<Rightarrow> (Store \<Rightarrow> Store \<times> (go_error \<times> bool) option) \<Rightarrow> (nat \<Rightarrow> time) \<Rightarrow> Handler \<Rightarrow> Handler" where
  "run_commit w lc commit c h =
     (case commit (h_store h) of
        (s, Some (e, inMessage)) \<Rightarrow> commit_failed w lc e inMessage c (h\<lparr>h_store := s\<rparr>)
      | (s, None) \<Rightarrow>
          insertEventOrLog background_ctx (com_ID lc) EventTypeStateChange
            (state_change_by TaskStatusCommitting TaskStatusDone (com_trigger lc)) (c 32)
            (fst (try_store (UpdateTaskStatus (com_ID lc) TaskStatusDone (c 30) (c 31)) (h\<lparr>h_store := s\<rparr>))))"

definition commit_transition ::
  "world \<Rightarrow> launched_commit \<Rightarrow> (Store \<Rightarrow> Store \<times> (go_error \<times> bool) option) \<Rightarrow> (nat \<Rightarrow> time) \<Rightarrow> Handler \<Rightarrow> Handler" where
  "commit_transition w lc commit c h =
     (let i = com_ID lc in
      case GetTask i (h_store h) of
        Inl _ \<Rightarrow> run_commit w lc commit c h
      | Inr t \<Rightarrow>
          (case restoreTaskWorktreesForCommit w t (c 33) h of
             (h1, t1, _) \<Rightarrow>
               (case validateTaskWorktreesForCommit w t1 of
                  None \<Rightarrow> run_commit w lc commit c h1
                | Some (code, msg) \<Rightarrow>
                    (case try_store (ForceUpdateTaskStatus i TaskStatusWaiting (c 34) (c 35)) h1 of
                       (h2, Some _) \<Rightarrow> h2
                     | (h2, None) \<Rightarrow>
                         insertEventOrLog background_ctx i EventTypeError (DataStrings [(''error'', msg)]) (c 37)
                           (insertEventOrLog background_ctx i EventTypeStateChange
                             (state_change_by TaskStatusCommitting TaskStatusWaiting (com_trigger lc)) (c 36) h2)))))"

definition runCommitTransition :: "uuid \<Rightarrow> string \<Rightarrow> Task_Model.Trigger \<Rightarrow> string \<Rightarrow> Handler \<Rightarrow> Handler" where
  "runCommitTransition i sessionID trigger failurePrefix h =
     h\<lparr>h_commits := h_commits h @ [\<lparr>com_ID = i, com_session = sessionID, com_trigger = trigger, com_prefix = failurePrefix\<rparr>]\<rparr>"

definition CompleteTask :: "world \<Rightarrow> request_ctx \<Rightarrow> uuid \<Rightarrow> (nat \<Rightarrow> time) \<Rightarrow> Handler \<Rightarrow> Handler \<times> response" where
  "CompleteTask w ctx i c h =
     (case GetTask i (h_store h) of
        Inl _ \<Rightarrow> (h, HTTPError 404 ''task not found'')
      | Inr t \<Rightarrow>
          if Status t \<noteq> TaskStatusWaiting then (h, HTTPError 400 ''only waiting tasks can be completed'')
          else let h1 = closeFeedbackWaitingSpan ctx i (c 0) h in
            if session_of t \<noteq> [] then
              (case restoreTaskWorktreesForCommit w t (c 1) h1 of
                 (h2, t2, Some msg) \<Rightarrow> (h2, HTTPError 500 msg)
               | (h2, t2, None) \<Rightarrow>
                   (case validateTaskWorktreesForCommit w t2 of
                      Some (code, msg) \<Rightarrow> (h2, HTTPError code msg)
                    | None \<Rightarrow>
                        (case try_store (ForceUpdateTaskStatus i TaskStatusCommitting (c 2) (c 3)) h2 of
                           (h3, Some e) \<Rightarrow> (h3, HTTPError 500 (w_text w e))
                         | (h3, None) \<Rightarrow>
                             (runCommitTransition i (session_of t2) TriggerUser ''commit failed: ''
                                (insertEventOrLog ctx i EventTypeStateChange
                                  (state_change_by TaskStatusWaiting TaskStatusCommitting TriggerUser) (c 4) h3),
                              HTTPOk 200 [(''status'', ''ok'')]))))
            else
              (case try_store (ForceUpdateTaskStatus i TaskStatusDone (c 2) (c 3)) h1 of
                 (h2, Some e) \<Rightarrow> (h2, HTTPError 500 (w_text w e))
               | (h2, None) \<Rightarrow>
                   (insertEventOrLog ctx i EventTypeStateChange
                      (state_change_by TaskStatusWaiting TaskStatusDone TriggerUser) (c 4) h2,
                    HTTPOk 200 [(''status'', ''ok'')])))"

section \<open>Cancellation\<close>

definition cancellableStatuses :: "TaskStatus \<Rightarrow> bool" where
  "cancellableStatuses st \<longleftrightarrow>
     st \<in> {TaskStatusBacklog, TaskStatusInProgress, TaskStatusWaiting, TaskStatusFailed}"

definition live_status :: "TaskStatus \<Rightarrow> bool" where
  "live_status st \<longleftrightarrow> st \<in> {TaskStatusBacklog, TaskStatusInProgress, TaskStatusWaiting}"

definition isRoutineStoppedStatus :: "TaskStatus \<Rightarrow> bool" where
  "isRoutineStoppedStatus st \<longleftrightarrow> st \<in> {TaskStatusCancelled, TaskStatusDone, TaskStatusFailed}"

definition cancelTaskInternal :: "world \<Rightarrow> request_ctx \<Rightarrow> Task \<Rightarrow> (nat \<Rightarrow> time) \<Rightarrow> Handler \<Rightarrow> Handler \<times> error option" where
  "cancelTaskInternal w ctx t c h =
     (let i = ID t;
          h1 = (if Status t = TaskStatusWaiting then closeFeedbackWaitingSpan ctx i (c 0) h else h);
          h2 = (if Status t = TaskStatusInProgress then h1\<lparr>h_killed := h_killed h1 @ [i]\<rparr> else h1);
          h3 = StopTaskWorker i h2
      in case try_store (CancelTask (w_lib w) i (c 1) (c 2)) h3 of
           (h4, Some e) \<Rightarrow> (h4, Some e)
         | (h4, None) \<Rightarrow>
             let h5 = insertEventOrLog ctx i EventTypeStateChange
                        (state_change_by (Status t) TaskStatusCancelled TriggerUser) (c 3) h4
             in (if WorktreePaths t \<noteq> [] then h5\<lparr>h_cleaned := h_cleaned h5 @ [i]\<rparr> else h5, None))"

definition spawn_tag :: "lib \<Rightarrow> uuid \<Rightarrow> string" where
  "spawn_tag L i = ''spawned-by:'' @ uuid_String L i"

definition live_child :: "lib \<Rightarrow> uuid \<Rightarrow> Task \<Rightarrow> bool" where
  "live_child L i t \<longleftrightarrow> ID t \<noteq> i \<and> spawn_tag L i \<in> set (Tags t) \<and> live_status (Status t)"

definition cascadeCancelRoutineChildren ::
  "world \<Rightarrow> request_ctx \<Rightarrow> uuid \<Rightarrow> (uuid \<Rightarrow> nat \<Rightarrow> time) \<Rightarrow> Handler \<Rightarrow> Handler" where
  "cascadeCancelRoutineChildren w ctx i c h =
     fold (\<lambda>t h. fst (cancelTaskInternal w ctx t (c (ID t)) h))
       (filter (live_child (w_lib w) i) (ListTasks False (h_store h))) h"

definition spawnedByRoutineID :: "lib \<Rightarrow> Task \<Rightarrow> uuid" where
  "spawnedByRoutineID L t =
     (case List.map_filter (\<lambda>tag. if HasPrefix tag ''spawned-by:'' then uuid_Parse L (drop 11 tag) else None) (Tags t) of
        [] \<Rightarrow> 0
      | i # _ \<Rightarrow> i)"

definition cascadeDisableRoutineIfLastLiveInstance ::
  "world \<Rightarrow> request_ctx \<Rightarrow> Task \<Rightarrow> (nat \<Rightarrow> time) \<Rightarrow> Handler \<Rightarrow> Handler" where
  "cascadeDisableRoutineIfLastLiveInstance w ctx canceled c h =
     (let L = w_lib w; routineID = spawnedByRoutineID L canceled in
      if routineID = 0 then h
      else case GetTask routineID (h_store h) of
             Inl _ \<Rightarrow> h
           | Inr routine \<Rightarrow>
               if \<not> IsRoutine routine \<or> \<not> RoutineEnabled routine \<or> isRoutineStoppedStatus (Status routine)
                  \<or> (\<exists>t \<in> set (ListTasks False (h_store h)). ID t \<noteq> ID canceled \<and> live_child L routineID t) then h
               else case try_store (UpdateRoutineEnabled routineID False (c 10)) h of
                      (h1, Some _) \<Rightarrow> h1
                    | (h1, None) \<Rightarrow>
                        insertEventOrLog ctx routineID EventTypeSystem
                          (DataStrings [(''instance'', uuid_String L (ID canceled)), (''kind'', ''routine:auto_disabled''),
                             (''reason'', ''last_live_instance_cancelled'')]) (c 11)
                          (unregisterRoutine routineID h1))"

definition applyCancel ::
  "world \<Rightarrow> request_ctx \<Rightarrow> Task \<Rightarrow> (uuid \<Rightarrow> nat \<Rightarrow> time) \<Rightarrow> Handler \<Rightarrow> Handler \<times> error option" where
  "applyCancel w ctx t c h =
     (let i = ID t in
      case cancelTaskInternal w ctx t (c i) h of
        (h1, Some e) \<Rightarrow> (h1, Some e)
      | (h1, None) \<Rightarrow>
          let h2 = (if Status t = TaskStatusBacklog \<or> Status t = TaskStatusWaiting
                    then cascadeArchiveThreadsForTask i h1 else h1);
              h3 = (if IsRoutine t
                    then unregisterRoutine i (fst (try_store (UpdateRoutineEnabled i False (c i 20))
                           (cascadeCancelRoutineChildren w ctx i c h2)))
                    else h2)
          in (cascadeDisableRoutineIfLastLiveInstance w ctx t (c i) h3, None))"

section \<open>Archiving\<close>

definition archive_event :: "bool \<Rightarrow> event_data" where
  "archive_event archived =
     DataStrings [(''to'', if archived then ''archived'' else ''unarchived''), (''trigger'', ''user'')]"

definition ArchiveAllDone_handler ::
  "world \<Rightarrow> request_ctx \<Rightarrow> time \<Rightarrow> (uuid \<Rightarrow> time) \<Rightarrow> Handler \<Rightarrow> Handler \<times> response" where
  "ArchiveAllDone_handler w ctx now c h =
     (case ArchiveAllDone now (h_store h) of
        (s, archived, Some e) \<Rightarrow> (h\<lparr>h_store := s\<rparr>, HTTPError 500 (w_text w e))
      | (s, archived, None) \<Rightarrow>
          (fold (\<lambda>i h. insertEventOrLog ctx i EventTypeStateChange (archive_event True) (c i) (StopTaskWorker i h))
             archived (h\<lparr>h_store := s\<rparr>),
           HTTPOk 200 [(''archived'', fmt_d (int (length archived)))]))"

definition applyArchive ::
  "world \<Rightarrow> request_ctx \<Rightarrow> Task \<Rightarrow> bool \<Rightarrow> (uuid \<Rightarrow> nat \<Rightarrow> time) \<Rightarrow> Handler \<Rightarrow> Handler \<times> error option" where
  "applyArchive w ctx t archived c h =
     (let i = ID t; h1 = (if archived then StopTaskWorker i h else h) in
      case try_store (SetTaskArchived i archived (c i 0)) h1 of
        (h2, Some e) \<Rightarrow> (h2, Some e)
      | (h2, None) \<Rightarrow>
          let h3 = insertEventOrLog ctx i EventTypeStateChange (archive_event archived) (c i 1) h2 in
          if archived then
            let h4 = (if IsRoutine t
                      then unregisterRoutine i (fst (try_store (UpdateRoutineEnabled i False (c i 20))
                             (cascadeCancelRoutineChildren w ctx i c h3)))
                      else h3)
            in (cascadeArchiveThreadsForTask i h4, None)
          else (cascadeUnarchiveThreadsForTask i h3, None))"

section \<open>Resumption, test and sync\<close>

definition resume_check :: "uuid \<Rightarrow> Handler \<Rightarrow> response + Task" where
  "resume_check i h =
     (case GetTask i (h_store h) of
        Inl _ \<Rightarrow> Inl (HTTPError 404 ''task not found'')
      | Inr t \<Rightarrow>
          if Status t \<noteq> TaskStatusFailed \<and> Status t \<noteq> TaskStatusWaiting
          then Inl (HTTPError 400 ''only failed or waiting tasks can be resumed'')
          else if session_of t = [] then Inl (HTTPError 400 ''task has no session to resume'')
          else Inr t)"

definition resume_apply ::
  "world \<Rightarrow> request_ctx \<Rightarrow> Task \<Rightarrow> int option \<Rightarrow> (nat \<Rightarrow> time) \<Rightarrow> Handler \<Rightarrow> Handler \<times> response" where
  "resume_apply w ctx t timeout c h =
     (let i = ID t in
      case try_store (ResumeTask i timeout (c 0) (c 1)) h of
        (h1, Some e) \<Rightarrow> (h1, HTTPError 500 (w_text w e))
      | (h1, None) \<Rightarrow>
          let h2 = fst (try_store (ClearReviewResult i (c 2)) h1);
              h3 = insertEventOrLog ctx i EventTypeStateChange
                     (state_change_by (Status t) TaskStatusInProgress TriggerUser) (c 3) h2
          in (RunBackground i ''continue'' (session_of t) False h3, HTTPOk 200 [(''status'', ''resumed'')]))"

definition ResumeTask_handler ::
  "world \<Rightarrow> request_ctx \<Rightarrow> uuid \<Rightarrow> int option \<Rightarrow> (nat \<Rightarrow> time) \<Rightarrow> (Handler \<Rightarrow> Handler) \<Rightarrow> Handler \<Rightarrow> Handler \<times> response" where
  "ResumeTask_handler w ctx i timeout c others h =
     (case resume_check i h of Inl r \<Rightarrow> (h, r) | Inr t \<Rightarrow> resume_apply w ctx t timeout c (others h))"

definition test_prompt :: "world \<Rightarrow> Task \<Rightarrow> string \<Rightarrow> string" where
  "test_prompt w t criteria =
     (let impl = (case Result t of Some r \<Rightarrow> r | None \<Rightarrow> [])
      in w_testPrompt w (Prompt t) (TrimSpace criteria) (TrimSpace impl) (TrimSpace (w_diff w (WorktreePaths t))))"

definition TestTask :: "world \<Rightarrow> request_ctx \<Rightarrow> uuid \<Rightarrow> string \<Rightarrow> (nat \<Rightarrow> time) \<Rightarrow> Handler \<Rightarrow> Handler \<times> response" where
  "TestTask w ctx i reqCriteria c h =
     (case GetTask i (h_store h) of
        Inl _ \<Rightarrow> (h, HTTPError 404 ''task not found'')
      | Inr t \<Rightarrow>
          if Status t \<noteq> TaskStatusWaiting then (h, HTTPError 400 ''only waiting tasks can be tested'')
          else let criteria = (if TrimSpace reqCriteria = [] then Criteria t else TrimSpace reqCriteria);
                   testPrompt = test_prompt w t criteria
               in case try_all [UpdateTaskTestRun i True [] (c 1), UpdateTaskStatus i TaskStatusInProgress (c 2) (c 3)]
                         (closeFeedbackWaitingSpan ctx i (c 0) h) of
                    (h1, Some e) \<Rightarrow> (h1, HTTPError 500 (w_text w e))
                  | (h1, None) \<Rightarrow>
                      let h2 = insertEventOrLog ctx i EventTypeStateChange
                                 (state_change_by TaskStatusWaiting TaskStatusInProgress TriggerUser) (c 4) h1;
                          h3 = insertEventOrLog ctx i EventTypeSystem
                                 (DataStrings [(''result'', ''Test verification started''), (''test_prompt'', testPrompt)]) (c 5) h2
                      in (RunBackground i testPrompt [] False h3, HTTPOk 200 [(''status'', ''testing'')]))"

definition sync_check :: "uuid \<Rightarrow> Handler \<Rightarrow> response + Task" where
  "sync_check i h =
     (case GetTask i (h_store h) of
        Inl _ \<Rightarrow> Inl (HTTPError 404 ''task not found'')
      | Inr t \<Rightarrow>
          if Status t = TaskStatusInProgress then Inl (HTTPOk 200 [(''status'', ''already_syncing'')])
          else if Status t \<noteq> TaskStatusWaiting \<and> Status t \<noteq> TaskStatusFailed
          then Inl (HTTPError 400 ''only waiting or failed tasks with worktrees can be synced'')
          else if WorktreePaths t = [] then Inl (HTTPError 400 ''task has no worktrees to sync'')
          else Inr t)"

definition sync_apply :: "world \<Rightarrow> request_ctx \<Rightarrow> Task \<Rightarrow> (nat \<Rightarrow> time) \<Rightarrow> Handler \<Rightarrow> Handler \<times> response" where
  "sync_apply w ctx t c h =
     (let i = ID t in
      case try_store (ForceUpdateTaskStatus i TaskStatusInProgress (c 0) (c 1)) h of
        (h1, Some e) \<Rightarrow> (h1, HTTPError 500 (w_text w e))
      | (h1, None) \<Rightarrow>
          let h2 = insertEventOrLog ctx i EventTypeStateChange
                     (state_change_by (Status t) TaskStatusInProgress TriggerUser) (c 2) h1
          in (h2\<lparr>h_syncs := h_syncs h2 @ [(i, session_of t, Status t)]\<rparr>, HTTPOk 200 [(''status'', ''syncing'')]))"

definition SyncTask ::
  "world \<Rightarrow> request_ctx \<Rightarrow> uuid \<Rightarrow> (nat \<Rightarrow> time) \<Rightarrow> (Handler \<Rightarrow> Handler) \<Rightarrow> Handler \<Rightarrow> Handler \<times> response" where
  "SyncTask w ctx i c others h =
     (case sync_check i h of Inl r \<Rightarrow> (h, r) | Inr t \<Rightarrow> sync_apply w ctx t c (others h))"

section \<open>Effects\<close>

lemma try_store_simps:
  "fst (try_store f h) = h\<lparr>h_store := fst (f (h_store h))\<rparr>"
  "snd (try_store f h) = (case snd (f (h_store h)) of Inl e \<Rightarrow> Some e | Inr _ \<Rightarrow> None)"
  by (simp_all add: try_store_def split: prod.split sum.split)

lemma try_storeD: "try_store f h = (h', r) \<Longrightarrow> h' = h\<lparr>h_store := fst (f (h_store h))\<rparr>"
  using try_store_simps(1)[of f h] by simp

lemma handler_tasks [simp]:
  "tasks (h_store (insertEventOrLog ctx i ty data now h)) = tasks (h_store h)"
  "tasks (h_store (closeFeedbackWaitingSpan ctx i now h)) = tasks (h_store h)"
  "tasks (h_store (openWatcherBreaker name i reason n1 n2 h)) = tasks (h_store h)"
  by (simp_all add: insertEventOrLog_def closeFeedbackWaitingSpan_def openWatcherBreaker_def on_store_def trip_def
      on_breaker_def)

lemma handler_store [simp]:
  "h_store (RunBackground i prompt session resumed h) = h_store h" "h_store (StopTaskWorker i h) = h_store h"
  "h_store (cascadeArchiveThreadsForTask i h) = h_store h" "h_store (cascadeUnarchiveThreadsForTask i h) = h_store h"
  "h_store (unregisterRoutine i h) = h_store h" "h_store (runCommitTransition i session trigger p h) = h_store h"
  "h_store (on_breaker name f h) = h_store h" "h_store (trip name i reason now h) = h_store h"
  by (simp_all add: RunBackground_def StopTaskWorker_def cascadeArchiveThreadsForTask_def cascadeUnarchiveThreadsForTask_def
      unregisterRoutine_def runCommitTransition_def on_breaker_def trip_def)

lemma handler_lists [simp]:
  "h_commits (insertEventOrLog ctx i ty data now h) = h_commits h" "h_commits (closeFeedbackWaitingSpan ctx i now h) = h_commits h"
  "h_syncs (insertEventOrLog ctx i ty data now h) = h_syncs h" "h_runs (insertEventOrLog ctx i ty data now h) = h_runs h"
  "h_engine (insertEventOrLog ctx i ty data now h) = h_engine h" "h_engine (closeFeedbackWaitingSpan ctx i now h) = h_engine h"
  "h_runs (closeFeedbackWaitingSpan ctx i now h) = h_runs h"
  by (simp_all add: insertEventOrLog_def closeFeedbackWaitingSpan_def on_store_def)

lemma status_at_tasks: "tasks s = tasks s' \<Longrightarrow> status_at i s = status_at i s'"
  by (simp add: status_at_def)

lemma handler_status [simp]:
  "status_at j (h_store (insertEventOrLog ctx i ty data now h)) = status_at j (h_store h)"
  "status_at j (h_store (closeFeedbackWaitingSpan ctx i now h)) = status_at j (h_store h)"
  "status_at j (h_store (openWatcherBreaker name i reason n1 n2 h)) = status_at j (h_store h)"
  by (rule status_at_tasks, simp)+

lemma force_status [simp]:
  "status_at j (fst (ForceUpdateTaskStatus i st n1 n2 s)) = (if j = i then map_option (\<lambda>_. st) (status_at j s) else status_at j s)"
  by (simp add: status_at_def effects comp_def option.map_comp)

lemma worktrees_status [simp]:
  "status_at j (fst (UpdateTaskWorktrees i paths branch now s)) = status_at j s"
  by (simp add: status_at_def effects comp_def option.map_comp)

lemma restore_status:
  assumes "restoreTaskWorktreesForCommit w t now h = (h1, t1, r)"
  shows "status_at j (h_store h1) = status_at j (h_store h)" "h_commits h1 = h_commits h"
  using assms
  by (auto simp: restoreTaskWorktreesForCommit_def dest!: try_storeD split: if_splits sum.splits prod.splits option.splits)

lemma restored_task:
  assumes "restoreTaskWorktreesForCommit w t now h = (h1, t1, None)" "map_get (tasks (h_store h)) (ID t) = Some t"
  shows "map_get (tasks (h_store h1)) (ID t) = Some t1"
  using assms
  by (auto simp: restoreTaskWorktreesForCommit_def GetTask_def dest!: try_storeD split: if_splits sum.splits prod.splits option.splits)

section \<open>Commits\<close>

lemma commit_failed_status:
  assumes "status_at (com_ID lc) (h_store h) = Some TaskStatusCommitting"
  shows "status_at (com_ID lc) (h_store (commit_failed w lc e inMessage c h)) \<in> {Some TaskStatusWaiting, Some TaskStatusFailed}"
proof -
  have f: "status_at (com_ID lc) (h_store (fst (try_store (ForceUpdateTaskStatus (com_ID lc) TaskStatusWaiting n1 n2) h))) =
      Some TaskStatusWaiting" for n1 n2
    using assms by (simp add: try_store_simps)
  obtain h1 r where t: "try_store (ForceUpdateTaskStatus (com_ID lc) TaskStatusWaiting (c 26) (c 27)) h = (h1, r)" by fastforce
  then have "status_at (com_ID lc) (h_store h1) = Some TaskStatusWaiting" using f by (metis fst_conv)
  then show ?thesis
    using assms by (auto simp: commit_failed_def Let_def t try_store_simps split: option.split)
qed

lemma run_commit_status:
  assumes "status_at (com_ID lc) (h_store h) = Some TaskStatusCommitting"
    "\<And>s. status_at (com_ID lc) (fst (commit s)) = status_at (com_ID lc) s"
  shows "status_at (com_ID lc) (h_store (run_commit w lc commit c h))
    \<in> (if snd (commit (h_store h)) = None then {Some TaskStatusDone} else {Some TaskStatusWaiting, Some TaskStatusFailed})"
proof -
  obtain s r where s: "commit (h_store h) = (s, r)" by fastforce
  then have "status_at (com_ID lc) s = Some TaskStatusCommitting" using assms by (metis fst_conv)
  then show ?thesis
    using commit_failed_status[of lc "h\<lparr>h_store := s\<rparr>" w] s
    by (cases r) (auto simp: run_commit_def try_store_simps)
qed


lemma validate_status [simp]:
  "validateTaskWorktreesForCommit w (stamped (with_status st n1 n2 t)) = validateTaskWorktreesForCommit w t"
  "session_of (stamped (with_status st n1 n2 t)) = session_of t"
  by (simp_all add: validateTaskWorktreesForCommit_def missingTaskWorktrees_def session_of_def)

lemma CompleteTask_launch:
  assumes "CompleteTask w ctx i c h = (h', r)" "map_get (tasks (h_store h)) i = Some t" "h_commits h' \<noteq> h_commits h"
  obtains t2 h2 where "Status t = TaskStatusWaiting" "session_of t \<noteq> []"
    "restoreTaskWorktreesForCommit w t (c 1) (closeFeedbackWaitingSpan ctx i (c 0) h) = (h2, t2, None)"
    "validateTaskWorktreesForCommit w t2 = None"
    "tasks (h_store h') = tasks (fst (ForceUpdateTaskStatus i TaskStatusCommitting (c 2) (c 3) (h_store h2)))"
    "h_commits h' = h_commits h2 @ [\<lparr>com_ID = i, com_session = session_of t2, com_trigger = TriggerUser, com_prefix = ''commit failed: ''\<rparr>]"
proof -
  obtain h2 t2 e where r: "restoreTaskWorktreesForCommit w t (c 1) (closeFeedbackWaitingSpan ctx i (c 0) h) = (h2, t2, e)"
    by (metis prod_cases3)
  have "e = None \<and> Status t = TaskStatusWaiting \<and> session_of t \<noteq> [] \<and> validateTaskWorktreesForCommit w t2 = None
    \<and> tasks (h_store h') = tasks (fst (ForceUpdateTaskStatus i TaskStatusCommitting (c 2) (c 3) (h_store h2)))
    \<and> h_commits h' = h_commits h2 @ [\<lparr>com_ID = i, com_session = session_of t2, com_trigger = TriggerUser, com_prefix = ''commit failed: ''\<rparr>]"
    using assms restore_status(2)[OF r]
    by (auto simp: CompleteTask_def GetTask_def Let_def r[unfolded One_nat_def] runCommitTransition_def try_store_def
        split: if_splits option.splits prod.splits sum.splits)
  then show thesis using that r by blast
qed

text \<open>
  (C15) A completion starts at most one commit pipeline, only for a waiting task that has a session
  and whose worktrees all exist, and moves the task to committing; a second completion is
  refused and changes nothing.
\<close>

theorem complete_commits_once:
  assumes "CompleteTask w ctx i c h = (h', r)" "map_get (tasks (h_store h)) i = Some t" "ID t = i"
    "h_commits h' \<noteq> h_commits h"
  shows "Status t = TaskStatusWaiting \<and> session_of t \<noteq> []
    \<and> (\<exists>t'. map_get (tasks (h_store h')) i = Some t' \<and> Status t' = TaskStatusCommitting
         \<and> validateTaskWorktreesForCommit w t' = None
         \<and> h_commits h' = h_commits h @ [\<lparr>com_ID = i, com_session = session_of t', com_trigger = TriggerUser,
              com_prefix = ''commit failed: ''\<rparr>])
    \<and> CompleteTask w ctx' i c' h' = (h', HTTPError 400 ''only waiting tasks can be completed'')"
proof -
  obtain t2 h2 where l: "Status t = TaskStatusWaiting" "session_of t \<noteq> []"
    "restoreTaskWorktreesForCommit w t (c 1) (closeFeedbackWaitingSpan ctx i (c 0) h) = (h2, t2, None)"
    "validateTaskWorktreesForCommit w t2 = None"
    "tasks (h_store h') = tasks (fst (ForceUpdateTaskStatus i TaskStatusCommitting (c 2) (c 3) (h_store h2)))"
    "h_commits h' = h_commits h2 @ [\<lparr>com_ID = i, com_session = session_of t2, com_trigger = TriggerUser, com_prefix = ''commit failed: ''\<rparr>]"
    using CompleteTask_launch[OF assms(1,2,4)] by blast
  have "map_get (tasks (h_store h2)) i = Some t2" using restored_task[OF l(3)] assms(2,3) by simp
  then have t': "map_get (tasks (h_store h')) i = Some (stamped (with_status TaskStatusCommitting (c 2) (c 3) t2))"
    by (simp add: l(5) effects)
  show ?thesis
    using l(1,2,4,6) t' restore_status(2)[OF l(3)]
    by (auto simp: CompleteTask_def GetTask_def)
qed

lemma not_done_InProgress:
  assumes "status_at (com_ID lc) (h_store h) = Some TaskStatusInProgress"
    "\<And>s. status_at (com_ID lc) (fst (commit s)) = status_at (com_ID lc) s"
  shows "status_at (com_ID lc) (h_store (run_commit w lc commit c h)) \<noteq> Some TaskStatusDone"
proof -
  obtain s r where s: "commit (h_store h) = (s, r)" by fastforce
  then have p: "status_at (com_ID lc) s = Some TaskStatusInProgress" using assms by (metis fst_conv)
  obtain h1 e where t: "try_store (ForceUpdateTaskStatus (com_ID lc) TaskStatusWaiting (c 26) (c 27)) (h\<lparr>h_store := s\<rparr>) = (h1, e)"
    by fastforce
  then have "status_at (com_ID lc) (h_store h1) = Some TaskStatusWaiting" using try_storeD[OF t] p by simp
  then show ?thesis
    using s p by (cases r) (auto simp: run_commit_def commit_failed_def Let_def t try_store_simps split: option.splits if_splits)
qed

lemma commit_after_reopen:
  assumes "status_at (com_ID lc) (h_store h) = Some TaskStatusInProgress"
    "\<And>s. status_at (com_ID lc) (fst (commit s)) = status_at (com_ID lc) s"
  shows "status_at (com_ID lc) (h_store (commit_transition w lc commit c h)) \<noteq> Some TaskStatusDone"
proof -
  obtain t where t: "map_get (tasks (h_store h)) (com_ID lc) = Some t" using assms(1) by (auto simp: status_at_def)
  obtain h1 t1 r where r: "restoreTaskWorktreesForCommit w t (c 33) h = (h1, t1, r)" by (metis prod_cases3)
  have s: "status_at (com_ID lc) (h_store h1) = Some TaskStatusInProgress" using restore_status(1)[OF r] assms(1) by simp
  obtain h2 e where f: "try_store (ForceUpdateTaskStatus (com_ID lc) TaskStatusWaiting (c 34) (c 35)) h1 = (h2, e)" by fastforce
  then have "status_at (com_ID lc) (h_store h2) = Some TaskStatusWaiting" using try_storeD[OF f] s by simp
  then show ?thesis
    using not_done_InProgress[OF s assms(2), of w c]
    by (auto simp: commit_transition_def GetTask_def t r f Let_def split: option.split prod.split)
qed

text \<open>
  (C22) A sync request that has checked the task before a completion takes the lock moves the task
  out of committing although its commit pipeline runs: the pipeline and the rebase are both
  under way, and however the pipeline ends the task is not done.
\<close>

theorem sync_reopens_commit:
  assumes "sync_check i h = Inr t" "ID t = i" "CompleteTask w ctx i c h = (h1, r)" "h_commits h1 \<noteq> h_commits h"
    "snd (ForceUpdateTaskStatus i TaskStatusInProgress (c' 0) (c' 1) (h_store h1)) = Inr ()"
    "h2 = fst (SyncTask w ctx' i c' (\<lambda>h. fst (CompleteTask w ctx i c h)) h)"
  shows "\<exists>lc \<in> set (h_commits h2). com_ID lc = i \<and> (i, session_of t, TaskStatusWaiting) \<in> set (h_syncs h2)
    \<and> status_at i (h_store h2) = Some TaskStatusInProgress
    \<and> (\<forall>commit c. (\<forall>s. status_at i (fst (commit s)) = status_at i s) \<longrightarrow>
         status_at i (h_store (commit_transition w lc commit c h2)) \<noteq> Some TaskStatusDone)"
proof -
  have t: "map_get (tasks (h_store h)) i = Some t"
    using assms(1) by (auto simp: sync_check_def GetTask_def split: option.splits if_splits)
  obtain t2 h3 where l: "Status t = TaskStatusWaiting" "session_of t \<noteq> []"
    "restoreTaskWorktreesForCommit w t (c 1) (closeFeedbackWaitingSpan ctx i (c 0) h) = (h3, t2, None)"
    "validateTaskWorktreesForCommit w t2 = None"
    "tasks (h_store h1) = tasks (fst (ForceUpdateTaskStatus i TaskStatusCommitting (c 2) (c 3) (h_store h3)))"
    "h_commits h1 = h_commits h3 @ [\<lparr>com_ID = i, com_session = session_of t2, com_trigger = TriggerUser, com_prefix = ''commit failed: ''\<rparr>]"
    using CompleteTask_launch[OF assms(3) t assms(4)] by blast
  have "map_get (tasks (h_store h3)) i = Some t2" using restored_task[OF l(3)] t assms(2) by simp
  then have s1: "status_at i (h_store h1) = Some TaskStatusCommitting"
    by (simp add: l(5) effects status_at_def)
  have h2: "h2 = (let h' = insertEventOrLog ctx' i EventTypeStateChange
        (state_change_by (Status t) TaskStatusInProgress TriggerUser) (c' 2)
        (h1\<lparr>h_store := fst (ForceUpdateTaskStatus i TaskStatusInProgress (c' 0) (c' 1) (h_store h1))\<rparr>)
      in h'\<lparr>h_syncs := h_syncs h' @ [(i, session_of t, Status t)]\<rparr>)"
    using assms(5) unfolding assms(6)
    by (cases "ForceUpdateTaskStatus i TaskStatusInProgress (c' 0) (c' 1) (h_store h1)")
      (simp add: SyncTask_def assms(1-3) sync_apply_def try_store_def Let_def)
  have s2: "status_at i (h_store h2) = Some TaskStatusInProgress" using s1 by (simp add: h2 Let_def)
  have c2: "h_commits h2 = h_commits h1" "(i, session_of t, TaskStatusWaiting) \<in> set (h_syncs h2)"
    using l(1) by (simp_all add: h2 Let_def)
  define lc where "lc = \<lparr>com_ID = i, com_session = session_of t2, com_trigger = TriggerUser, com_prefix = ''commit failed: ''\<rparr>"
  have "com_ID lc = i" "lc \<in> set (h_commits h2)" by (simp_all add: lc_def c2(1) l(6))
  moreover have "status_at i (h_store (commit_transition w lc commit c h2)) \<noteq> Some TaskStatusDone"
    if "\<forall>s. status_at i (fst (commit s)) = status_at i s" for commit c
    using commit_after_reopen[of lc h2 commit w c] s2 that \<open>com_ID lc = i\<close> by simp
  ultimately show ?thesis using c2(2) s2 by blast
qed

section \<open>Runs without faults\<close>

lemma quiet_inv: "quiet L s \<Longrightarrow> store_inv L s"
  by (simp add: quiet_def)

lemma quiet_events [simp]:
  "quiet L (h_store h) \<Longrightarrow> quiet L (h_store (insertEventOrLog ctx i ty data now h))"
  "quiet L (h_store h) \<Longrightarrow> quiet L (h_store (closeFeedbackWaitingSpan ctx i now h))"
  by (simp_all add: insertEventOrLog_def closeFeedbackWaitingSpan_def on_store_def quiet_step[OF _ InsertEvent_good] quiet_inv)

lemma quiet_status: "quiet L s \<Longrightarrow> quiet L (fst (ForceUpdateTaskStatus i st n1 n2 s))"
  "quiet L s \<Longrightarrow> quiet L (fst (UpdateTaskStatus i st n1 n2 s))"
  by (simp_all add: quiet_step[OF _ transition_good(1)] quiet_step[OF _ transition_good(2)] quiet_inv)

lemma try_store_ok: "snd (f (h_store h)) = Inr () \<Longrightarrow> try_store f h = (h\<lparr>h_store := fst (f (h_store h))\<rparr>, None)"
  by (cases "f (h_store h)") (simp add: try_store_def)

lemma CompleteTask_succeeds:
  assumes "quiet L (h_store h)" "map_get (tasks (h_store h)) i = Some t" "Status t = TaskStatusWaiting" "session_of t \<noteq> []"
    "WorktreePaths t \<noteq> []" "missingTaskWorktrees w t = []"
  obtains h' where "CompleteTask w ctx i c h = (h', HTTPOk 200 [(''status'', ''ok'')])" "quiet L (h_store h')"
    "h_commits h' = h_commits h @ [\<lparr>com_ID = i, com_session = session_of t, com_trigger = TriggerUser, com_prefix = ''commit failed: ''\<rparr>]"
proof -
  define h1 where "h1 = closeFeedbackWaitingSpan ctx i (c 0) h"
  have q: "quiet L (h_store h1)" "map_get (tasks (h_store h1)) i = Some t" using assms(1,2) by (simp_all add: h1_def)
  note ok = try_store_ok[of "ForceUpdateTaskStatus i TaskStatusCommitting (c 2) (c 3)" h1, OF status_ok(1)[OF q]]
  have "CompleteTask w ctx i c h = (runCommitTransition i (session_of t) TriggerUser ''commit failed: ''
      (insertEventOrLog ctx i EventTypeStateChange (state_change_by TaskStatusWaiting TaskStatusCommitting TriggerUser) (c 4)
        (h1\<lparr>h_store := fst (ForceUpdateTaskStatus i TaskStatusCommitting (c 2) (c 3) (h_store h1))\<rparr>)), HTTPOk 200 [(''status'', ''ok'')])"
    using assms(2-6) ok
    by (simp add: CompleteTask_def GetTask_def h1_def[symmetric] restoreTaskWorktreesForCommit_def validateTaskWorktreesForCommit_def)
  then show thesis
    by (rule that) (simp_all add: quiet_status q(1) runCommitTransition_def, simp add: h1_def)
qed

definition waiting_task :: Task where
  "waiting_task = sample_task\<lparr>Status := TaskStatusWaiting, SessionID := Some ''s1'', WorktreePaths := [(''/repo'', ''/wt'')]\<rparr>"

definition committing_task :: Task where
  "committing_task = waiting_task\<lparr>Status := TaskStatusCommitting\<rparr>"

lemma sample_quiet: "distinct (map ID ts) \<Longrightarrow> quiet L (sample_store L ts)"
  by (simp add: quiet_def sample_store_ok)

lemma waiting_sample:
  "map_get (tasks (sample_store L [waiting_task])) 1 = Some waiting_task"
  "map_get (tasks (sample_store L [committing_task])) 1 = Some committing_task"
  "ID waiting_task = 1" "ID committing_task = 1" "Status waiting_task = TaskStatusWaiting" "session_of waiting_task = ''s1''"
  "WorktreePaths waiting_task = [(''/repo'', ''/wt'')]" "Status committing_task = TaskStatusCommitting"
  "WorktreePaths committing_task = [(''/repo'', ''/wt'')]"
  "missingTaskWorktrees sample_world waiting_task = []" "missingTaskWorktrees sample_world committing_task = []"
  by (simp_all add: sample_store_ok(4) waiting_task_def committing_task_def session_of_def missingTaskWorktrees_def)


theorem complete_commits_once_witness:
  "\<exists>h' r. CompleteTask sample_world background_ctx 1 (\<lambda>_. 9) (sample_handler (sample_store unary_lib [waiting_task])) = (h', r)
     \<and> status_at 1 (h_store h') = Some TaskStatusCommitting
     \<and> CompleteTask sample_world background_ctx 1 (\<lambda>_. 9) h' = (h', HTTPError 400 ''only waiting tasks can be completed'')"
proof -
  let ?h = "sample_handler (sample_store unary_lib [waiting_task])"
  obtain h' where h': "CompleteTask sample_world background_ctx 1 (\<lambda>_. 9) ?h = (h', HTTPOk 200 [(''status'', ''ok'')])"
      "h_commits h' \<noteq> h_commits ?h"
    by (rule CompleteTask_succeeds[of unary_lib ?h 1 waiting_task sample_world background_ctx "\<lambda>_. 9"])
      (simp_all add: sample_quiet waiting_sample[simplified])
  have t: "map_get (tasks (h_store ?h)) 1 = Some waiting_task" using waiting_sample(1) by simp
  show ?thesis
    using complete_commits_once[OF h'(1) t waiting_sample(3) h'(2), of background_ctx "\<lambda>_. 9"] h'(1) by (auto simp: status_at_def)
qed

theorem sync_reopens_commit_witness:
  "let h2 = fst (SyncTask sample_world background_ctx 1 (\<lambda>_. 10)
     (\<lambda>h. fst (CompleteTask sample_world background_ctx 1 (\<lambda>_. 9) h)) (sample_handler (sample_store unary_lib [waiting_task])))
   in 1 \<in> com_ID ` set (h_commits h2) \<and> (1, ''s1'', TaskStatusWaiting) \<in> set (h_syncs h2)
      \<and> status_at 1 (h_store h2) = Some TaskStatusInProgress"
proof -
  let ?h = "sample_handler (sample_store unary_lib [waiting_task])"
  obtain h' where h': "CompleteTask sample_world background_ctx 1 (\<lambda>_. 9) ?h = (h', HTTPOk 200 [(''status'', ''ok'')])"
      "quiet unary_lib (h_store h')" "h_commits h' \<noteq> h_commits ?h"
    by (rule CompleteTask_succeeds[of unary_lib ?h 1 waiting_task sample_world background_ctx "\<lambda>_. 9"])
      (simp_all add: sample_quiet waiting_sample[simplified])
  have t: "map_get (tasks (h_store ?h)) 1 = Some waiting_task" using waiting_sample(1) by simp
  obtain u where u: "map_get (tasks (h_store h')) 1 = Some u"
    using CompleteTask_launch[OF h'(1) t h'(3)] restored_task[OF _ , of sample_world waiting_task] waiting_sample(3) t
    by (fastforce simp: effects)
  have s: "sync_check 1 ?h = Inr waiting_task"
    using t by (simp add: sync_check_def GetTask_def waiting_sample)
  show ?thesis
    using sync_reopens_commit[OF s waiting_sample(3) h'(1,3), of "\<lambda>_. 10" _ background_ctx] status_ok(1)[OF h'(2) u]
    by (auto simp: Let_def waiting_sample intro!: rev_image_eqI)
qed

end
