(* ===== verification/Cancel_Cascade.thy ===== *)
theory Cancel_Cascade
  imports Handler_Execute
begin

text \<open>
  What a cancellation leaves behind: the cascade from a routine card to the tasks it has spawned,
  and from the last live instance back to its routine. The proofs look at a task through its
  \<open>card\<close>, the fields that the cascades read.
\<close>

section \<open>Cards\<close>

definition card_of :: "Task \<Rightarrow> TaskStatus \<times> string list \<times> bool \<times> bool \<times> bool" where
  "card_of t = (Status t, Tags t, Archived t, IsRoutine t, RoutineEnabled t)"

definition card_at :: "uuid \<Rightarrow> Store \<Rightarrow> (TaskStatus \<times> string list \<times> bool \<times> bool \<times> bool) option" where
  "card_at i s = map_option card_of (map_get (tasks s) i)"

lemma card_fields [simp]:
  "card_of (stamped t) = card_of t" "card_of (t\<lparr>UpdatedAt := now\<rparr>) = card_of t"
  "card_of (drop_dependency d t) = card_of t"
  "card_of (with_status st n1 n2 t) = (st, snd (card_of t))"
  by (simp_all add: card_of_def IsRoutine_def drop_dependency_def with_status_def Let_def stamped_def)

lemma card_at_tasks: "tasks s = tasks s' \<Longrightarrow> card_at i s = card_at i s'"
  by (simp add: card_at_def)

lemma card_handler [simp]:
  "card_at j (h_store (insertEventOrLog ctx i ty data now h)) = card_at j (h_store h)"
  "card_at j (h_store (closeFeedbackWaitingSpan ctx i now h)) = card_at j (h_store h)"
  by (rule card_at_tasks, simp)+

lemma mutateTask_assign_if_get:
  "map_get (tasks (fst (mutateTask i (assign_if check f) now s))) j =
     (if j = i then map_option (\<lambda>t. if check t = None then stamped ((f t)\<lparr>UpdatedAt := now\<rparr>) else t) (map_get (tasks s) i)
      else map_get (tasks s) j)"
proof (cases "map_get (tasks s) i")
  case (Some t)
  show ?thesis
  proof (cases "check t")
    case None
    then have "mutateTask i (assign_if check f) now s = mutateTask i (assign f) now s"
      using Some by (simp add: mutateTask_def assign_if_def assign_def)
    then show ?thesis using None Some by (simp add: mutateTask_assign_get)
  qed (simp add: mutateTask_def assign_if_def Some)
qed (simp add: mutateTask_def)

lemma UpdateRoutineEnabled_card:
  "card_at j (fst (UpdateRoutineEnabled i False now s)) =
     (if j = i then map_option (\<lambda>(st, tags, a, r, en). (st, tags, a, r, en \<and> \<not> r)) (card_at j s) else card_at j s)"
proof (cases "map_get (tasks s) i")
  case (Some t)
  show ?thesis
    by (cases "IsRoutine t") (simp_all add: card_at_def UpdateRoutineEnabled_def mutateTask_assign_if_get Some require_routine_def
        set_routine_enabled_def card_of_def IsRoutine_def stamped_def Let_def)
qed (simp add: card_at_def UpdateRoutineEnabled_def mutateTask_assign_if_get)

lemma removeOrphaned_card: "card_at j (removeOrphanedDependents L i now s) = card_at j s"
proof -
  have "card_at j (fold (\<lambda>dep s. fst (mutateTask (ID dep) (assign (drop_dependency d)) now s)) ds s) = card_at j s" for d ds s
    by (induction ds arbitrary: s) (simp_all add: card_at_def mutateTask_assign_get comp_def option.map_comp)
  then show ?thesis by (simp add: removeOrphanedDependents_def)
qed

lemma CancelTask_card:
  "card_at j (fst (CancelTask L i n1 n2 s)) =
     (if j = i then map_option (\<lambda>r. (TaskStatusCancelled, snd r)) (card_at j s) else card_at j s)"
proof -
  have "card_at j (fst (ForceUpdateTaskStatus i TaskStatusCancelled n1 n2 s)) =
     (if j = i then map_option (\<lambda>r. (TaskStatusCancelled, snd r)) (card_at j s) else card_at j s)"
    by (simp add: card_at_def effects comp_def option.map_comp)
  then show ?thesis
    by (cases "ForceUpdateTaskStatus i TaskStatusCancelled n1 n2 s"; cases "snd (ForceUpdateTaskStatus i TaskStatusCancelled n1 n2 s)")
      (auto simp: CancelTask_def removeOrphaned_card)
qed

section \<open>The cascade\<close>

lemma cancelTaskInternal_card:
  "card_at j (h_store (fst (cancelTaskInternal w ctx t c h))) =
     (if j = ID t then map_option (\<lambda>r. (TaskStatusCancelled, snd r)) (card_at j (h_store h)) else card_at j (h_store h))"
proof -
  define h1 where "h1 = (if Status t = TaskStatusWaiting then closeFeedbackWaitingSpan ctx (ID t) (c 0) h else h)"
  define h3 where "h3 = StopTaskWorker (ID t) (if Status t = TaskStatusInProgress then h1\<lparr>h_killed := h_killed h1 @ [ID t]\<rparr> else h1)"
  obtain h4 r where f: "try_store (CancelTask (w_lib w) (ID t) (c 1) (c 2)) h3 = (h4, r)" by fastforce
  have "card_at k (h_store h3) = card_at k (h_store h)" for k by (simp add: h3_def h1_def)
  then have "card_at j (h_store h4) =
     (if j = ID t then map_option (\<lambda>r. (TaskStatusCancelled, snd r)) (card_at j (h_store h)) else card_at j (h_store h))"
    using try_storeD[OF f] by (simp add: CancelTask_card)
  moreover have "card_at j (h_store (fst (cancelTaskInternal w ctx t c h))) = card_at j (h_store h4)"
    unfolding cancelTaskInternal_def Let_def h1_def[symmetric] h3_def[symmetric] f by (simp split: option.split)
  ultimately show ?thesis by simp
qed

lemma cancelTaskInternal_engine: "h_engine (fst (cancelTaskInternal w ctx t c h)) = h_engine h"
  by (auto simp: cancelTaskInternal_def Let_def try_store_def StopTaskWorker_def split: prod.split option.split sum.split)

lemma cancel_fold:
  "card_at j (h_store (fold (\<lambda>t h. fst (cancelTaskInternal w ctx t (c (ID t)) h)) ts h)) =
     (if j \<in> ID ` set ts then map_option (\<lambda>r. (TaskStatusCancelled, snd r)) (card_at j (h_store h)) else card_at j (h_store h))
   \<and> h_engine (fold (\<lambda>t h. fst (cancelTaskInternal w ctx t (c (ID t)) h)) ts h) = h_engine h"
  by (induction ts arbitrary: h)
    (auto simp: cancelTaskInternal_card cancelTaskInternal_engine comp_def option.map_comp)

lemma cascadeCancel_card:
  assumes "store_inv (w_lib w) (h_store h)"
  shows "card_at j (h_store (cascadeCancelRoutineChildren w ctx i c h)) =
     map_option (\<lambda>r. case r of (st, tags, a, _) \<Rightarrow>
       (if j \<noteq> i \<and> spawn_tag (w_lib w) i \<in> set tags \<and> \<not> a \<and> live_status st then TaskStatusCancelled else st, snd r))
       (card_at j (h_store h))"
    "h_engine (cascadeCancelRoutineChildren w ctx i c h) = h_engine h"
proof -
  define ts where "ts = filter (live_child (w_lib w) i) (ListTasks False (h_store h))"
  have "j \<in> ID ` set ts \<longleftrightarrow> (\<exists>u. map_get (tasks (h_store h)) j = Some u \<and> live_child (w_lib w) i u \<and> \<not> Archived u)"
    using task_values(2)[OF assms] inv_in_tasks(1)[OF assms, of j]
    by (auto simp: ts_def ListTasks_def image_iff)
  then show "card_at j (h_store (cascadeCancelRoutineChildren w ctx i c h)) =
     map_option (\<lambda>r. case r of (st, tags, a, _) \<Rightarrow>
       (if j \<noteq> i \<and> spawn_tag (w_lib w) i \<in> set tags \<and> \<not> a \<and> live_status st then TaskStatusCancelled else st, snd r))
       (card_at j (h_store h))"
    using cancel_fold[of j w ctx c ts h] inv_in_tasks(1)[OF assms, of j]
    by (cases "map_get (tasks (h_store h)) j")
      (auto simp: cascadeCancelRoutineChildren_def ts_def[symmetric] card_at_def card_of_def live_child_def)
  show "h_engine (cascadeCancelRoutineChildren w ctx i c h) = h_engine h"
    using cancel_fold[of j w ctx c ts h] by (simp add: cascadeCancelRoutineChildren_def ts_def[symmetric])
qed

lemma event_inv:
  "store_inv L (h_store h) \<Longrightarrow> store_inv L (h_store (insertEventOrLog ctx i ty data now h))"
  "store_inv L (h_store h) \<Longrightarrow> store_inv L (h_store (closeFeedbackWaitingSpan ctx i now h))"
  by (simp_all add: insertEventOrLog_def closeFeedbackWaitingSpan_def on_store_def good_step_inv[OF InsertEvent_good])

lemma cancelTaskInternal_inv:
  assumes "store_inv (w_lib w) (h_store h)"
  shows "store_inv (w_lib w) (h_store (fst (cancelTaskInternal w ctx t c h)))"
proof -
  define h1 where "h1 = (if Status t = TaskStatusWaiting then closeFeedbackWaitingSpan ctx (ID t) (c 0) h else h)"
  define h3 where "h3 = StopTaskWorker (ID t) (if Status t = TaskStatusInProgress then h1\<lparr>h_killed := h_killed h1 @ [ID t]\<rparr> else h1)"
  obtain h4 r where f: "try_store (CancelTask (w_lib w) (ID t) (c 1) (c 2)) h3 = (h4, r)" by fastforce
  have "store_inv (w_lib w) (h_store h3)" using assms by (simp add: h3_def h1_def event_inv)
  then have "store_inv (w_lib w) (h_store h4)" using try_storeD[OF f] good_step_inv[OF CancelTask_good] by simp
  then show ?thesis
    unfolding cancelTaskInternal_def Let_def h1_def[symmetric] h3_def[symmetric] f by (simp add: event_inv split: option.split)
qed

section \<open>Routines\<close>

lemma cascadeDisable_card:
  "\<exists>b. card_at j (h_store (cascadeDisableRoutineIfLastLiveInstance w ctx t c h)) =
     map_option (\<lambda>(st, tags, a, r, en). (st, tags, a, r, en \<and> b)) (card_at j (h_store h))"
proof -
  have eq: "card_at j s = map_option (\<lambda>(st, tags, a, r, en). (st, tags, a, r, en \<and> True)) (card_at j s)" for s
    by (cases "card_at j s") auto
  define i where "i = spawnedByRoutineID (w_lib w) t"
  obtain h1 e where f: "try_store (UpdateRoutineEnabled i False (c 10)) h = (h1, e)" by fastforce
  have u: "card_at j (h_store h1) = (if j = i then map_option (\<lambda>(st, tags, a, r, en). (st, tags, a, r, en \<and> \<not> r))
      (card_at j (h_store h)) else card_at j (h_store h))"
    using try_storeD[OF f] by (simp add: UpdateRoutineEnabled_card)
  have "\<exists>b. card_at j (h_store h1) = map_option (\<lambda>(st, tags, a, r, en). (st, tags, a, r, en \<and> b)) (card_at j (h_store h))"
  proof (cases "card_at j (h_store h)")
    case (Some x)
    obtain st tags a r en where "x = (st, tags, a, r, en)" by (metis prod_cases5)
    then show ?thesis using u Some by (cases "j = i") auto
  qed (use u in auto)
  moreover have "\<exists>b. card_at j (h_store h) = map_option (\<lambda>(st, tags, a, r, en). (st, tags, a, r, en \<and> b)) (card_at j (h_store h))"
    using eq[of "h_store h"] by (rule exI[of _ True])
  moreover have "card_at j (h_store (cascadeDisableRoutineIfLastLiveInstance w ctx t c h)) \<in> {card_at j (h_store h), card_at j (h_store h1)}"
    by (auto simp: cascadeDisableRoutineIfLastLiveInstance_def Let_def i_def[symmetric] f split: sum.split option.split)
  ultimately show ?thesis by auto
qed

lemma cascadeDisable_engine:
  "h_engine (cascadeDisableRoutineIfLastLiveInstance w ctx t c h) \<in> {h_engine h, map_option (Unregister (spawnedByRoutineID (w_lib w) t)) (h_engine h)}"
  by (auto simp: cascadeDisableRoutineIfLastLiveInstance_def Let_def unregisterRoutine_def try_store_def
      split: sum.split option.split prod.split)

lemma Unregister_armed:
  assumes "engine_inv e"
  shows "armed i (Unregister i e) = {}" "armed i (Unregister j (Unregister i e)) = {}"
proof -
  have 1: "engine_inv (Unregister i e)" "engine_inv (Unregister j (Unregister i e))"
    using assms by (simp_all add: Unregister_inv)
  have 2: "map_get (eng_entries (Unregister i e)) i = None" for e
    by (simp add: Unregister_def split: option.split)
  have "map_get (eng_entries (Unregister j (Unregister i e))) i = None"
    using 2[of e] by (simp add: Unregister_def split: option.split)
  with 1 2[of e] show "armed i (Unregister i e) = {}" "armed i (Unregister j (Unregister i e)) = {}"
    by (simp_all add: engine_inv_def timers_ok_def entry_timers_def)
qed


definition routine_card :: Task where
  "routine_card = sample_task\<lparr>Kind := TaskKindRoutine, RoutineEnabled := True\<rparr>"

definition routine_child :: Task where
  "routine_child = sample_task\<lparr>ID := 2, Tags := [spawn_tag unary_lib 1]\<rparr>"

lemma applyCancel_succeeds:
  assumes "quiet (w_lib w) (h_store h)" "map_get (tasks (h_store h)) (ID t) = Some t"
  shows "snd (applyCancel w ctx t c h) = None"
proof -
  define h1 where "h1 = (if Status t = TaskStatusWaiting then closeFeedbackWaitingSpan ctx (ID t) (c (ID t) 0) h else h)"
  define h3 where "h3 = StopTaskWorker (ID t) (if Status t = TaskStatusInProgress then h1\<lparr>h_killed := h_killed h1 @ [ID t]\<rparr> else h1)"
  have q: "quiet (w_lib w) (h_store h3)" "map_get (tasks (h_store h3)) (ID t) = Some t"
    using assms by (simp_all add: h3_def h1_def)
  have "snd (CancelTask (w_lib w) (ID t) (c (ID t) 1) (c (ID t) 2) (h_store h3)) = Inr ()"
    using status_ok(1)[OF q, of TaskStatusCancelled "c (ID t) 1" "c (ID t) 2"]
    by (cases "ForceUpdateTaskStatus (ID t) TaskStatusCancelled (c (ID t) 1) (c (ID t) 2) (h_store h3)") (simp add: CancelTask_def)
  note ok = try_store_ok[of "CancelTask (w_lib w) (ID t) (c (ID t) 1) (c (ID t) 2)" h3, OF this]
  have "snd (cancelTaskInternal w ctx t (c (ID t)) h) = None"
    unfolding cancelTaskInternal_def Let_def h1_def[symmetric] h3_def[symmetric] ok by simp
  then show ?thesis
    by (cases "cancelTaskInternal w ctx t (c (ID t)) h") (simp add: applyCancel_def Let_def)
qed


end
