(* ===== verification/Automation.thy ===== *)
theory Automation
  imports Handler_Execute
begin

text \<open>
  \<open>internal/handler/tasks_autoimplement.go\<close>: the watchers that promote, retry, sync, test, review and
  submit tasks. A watcher collects candidates without the lock and handles them under it
  (\<open>runTwoPhase\<close> in \<open>watcher.go\<close>); what other goroutines do in between is the argument \<open>others\<close>.
  \<open>c i n\<close> is the n-th reading of the clock while task \<open>i\<close> is handled.
\<close>

section \<open>Reachability of dependencies\<close>

text \<open>The recursion is unrolled to a stack of the nodes that are still to be visited.\<close>

function reach_dfs :: "(uuid, uuid list) gomap \<Rightarrow> uuid \<Rightarrow> uuid list \<Rightarrow> uuid list \<Rightarrow> bool" where
  "reach_dfs adj target [] visited = False"
| "reach_dfs adj target (cur # stack) visited =
     (if cur = target then True
      else if cur \<in> set visited then reach_dfs adj target stack visited
      else reach_dfs adj target (map_at [] adj cur @ stack) (cur # visited))"
  by pat_completeness auto
termination
proof (relation "measures [\<lambda>(adj, target, stack, visited). card (set (map fst adj) - set visited),
    \<lambda>(adj, target, stack, visited). length stack]", goal_cases)
  case (3 adj target cur stack visited)
  show ?case
  proof (cases "cur \<in> set (map fst adj)")
    case True
    then have "card (set (map fst adj) - set (cur # visited)) < card (set (map fst adj) - set visited)"
      using 3 by (intro psubset_card_mono) auto
    then show ?thesis by simp
  next
    case False
    then have "map_get adj cur = None" "set (map fst adj) - set (cur # visited) = set (map fst adj) - set visited"
      by (auto simp: map_of_eq_None_iff)
    then show ?thesis by (simp add: map_at_def)
  qed
qed auto

definition taskReachableInAdj :: "(uuid, uuid list) gomap \<Rightarrow> uuid \<Rightarrow> uuid \<Rightarrow> bool" where
  "taskReachableInAdj adj start target = reach_dfs adj target [start] []"

definition depends_adj :: "lib \<Rightarrow> Task list \<Rightarrow> (uuid, uuid list) gomap" where
  "depends_adj L taskList =
     fold (\<lambda>t adj. fold (\<lambda>dep adj. case uuid_Parse L dep of
         Some i \<Rightarrow> map_put (ID t) (map_at [] adj (ID t) @ [i]) adj
       | None \<Rightarrow> adj) (DependsOn t) adj) taskList []"

definition taskReachable :: "lib \<Rightarrow> Task list \<Rightarrow> uuid \<Rightarrow> uuid \<Rightarrow> bool" where
  "taskReachable L taskList start target = taskReachableInAdj (depends_adj L taskList) start target"

section \<open>Manual promotion\<close>

definition countRegularInProgress :: "Task list \<Rightarrow> int" where
  "countRegularInProgress ts = int (length (filter (\<lambda>t. Status t = TaskStatusInProgress \<and> \<not> IsTestRun t) ts))"

definition checkConcurrencyAndUpdateStatus ::
  "world \<Rightarrow> uuid \<Rightarrow> TaskStatus \<Rightarrow> time \<Rightarrow> time \<Rightarrow> Handler \<Rightarrow> Handler \<times> response option" where
  "checkConcurrencyAndUpdateStatus w i newStatus n1 n2 h =
     (if countGlobalInProgress h \<ge> maxConcurrentTasks h
      then (h, Some (HTTPError 409 (''max concurrent tasks ('' @ fmt_d (maxConcurrentTasks h) @ '') reached'')))
      else case try_store (UpdateTaskStatus i newStatus n1 n2) h of
             (h1, None) \<Rightarrow> (h1, None)
           | (h1, Some e) \<Rightarrow>
               (h1, Some (HTTPError (case e of ErrTransition _ \<Rightarrow> 400 | _ \<Rightarrow> 500) (w_text w e))))"

section \<open>Promotion\<close>

abbreviation (input) MaxTestFailRetries :: int where
  "MaxTestFailRetries \<equiv> 3"

record autoPromoteCandidate =
  cand_task :: Task
  isResume :: bool

definition resume_ready :: "Task \<Rightarrow> bool" where
  "resume_ready t \<longleftrightarrow> \<not> IsTestRun t \<and> PendingTestFeedback t \<noteq> [] \<and> LastTestResult t = ''fail'' \<and> session_of t \<noteq> []"

definition not_due :: "time \<Rightarrow> Task \<Rightarrow> bool" where
  "not_due now t = (case ScheduledAt t of Some due \<Rightarrow> now < due | None \<Rightarrow> False)"

definition promotable :: "world \<Rightarrow> (uuid \<Rightarrow> time) \<Rightarrow> Handler \<Rightarrow> Task \<Rightarrow> bool" where
  "promotable w clk h t \<longleftrightarrow> \<not> IsRoutine t \<and> \<not> not_due (clk (ID t)) t
     \<and> AreDependenciesSatisfied (w_lib w) (ID t) (h_store h) = Inr True \<and> \<not> taskLocked h (ID t)"

definition nextScheduled :: "(uuid \<Rightarrow> time) \<Rightarrow> Task list \<Rightarrow> time option" where
  "nextScheduled clk ts =
     fold (\<lambda>t next. if \<not> IsRoutine t \<and> not_due (clk (ID t)) t
         then (case (next, ScheduledAt t) of
                 (Some d, Some due) \<Rightarrow> if due < d then Some due else Some d
               | (_, due) \<Rightarrow> due)
         else next) ts None"

definition ensureScheduledPromoteTrigger :: "time \<Rightarrow> time \<Rightarrow> Handler \<Rightarrow> Handler" where
  "ensureScheduledPromoteTrigger due now h =
     (if due - now \<le> 0 then h else h\<lparr>scheduledPromoteTimer := Some (now + (due - now))\<rparr>)"

definition cmpScored :: "int \<times> Task \<Rightarrow> int \<times> Task \<Rightarrow> int" where
  "cmpScored = or_else (\<lambda>a b. cmp_Compare (fst b) (fst a))
     (or_else (\<lambda>a b. cmp_Compare (Position (snd a)) (Position (snd b)))
       (\<lambda>a b. cmp_Compare (CreatedAt (snd a)) (CreatedAt (snd b))))"

definition backlog_order :: "world \<Rightarrow> (uuid \<Rightarrow> time) \<Rightarrow> Handler \<Rightarrow> Task list" where
  "backlog_order w clk h =
     (let ts = filter (promotable w clk h) (ListTasksByStatus TaskStatusBacklog (h_store h));
          scores = CriticalPathScores (w_lib w) (map ID ts) (h_store h)
      in map snd (SortFunc cmpScored (map (\<lambda>t. (map_at 0 scores (ID t), t)) ts)))"

definition promote_phase1 :: "world \<Rightarrow> (uuid \<Rightarrow> time) \<Rightarrow> time \<Rightarrow> Handler \<Rightarrow> Handler \<times> autoPromoteCandidate list" where
  "promote_phase1 w clk now h =
     (let resumes = map (\<lambda>t. \<lparr>cand_task = t, isResume = True\<rparr>)
            (filter (\<lambda>t. resume_ready t \<and> TestFailCount t < MaxTestFailRetries) (ListTasksByStatus TaskStatusWaiting (h_store h)));
          availableSlots = maxConcurrentTasks h - countGlobalInProgress h
      in if availableSlots \<le> 0 then (h, resumes)
         else (case nextScheduled clk (ListTasksByStatus TaskStatusBacklog (h_store h)) of
                 Some due \<Rightarrow> ensureScheduledPromoteTrigger due now h
               | None \<Rightarrow> h,
               resumes @ map (\<lambda>t. \<lparr>cand_task = t, isResume = False\<rparr>) (take (nat availableSlots) (backlog_order w clk h))))"

definition auto_resume :: "world \<Rightarrow> (nat \<Rightarrow> time) \<Rightarrow> uuid \<Rightarrow> Handler \<Rightarrow> Handler" where
  "auto_resume w c i h =
     (case GetTask i (h_store h) of
        Inl _ \<Rightarrow> h
      | Inr t \<Rightarrow>
          if Status t \<noteq> TaskStatusWaiting \<or> \<not> resume_ready t then h
          else if TestFailCount t \<ge> MaxTestFailRetries
          then insertEventOrLog background_ctx i EventTypeSystem
                 (note_result (''Auto-resume halted: '' @ fmt_d (TestFailCount t) @ '' consecutive test failures (cap: ''
                    @ fmt_d MaxTestFailRetries @ ''). Manual feedback required to continue.'')) (c 20) h
          else case resumeWaitingTaskWithFeedbackLocked background_ctx t (PendingTestFeedback t) TriggerFeedback
                      ''Autoimplement: resuming task with failed test feedback.'' c h of
                 (h1, Some e) \<Rightarrow> trip ''auto-promote'' i (w_text w e) (c 21) h1
               | (h1, None) \<Rightarrow> on_breaker ''auto-promote'' recordSuccess h1)"

definition promote_backlog :: "world \<Rightarrow> (nat \<Rightarrow> time) \<Rightarrow> Task \<Rightarrow> Handler \<Rightarrow> Handler \<times> bool" where
  "promote_backlog w c t h =
     (let i = ID t in
      if countGlobalInProgress h \<ge> maxConcurrentTasks h then (h, True)
      else case ContainerCircuitAllow (c 0) h of
             (h1, False) \<Rightarrow> (h1, True)
           | (h1, True) \<Rightarrow>
               if taskLocked h1 i then (h1, False)
               else case try_store (UpdateTaskStatus i TaskStatusInProgress (c 1) (c 2)) h1 of
                      (h2, Some e) \<Rightarrow> (trip ''auto-promote'' i (w_text w e) (c 3) h2, False)
                    | (h2, None) \<Rightarrow>
                        let h3 = insertEventOrLog background_ctx i EventTypeStateChange
                                   (state_change_by TaskStatusBacklog TaskStatusInProgress TriggerAutoPromote) (c 4) h2;
                            h4 = RunBackground i (Prompt t) (if FreshStart t then [] else session_of t) False
                                   (cascadeArchiveThreadsForTask i h3)
                        in (on_breaker ''auto-promote'' recordSuccess h4, False))"

fun promote_loop :: "world \<Rightarrow> (uuid \<Rightarrow> nat \<Rightarrow> time) \<Rightarrow> autoPromoteCandidate list \<Rightarrow> Handler \<Rightarrow> Handler" where
  "promote_loop w c [] h = h"
| "promote_loop w c (cd # cds) h =
     (let t = cand_task cd in
      if isResume cd then promote_loop w c cds (auto_resume w (c (ID t)) (ID t) h)
      else case promote_backlog w (c (ID t)) t h of
             (h1, stop) \<Rightarrow> if stop then h1 else promote_loop w c cds h1)"

definition tryAutoPromote ::
  "world \<Rightarrow> (uuid \<Rightarrow> time) \<Rightarrow> time \<Rightarrow> (uuid \<Rightarrow> nat \<Rightarrow> time) \<Rightarrow> (Handler \<Rightarrow> Handler) \<Rightarrow> Handler \<Rightarrow> Handler" where
  "tryAutoPromote w clk now c others h =
     (if \<not> h_autoimplement h \<or> isOpen now (h_breakers h ''auto-promote'') then h
      else case promote_phase1 w clk now h of
             (h1, cands) \<Rightarrow> if cands = [] then h1 else promote_loop w c cands (others h1))"

section \<open>Retry\<close>

definition retryableCategories :: "FailureCategory \<Rightarrow> bool" where
  "retryableCategories cat \<longleftrightarrow>
     cat \<in> {FailureCategoryContainerCrash, FailureCategoryWorktree, FailureCategorySyncError}"

definition tryAutoRetry_handler :: "world \<Rightarrow> (nat \<Rightarrow> time) \<Rightarrow> Task \<Rightarrow> Handler \<Rightarrow> Handler" where
  "tryAutoRetry_handler w c t h =
     (let i = ID t; cat = FailureCategory t in
      if Status t \<noteq> TaskStatusFailed \<or> \<not> retryableCategories cat \<or> isOpen (c 0) (h_breakers h ''auto-retry'')
         \<or> budget_at (AutoRetryBudget t) cat \<le> 0 \<or> AutoRetryCount t \<ge> MaxAutoRetries then h
      else case (if cat = FailureCategoryContainerCrash then ContainerCircuitAllow (c 1) h else (h, True)) of
             (h1, False) \<Rightarrow> h1
           | (h1, True) \<Rightarrow>
               (case try_store (ResetTaskForRetry (w_lib w) i (Prompt t) False (c 2) (c 3)) h1 of
                  (h2, Some e) \<Rightarrow> trip ''auto-retry'' i (w_text w e) (c 4) h2
                | (h2, None) \<Rightarrow>
                    insertEventOrLog background_ctx i EventTypeStateChange
                      (DataStrings (NewStateChangeData TaskStatusFailed TaskStatusBacklog TriggerAutoRetry
                         [(''failure_category'', FailureCategory_string cat)])) (c 5)
                      (on_breaker ''auto-retry'' recordSuccess h2)))"

definition retryAll :: "world \<Rightarrow> (uuid \<Rightarrow> nat \<Rightarrow> time) \<Rightarrow> Handler \<Rightarrow> Handler" where
  "retryAll w c h =
     fold (\<lambda>t h. tryAutoRetry_handler w (c (ID t)) t h) (ListTasksByStatus TaskStatusFailed (h_store h)) h"

section \<open>Sync\<close>

text \<open>The worktrees of a task are fetched and compared one by one; the first that fails or is behind ends the scan.\<close>

fun scan_worktrees :: "world \<Rightarrow> (string, string) gomap \<Rightarrow> go_error + bool" where
  "scan_worktrees w [] = Inr False"
| "scan_worktrees w ((repo, wt) # rest) =
     (if \<not> w_isGitRepo w repo \<or> \<not> w_hasOrigin w repo \<or> \<not> w_stat w wt \<or> \<not> w_isGitRepo w wt then scan_worktrees w rest
      else case w_fetch w repo of
             Some e \<Rightarrow> Inl e
           | None \<Rightarrow>
               (case w_behind w repo wt of
                  Inl _ \<Rightarrow> scan_worktrees w rest
                | Inr n \<Rightarrow> if n > 0 then Inr True else scan_worktrees w rest))"

fun sync_scan :: "world \<Rightarrow> (uuid \<Rightarrow> nat \<Rightarrow> time) \<Rightarrow> Task list \<Rightarrow> Handler \<Rightarrow> Handler \<times> Task list" where
  "sync_scan w c [] h = (h, [])"
| "sync_scan w c (t # ts) h =
     (if WorktreePaths t = [] then sync_scan w c ts h
      else case scan_worktrees w (WorktreePaths t) of
             Inl e \<Rightarrow> sync_scan w c ts (fst (try_store (RecordFetchFailure (ID t) (err_msg e) (c (ID t) 0) (c (ID t) 1)) h))
           | Inr behind \<Rightarrow>
               (case sync_scan w c ts (fst (try_store (ClearFetchFailure (ID t) (c (ID t) 2)) h)) of
                  (h1, cands) \<Rightarrow> (h1, if behind then t # cands else cands)))"

definition auto_sync :: "world \<Rightarrow> (nat \<Rightarrow> time) \<Rightarrow> Task \<Rightarrow> Handler \<Rightarrow> Handler" where
  "auto_sync w c t h =
     (let i = ID t in
      case GetTask i (h_store h) of
        Inl _ \<Rightarrow> h
      | Inr fresh \<Rightarrow>
          if Status fresh \<noteq> TaskStatusWaiting then h
          else case try_store (UpdateTaskStatus i TaskStatusInProgress (c 3) (c 4)) h of
                 (h1, Some e) \<Rightarrow> trip ''auto-sync'' i (w_text w e) (c 5) h1
               | (h1, None) \<Rightarrow>
                   let h2 = insertEventOrLog background_ctx i EventTypeStateChange
                              (state_change_by TaskStatusWaiting TaskStatusInProgress TriggerSync) (c 6) h1;
                       h3 = insertEventOrLog background_ctx i EventTypeSystem
                              (note_result ''Auto-syncing: worktree is behind the default branch.'') (c 7) h2
                   in h3\<lparr>h_syncs := h_syncs h3 @ [(i, session_of t, TaskStatusWaiting)]\<rparr>)"

definition settle_breaker :: "string \<Rightarrow> time \<Rightarrow> Handler \<Rightarrow> Handler" where
  "settle_breaker name now h = (if isOpen now (h_breakers h name) then h else on_breaker name recordSuccess h)"

definition checkAndSyncWaitingTasks ::
  "world \<Rightarrow> time \<Rightarrow> (uuid \<Rightarrow> nat \<Rightarrow> time) \<Rightarrow> (Handler \<Rightarrow> Handler) \<Rightarrow> Handler \<Rightarrow> Handler" where
  "checkAndSyncWaitingTasks w now c others h =
     (if \<not> h_autosync h \<or> isOpen now (h_breakers h ''auto-sync'') then h
      else case sync_scan w c (ListTasksByStatus TaskStatusWaiting (h_store h)) h of
             (h1, cands) \<Rightarrow>
               settle_breaker ''auto-sync'' now (fold (\<lambda>t h. auto_sync w (c (ID t)) t h) cands (others h1)))"

section \<open>Test\<close>

definition reviewSupersedesTest :: "Handler \<Rightarrow> Task \<Rightarrow> bool" where
  "reviewSupersedesTest h t \<longleftrightarrow> h_review h \<and> session_of t \<noteq> []"

definition tracks_remote :: "world \<Rightarrow> string \<Rightarrow> bool" where
  "tracks_remote w repo \<longleftrightarrow> w_isGitRepo w repo \<and> w_hasOrigin w repo"

definition worktree_behind :: "world \<Rightarrow> Task \<Rightarrow> bool" where
  "worktree_behind w t =
     list_ex (\<lambda>(repo, wt). tracks_remote w repo \<and> (case w_behind w repo wt of Inl _ \<Rightarrow> True | Inr n \<Rightarrow> n > 0)) (WorktreePaths t)"

definition worktrees_present :: "world \<Rightarrow> Task \<Rightarrow> bool" where
  "worktrees_present w t \<longleftrightarrow> WorktreePaths t \<noteq> [] \<and> missingTaskWorktrees w t = []"

definition testable :: "world \<Rightarrow> Handler \<Rightarrow> Task \<Rightarrow> bool" where
  "testable w h t \<longleftrightarrow> LastTestResult t = [] \<and> \<not> IsTestRun t \<and> \<not> reviewSupersedesTest h t
     \<and> worktrees_present w t \<and> \<not> worktree_behind w t"

definition auto_test :: "world \<Rightarrow> (nat \<Rightarrow> time) \<Rightarrow> uuid \<Rightarrow> string \<Rightarrow> Handler \<Rightarrow> Handler \<times> bool" where
  "auto_test w c i prompt h =
     (case GetTask i (h_store h) of
        Inl _ \<Rightarrow> (h, False)
      | Inr t \<Rightarrow>
          if Status t \<noteq> TaskStatusWaiting \<or> LastTestResult t \<noteq> [] \<or> IsTestRun t \<or> \<not> worktrees_present w t then (h, False)
          else case try_store (UpdateTaskTestRun i True [] (c 0)) h of
                 (h1, Some e) \<Rightarrow> (trip ''auto-test'' i (w_text w e) (c 1) h1, False)
               | (h1, None) \<Rightarrow>
                   (case try_store (UpdateTaskStatus i TaskStatusInProgress (c 2) (c 3)) h1 of
                      (h2, Some e) \<Rightarrow>
                        (fst (try_store (UpdateTaskTestRun i False [] (c 5)) (trip ''auto-test'' i (w_text w e) (c 4) h2)), False)
                    | (h2, None) \<Rightarrow>
                        let h3 = closeFeedbackWaitingSpan background_ctx i (c 6) h2;
                            h4 = insertEventOrLog background_ctx i EventTypeStateChange
                                   (state_change_by TaskStatusWaiting TaskStatusInProgress TriggerAutoTest) (c 7) h3;
                            h5 = insertEventOrLog background_ctx i EventTypeSystem
                                   (note_result ''Auto-test: triggering test verification agent.'') (c 8) h4
                        in (RunBackground i prompt [] False h5, True)))"

fun test_loop :: "world \<Rightarrow> (uuid \<Rightarrow> nat \<Rightarrow> time) \<Rightarrow> int \<Rightarrow> (Task \<times> string) list \<Rightarrow> int \<Rightarrow> Handler \<Rightarrow> Handler" where
  "test_loop w c maxTests [] running h = h"
| "test_loop w c maxTests ((t, prompt) # cands) running h =
     (if running \<ge> maxTests then h
      else case auto_test w (c (ID t)) (ID t) prompt h of
             (h1, started) \<Rightarrow> test_loop w c maxTests cands (if started then running + 1 else running) h1)"

definition tryAutoTest :: "world \<Rightarrow> time \<Rightarrow> (uuid \<Rightarrow> nat \<Rightarrow> time) \<Rightarrow> (Handler \<Rightarrow> Handler) \<Rightarrow> Handler \<Rightarrow> Handler" where
  "tryAutoTest w now c others h =
     (if \<not> h_autotest h \<or> isOpen now (h_breakers h ''auto-test'') then h
      else let cands = map (\<lambda>t. (t, test_prompt w t (Criteria t)))
                 (filter (testable w h) (ListTasksByStatus TaskStatusWaiting (h_store h)))
           in if cands = [] then h
              else let h1 = others h
                   in settle_breaker ''auto-test'' now
                        (test_loop w c (maxTestConcurrentTasks h1) cands (countGlobalTestsInProgress h1) h1))"

section \<open>Submission\<close>

definition verified :: "Handler \<Rightarrow> Task \<Rightarrow> bool" where
  "verified h t = (if reviewSupersedesTest h t then ReviewUnresolved t = Some 0 else LastTestResult t = ''pass'')"

definition naturallyComplete :: "Handler \<Rightarrow> Task \<Rightarrow> bool" where
  "naturallyComplete h t \<longleftrightarrow> \<not> reviewSupersedesTest h t \<and> StopReason t = Some ''end_turn'' \<and> LastTestResult t = []
     \<and> \<not> h_autotest h"

definition worktree_clean :: "world \<Rightarrow> string \<Rightarrow> string \<Rightarrow> bool" where
  "worktree_clean w repo wt \<longleftrightarrow> w_isGitRepo w wt
     \<and> (case w_behind w repo wt of Inl _ \<Rightarrow> False | Inr n \<Rightarrow> \<not> n > 0)
     \<and> (case w_conflicts w wt of Inl _ \<Rightarrow> False | Inr conflict \<Rightarrow> \<not> conflict)"

definition stale_fetch :: "world \<Rightarrow> time \<Rightarrow> Task \<Rightarrow> bool" where
  "stale_fetch w now t \<longleftrightarrow> list_ex (\<lambda>(repo, wt). tracks_remote w repo) (WorktreePaths t)
     \<and> (case LastFetchErrorAt t of Some a \<Rightarrow> now - a < 300000000000 | None \<Rightarrow> False)"

definition submittable :: "world \<Rightarrow> (uuid \<Rightarrow> time) \<Rightarrow> Handler \<Rightarrow> Task \<Rightarrow> bool" where
  "submittable w clk h t \<longleftrightarrow> Status t = TaskStatusWaiting \<and> (verified h t \<or> naturallyComplete h t) \<and> \<not> IsTestRun t
     \<and> worktrees_present w t
     \<and> list_all (\<lambda>(repo, wt). tracks_remote w repo \<longrightarrow> worktree_clean w repo wt) (WorktreePaths t)
     \<and> \<not> stale_fetch w (clk (ID t)) t"

definition submitAutoSubmitCandidate :: "world \<Rightarrow> (nat \<Rightarrow> time) \<Rightarrow> uuid \<times> bool \<Rightarrow> Handler \<Rightarrow> Handler" where
  "submitAutoSubmitCandidate w c cand h =
     (case cand of (i, natural) \<Rightarrow>
      case GetTask i (h_store h) of
        Inl _ \<Rightarrow> h
      | Inr t \<Rightarrow>
          if Status t \<noteq> TaskStatusWaiting \<or> IsTestRun t \<or> \<not> worktrees_present w t then h
          else let msg = (if natural then ''Auto-submit: task naturally completed, up to date, and no conflicts.''
                          else ''Auto-submit: task verified with passing tests, up to date, and no conflicts.'');
                   h1 = closeFeedbackWaitingSpan background_ctx i (c 1)
                          (insertEventOrLog background_ctx i EventTypeSystem (note_result msg) (c 0) h)
               in if session_of t \<noteq> [] then
                    (case try_store (UpdateTaskStatus i TaskStatusCommitting (c 2) (c 3)) h1 of
                       (h2, Some e) \<Rightarrow> trip ''auto-submit'' i (w_text w e) (c 4) h2
                     | (h2, None) \<Rightarrow>
                         runCommitTransition i (session_of t) TriggerAutoSubmit ''auto-submit: commit failed: ''
                           (insertEventOrLog background_ctx i EventTypeStateChange
                             (state_change_by TaskStatusWaiting TaskStatusCommitting TriggerAutoSubmit) (c 5) h2))
                  else
                    (case try_store (ForceUpdateTaskStatus i TaskStatusDone (c 2) (c 3)) (StopTaskWorker i h1) of
                       (h2, Some e) \<Rightarrow> trip ''auto-submit'' i (w_text w e) (c 4) h2
                     | (h2, None) \<Rightarrow>
                         insertEventOrLog background_ctx i EventTypeStateChange
                           (state_change_by TaskStatusWaiting TaskStatusDone TriggerAutoSubmit) (c 5) h2))"

definition submit_candidates :: "world \<Rightarrow> (uuid \<Rightarrow> time) \<Rightarrow> Handler \<Rightarrow> (uuid \<times> bool) list" where
  "submit_candidates w clk h =
     map (\<lambda>t. (ID t, naturallyComplete h t)) (filter (submittable w clk h) (ListTasks False (h_store h)))"

definition tryAutoSubmit ::
  "world \<Rightarrow> (uuid \<Rightarrow> time) \<Rightarrow> time \<Rightarrow> (uuid \<Rightarrow> nat \<Rightarrow> time) \<Rightarrow> (Handler \<Rightarrow> Handler) \<Rightarrow> Handler \<Rightarrow> Handler" where
  "tryAutoSubmit w clk now c others h =
     (if \<not> h_autosubmit h \<or> isOpen now (h_breakers h ''auto-submit'') then h
      else let cands = submit_candidates w clk h
           in if cands = [] then h
              else settle_breaker ''auto-submit'' now
                     (fold (\<lambda>cand h. submitAutoSubmitCandidate w (c (fst cand)) cand h) cands (others h)))"

section \<open>Review\<close>

abbreviation (input) maxConcurrentReview :: nat where
  "maxConcurrentReview \<equiv> 2"

definition beginReview :: "uuid \<Rightarrow> Handler \<Rightarrow> Handler \<times> bool" where
  "beginReview i h =
     (if i \<in> set (reviewInFlight h) \<or> length (reviewInFlight h) \<ge> maxConcurrentReview then (h, False)
      else (h\<lparr>reviewInFlight := reviewInFlight h @ [i]\<rparr>, True))"

definition endReview :: "uuid \<Rightarrow> Handler \<Rightarrow> Handler" where
  "endReview i h = h\<lparr>reviewInFlight := filter (\<lambda>j. j \<noteq> i) (reviewInFlight h)\<rparr>"

definition isReviewRunning :: "uuid \<Rightarrow> Handler \<Rightarrow> bool" where
  "isReviewRunning i h \<longleftrightarrow> i \<in> set (reviewInFlight h)"

definition tryAutoReview :: "time \<Rightarrow> Handler \<Rightarrow> Handler \<times> Task list" where
  "tryAutoReview now h =
     (if \<not> h_review h \<or> isOpen now (h_breakers h ''auto-review'') then (h, [])
      else fold (\<lambda>t (h, started). case beginReview (ID t) h of (h1, ok) \<Rightarrow> (h1, if ok then started @ [t] else started))
             (ListWaitingTasksWithSession (h_store h)) (h, []))"

text \<open>
  A review run: the verifier works for minutes between the two parts. Its result carries the
  usage that the run has written to its session directory.
\<close>

record verify_result =
  vr_Unresolved :: int
  vr_Headline :: string
  vr_SessionDir :: string
  vr_usage :: TaskUsage

definition reviewTuning :: "(int \<times> int \<times> int) option \<Rightarrow> int \<times> int \<times> int" where
  "reviewTuning cfg =
     (case cfg of
        None \<Rightarrow> (1, 3, 50000)
      | Some (forks, rounds, costCap) \<Rightarrow>
          (if forks > 0 then forks else 1, if rounds > 0 then rounds else 3, if costCap > 0 then costCap else 50000))"

definition reviewUsageNonZero :: "TaskUsage \<Rightarrow> bool" where
  "reviewUsageNonZero u \<longleftrightarrow> InputTokens u > 0 \<or> OutputTokens u > 0 \<or> CacheReadInputTokens u > 0
     \<or> CacheCreationTokens u > 0 \<or> CostUSD u > 0"

definition review_begin :: "(int \<times> int \<times> int) option \<Rightarrow> time \<Rightarrow> Task \<Rightarrow> Handler \<Rightarrow> Handler" where
  "review_begin cfg now t h =
     (if session_of t = [] \<or> WorktreePaths t = [] then h
      else case reviewTuning cfg of
             (forks, rounds, _) \<Rightarrow>
               insertEventOrLog background_ctx (ID t) EventTypeSystem
                 (note_result (''Review: adversarial verification started ('' @ fmt_d forks @ '' critics, up to ''
                    @ fmt_d rounds @ '' rounds).'')) now h)"

definition review_finish :: "(nat \<Rightarrow> time) \<Rightarrow> Task \<Rightarrow> go_error + verify_result option \<Rightarrow> Handler \<Rightarrow> Handler" where
  "review_finish c t result h =
     (let i = ID t in
      if session_of t = [] \<or> WorktreePaths t = [] then h
      else case result of
             Inl e \<Rightarrow> insertEventOrLog background_ctx i EventTypeSystem
                        (note_result (''Review: verification failed: '' @ err_msg e)) (c 1)
                        (trip ''auto-review'' i (err_msg e) (c 0) h)
           | Inr None \<Rightarrow> on_breaker ''auto-review'' recordSuccess h
           | Inr (Some r) \<Rightarrow>
               let h1 = on_breaker ''auto-review'' recordSuccess h;
                   h2 = (if reviewUsageNonZero (vr_usage r)
                         then fst (try_store (AccumulateSubAgentUsage i ''review'' (vr_usage r) (c 2)) h1) else h1)
               in case GetTask i (h_store h2) of
                    Inl _ \<Rightarrow> h2
                  | Inr fresh \<Rightarrow>
                      if Status fresh \<noteq> TaskStatusWaiting then h2
                      else case try_store (UpdateTaskReview i (vr_Unresolved r) (vr_Headline r) (vr_SessionDir r) (c 3)) h2 of
                             (h3, Some _) \<Rightarrow> h3
                           | (h3, None) \<Rightarrow>
                               insertEventOrLog background_ctx i EventTypeSystem (note_result
                                 (if vr_Unresolved r = 0
                                  then ''Review: verification clean '' @ map char_of [0xE2, 0x80, 0x94 :: nat] @ '' no unresolved attacks.''
                                  else ''Review: '' @ fmt_d (vr_Unresolved r) @ '' unresolved attack(s); task halted for review ''
                                    @ map char_of [0xE2, 0x80, 0x94 :: nat] @ '' confirm or resume with steering to re-verify.'')) (c 4) h3)"

definition ReviewTask :: "uuid \<Rightarrow> Handler \<Rightarrow> Handler \<times> response" where
  "ReviewTask i h =
     (case GetTask i (h_store h) of
        Inl _ \<Rightarrow> (h, HTTPError 404 ''task not found'')
      | Inr t \<Rightarrow>
          if Status t \<noteq> TaskStatusWaiting then (h, HTTPError 409 ''only waiting tasks can be verified by review'')
          else if session_of t = [] then (h, HTTPError 400 ''task has no session ID (claude fork-session required)'')
          else case beginReview i h of
                 (h1, False) \<Rightarrow> (h1, HTTPError 409 ''review verification already running for this task'')
               | (h1, True) \<Rightarrow> (h1, HTTPOk 202 [(''status'', ''running'')]))"

end
