(* ===== verification/Automation_Limits.thy ===== *)
theory Automation_Limits
  imports Automation
begin

text \<open>
  How many tasks the automation runs at once. Promotion, manual starts and test runs share one
  contract, an operation that admits at most one more and none at the limit.
\<close>

section \<open>Counting\<close>

definition run_view :: "uuid \<Rightarrow> Store \<Rightarrow> (TaskStatus \<times> bool) option" where
  "run_view i s = map_option (\<lambda>t. (Status t, IsTestRun t)) (map_get (tasks s) i)"

definition running :: "bool \<Rightarrow> Store \<Rightarrow> uuid set" where
  "running test s = {i. run_view i s = Some (TaskStatusInProgress, test)}"

lemma finite_running: "finite (running test s)"
  by (rule finite_subset[OF _ finite_dom_map_of[of "tasks s"]]) (auto simp: running_def run_view_def dom_def)

lemma count_indexed:
  assumes "store_inv L s"
  shows "length (filter P (indexed_tasks st s)) = card {i. \<exists>t. map_get (tasks s) i = Some t \<and> Status t = st \<and> P t}"
proof -
  define ts where "ts = filter (\<lambda>t. Status t = st \<and> P t) (map snd (tasks s))"
  have "length (filter P (indexed_tasks st s)) = size (filter_mset P (mset (indexed_tasks st s)))"
    by (metis mset_filter size_mset)
  also have "\<dots> = length ts" unfolding indexed_scan[OF assms] ts_def
    by (metis (no_types, lifting) filter_filter mset_filter size_mset conj_commute filter_cong)
  also have "\<dots> = card (set ts)"
    using distinct_card[OF distinct_filter[OF task_values(1)[OF assms]]] by (simp add: ts_def)
  also have "\<dots> = card (ID ` set ts)"
  proof (rule card_image[symmetric], rule inj_onI)
    fix t u assume "t \<in> set ts" "u \<in> set ts" "ID t = ID u"
    moreover have "map_get (tasks s) (ID x) = Some x" if "x \<in> set ts" for x
      using that task_values(2)[OF assms, of x] by (simp add: ts_def)
    ultimately show "t = u" by (metis option.inject)
  qed
  also have "ID ` set ts = {i. \<exists>t. map_get (tasks s) i = Some t \<and> Status t = st \<and> P t}"
  proof (rule set_eqI)
    fix i
    have m: "t \<in> set ts \<longleftrightarrow> map_get (tasks s) (ID t) = Some t \<and> Status t = st \<and> P t" for t
      using task_values(2)[OF assms, of t] by (simp add: ts_def)
    show "i \<in> ID ` set ts \<longleftrightarrow> i \<in> {i. \<exists>t. map_get (tasks s) i = Some t \<and> Status t = st \<and> P t}"
      using m inv_in_tasks(1)[OF assms, of i] by blast
  qed
  finally show ?thesis .
qed

lemma counts:
  assumes "store_inv L (h_store h)"
  shows "countGlobalInProgress h = int (card (running False (h_store h)))"
    "countGlobalTestsInProgress h = int (card (running True (h_store h)))"
proof -
  have r: "running b (h_store h) = {i. \<exists>t. map_get (tasks (h_store h)) i = Some t \<and> Status t = TaskStatusInProgress \<and> IsTestRun t = b}" for b
    by (auto simp: running_def run_view_def)
  show "countGlobalInProgress h = int (card (running False (h_store h)))"
    unfolding countGlobalInProgress_def CountRegularInProgress_def count_indexed[OF assms] r by simp
  have "length (filter IsTestRun (ListTasksByStatus st s)) = length (filter IsTestRun (indexed_tasks st s))" for st s
    by (metis ListTasksByStatus_def mset_SortFunc mset_filter size_mset)
  then show "countGlobalTestsInProgress h = int (card (running True (h_store h)))"
    unfolding countGlobalTestsInProgress_def by (simp add: count_indexed[OF assms] r)
qed

lemma card_running_insert:
  assumes "running b s' \<subseteq> insert i (running b s)"
  shows "card (running b s') \<le> card (running b s) + 1"
  using card_mono[OF _ assms] card_insert_le_m1[of "card (running b s) + 1" "running b s" i] finite_running[of b s]
  by simp

section \<open>Views and invariants\<close>

definition handler_ok :: "lib \<Rightarrow> Handler \<Rightarrow> bool" where
  "handler_ok L h \<longleftrightarrow> store_inv L (h_store h)"

lemma run_view_tasks: "tasks s = tasks s' \<Longrightarrow> run_view i s = run_view i s'"
  by (simp add: run_view_def)

lemma run_view_events [simp]:
  "run_view j (h_store (insertEventOrLog ctx i ty data now h)) = run_view j (h_store h)"
  "run_view j (h_store (closeFeedbackWaitingSpan ctx i now h)) = run_view j (h_store h)"
  by (rule run_view_tasks, simp)+

lemma run_view_effects [simp]:
  "run_view j (fst (UpdateTaskStatus i st n1 n2 s)) =
     (if j = i then map_option (\<lambda>(old, b). (if st \<in> set (AllowedTransitions old) then st else old, b)) (run_view j s) else run_view j s)"
  "run_view j (fst (UpdateTaskTestRun i b v now s)) = (if j = i then map_option (\<lambda>(old, _). (old, b)) (run_view j s) else run_view j s)"
  "run_view j (fst (UpdateTaskPendingTestFeedback i m now s)) = run_view j s"
  "run_view j (fst (ClearReviewResult i now s)) = run_view j s"
  "run_view j (fst (ResetTestFailCount i now s)) = run_view j s"
  by (cases "map_get (tasks s) i"; auto simp: run_view_def effects set_test_run_def Let_def split: if_split)+

lemma ok_try [simp]:
  assumes "handler_ok L h" "\<And>s. store_call L s (fst (f s))"
  shows "handler_ok L (h\<lparr>h_store := fst (f (h_store h))\<rparr>)" "handler_ok L (fst (try_store f h))"
  using assms(1) good_step_inv[OF store_call_good[OF assms(2)]] by (simp_all add: handler_ok_def try_store_simps)

lemma ok_other [simp]:
  "handler_ok L h \<Longrightarrow> handler_ok L (insertEventOrLog ctx i ty data now h)"
  "handler_ok L h \<Longrightarrow> handler_ok L (closeFeedbackWaitingSpan ctx i now h)"
  "handler_ok L (RunBackground i p sid r h) = handler_ok L h" "handler_ok L (cascadeArchiveThreadsForTask i h) = handler_ok L h"
  "handler_ok L (on_breaker name f h) = handler_ok L h" "handler_ok L (trip name i reason now h) = handler_ok L h"
  "handler_ok L (fst (ContainerCircuitAllow now h)) = handler_ok L h"
  by (auto simp: handler_ok_def insertEventOrLog_def closeFeedbackWaitingSpan_def on_store_def ContainerCircuitAllow_def
      good_step_inv[OF InsertEvent_good] split: prod.split)

lemma limits_same [simp]:
  "maxConcurrentTasks (h\<lparr>h_store := s\<rparr>) = maxConcurrentTasks h"
  "maxConcurrentTasks (insertEventOrLog ctx i ty data now h) = maxConcurrentTasks h"
  "maxConcurrentTasks (RunBackground i p sid r h) = maxConcurrentTasks h"
  "maxConcurrentTasks (cascadeArchiveThreadsForTask i h) = maxConcurrentTasks h"
  "maxConcurrentTasks (on_breaker name f h) = maxConcurrentTasks h"
  "maxConcurrentTasks (trip name i reason now h) = maxConcurrentTasks h"
  "maxConcurrentTasks (fst (ContainerCircuitAllow now h)) = maxConcurrentTasks h"
  by (simp_all add: maxConcurrentTasks_def currentGroupParallelLimit_def insertEventOrLog_def on_store_def RunBackground_def
      cascadeArchiveThreadsForTask_def on_breaker_def trip_def ContainerCircuitAllow_def split: prod.split option.split)

section \<open>Admission\<close>

text \<open>
  The contract between the watchers and the limits: an operation keeps the invariant and the
  limit, adds at most one to the count, and adds none when the limit is reached.
\<close>

locale admission =
  fixes inv :: "'h \<Rightarrow> bool" and count :: "'h \<Rightarrow> int" and limit :: "'h \<Rightarrow> int" and admit :: "'c \<Rightarrow> 'h \<Rightarrow> 'h"
  assumes admit_inv: "inv h \<Longrightarrow> inv (admit x h)"
    and admit_limit: "inv h \<Longrightarrow> limit (admit x h) = limit h"
    and admit_one: "inv h \<Longrightarrow> count (admit x h) \<le> count h + 1"
    and admit_full: "inv h \<Longrightarrow> limit h \<le> count h \<Longrightarrow> count (admit x h) \<le> count h"
begin

lemma admit_bound: "inv h \<Longrightarrow> count (admit x h) \<le> max (limit h) (count h)"
  using admit_one[of h x] admit_full[of h x] by (cases "limit h \<le> count h") auto

lemma fold_bound: "inv h \<Longrightarrow> count (fold admit xs h) \<le> max (limit h) (count h)"
proof (induction xs arbitrary: h)
  case (Cons x xs)
  then have "count (fold admit xs (admit x h)) \<le> max (limit h) (count (admit x h))"
    using Cons.IH[OF admit_inv[OF Cons.prems, of x]] admit_limit[OF Cons.prems, of x] by simp
  then show ?case using admit_bound[OF Cons.prems, of x] by simp
qed simp

end

lemma promote_backlog_step:
  assumes "handler_ok L h"
  shows "handler_ok L (fst (promote_backlog w c t h))" "maxConcurrentTasks (fst (promote_backlog w c t h)) = maxConcurrentTasks h"
    "running False (h_store (fst (promote_backlog w c t h))) \<subseteq> insert (ID t) (running False (h_store h))"
    "maxConcurrentTasks h \<le> countGlobalInProgress h \<Longrightarrow> fst (promote_backlog w c t h) = h"
proof -
  obtain h1 ok where a: "ContainerCircuitAllow (c 0) h = (h1, ok)" by fastforce
  have h1: "handler_ok L h1" "maxConcurrentTasks h1 = maxConcurrentTasks h" "h_store h1 = h_store h"
    using a assms ok_other(7)[of L "c 0" h] limits_same(7)[of "c 0" h]
    by (simp_all add: ContainerCircuitAllow_def split: prod.splits) auto
  obtain h2 e where t: "try_store (UpdateTaskStatus (ID t) TaskStatusInProgress (c 1) (c 2)) h1 = (h2, e)" by fastforce
  have h2: "h2 = h1\<lparr>h_store := fst (UpdateTaskStatus (ID t) TaskStatusInProgress (c 1) (c 2) (h_store h1))\<rparr>"
    using try_storeD[OF t] .
  have ok2: "handler_ok L h2" unfolding h2 by (rule ok_try(1)[OF h1(1)]) (rule store_call.intros)
  have run2: "running False (h_store h2) \<subseteq> insert (ID t) (running False (h_store h))"
    by (auto simp: h2 h1(3) running_def)
  show "handler_ok L (fst (promote_backlog w c t h))" "maxConcurrentTasks (fst (promote_backlog w c t h)) = maxConcurrentTasks h"
    "running False (h_store (fst (promote_backlog w c t h))) \<subseteq> insert (ID t) (running False (h_store h))"
    "maxConcurrentTasks h \<le> countGlobalInProgress h \<Longrightarrow> fst (promote_backlog w c t h) = h"
    using assms h1 ok2 run2 h2
    by (auto simp: promote_backlog_def Let_def a t[unfolded One_nat_def] running_def split: bool.split option.split)
qed

interpretation promotion: admission "handler_ok L" countGlobalInProgress maxConcurrentTasks
  "\<lambda>(w, c, t) h. fst (promote_backlog w c t h)" for L
proof
  fix h :: Handler and x :: "world \<times> (nat \<Rightarrow> time) \<times> Task"
  obtain w c t where x: "x = (w, c, t)" by (metis prod_cases3)
  assume h: "handler_ok L h"
  show "maxConcurrentTasks ((\<lambda>(w, c, t) h. fst (promote_backlog w c t h)) x h) = maxConcurrentTasks h"
    using promote_backlog_step(2)[OF h] by (simp add: x)
  show "handler_ok L ((\<lambda>(w, c, t) h. fst (promote_backlog w c t h)) x h)" using promote_backlog_step(1)[OF h] by (simp add: x)
  show "countGlobalInProgress ((\<lambda>(w, c, t) h. fst (promote_backlog w c t h)) x h) \<le> countGlobalInProgress h + 1"
    using card_running_insert[OF promote_backlog_step(3)[OF h, of w c t]] promote_backlog_step(1)[OF h] h
    by (simp add: x counts[of L] handler_ok_def)
  show "maxConcurrentTasks h \<le> countGlobalInProgress h \<Longrightarrow>
      countGlobalInProgress ((\<lambda>(w, c, t) h. fst (promote_backlog w c t h)) x h) \<le> countGlobalInProgress h"
    using promote_backlog_step(4)[OF h] by (simp add: x)
qed

interpretation manual: admission "handler_ok L" countGlobalInProgress maxConcurrentTasks
  "\<lambda>(w, i, n1, n2) h. fst (checkConcurrencyAndUpdateStatus w i TaskStatusInProgress n1 n2 h)" for L
proof
  fix h :: Handler and x :: "world \<times> uuid \<times> time \<times> time"
  obtain w i n1 n2 where x: "x = (w, i, n1, n2)" by (metis prod_cases4)
  define h1 where "h1 = h\<lparr>h_store := fst (UpdateTaskStatus i TaskStatusInProgress n1 n2 (h_store h))\<rparr>"
  have eq: "fst (checkConcurrencyAndUpdateStatus w i TaskStatusInProgress n1 n2 h) =
      (if maxConcurrentTasks h \<le> countGlobalInProgress h then h else h1)"
    by (cases "UpdateTaskStatus i TaskStatusInProgress n1 n2 (h_store h)")
      (auto simp: checkConcurrencyAndUpdateStatus_def try_store_def h1_def split: sum.split)
  assume h: "handler_ok L h"
  have ok: "handler_ok L h1" unfolding h1_def by (rule ok_try(1)[OF h]) (rule store_call.intros)
  have "running False (h_store h1) \<subseteq> insert i (running False (h_store h))" by (auto simp: h1_def running_def)
  note one = card_running_insert[OF this]
  show "handler_ok L ((\<lambda>(w, i, n1, n2) h. fst (checkConcurrencyAndUpdateStatus w i TaskStatusInProgress n1 n2 h)) x h)"
    "maxConcurrentTasks ((\<lambda>(w, i, n1, n2) h. fst (checkConcurrencyAndUpdateStatus w i TaskStatusInProgress n1 n2 h)) x h) = maxConcurrentTasks h"
    "countGlobalInProgress ((\<lambda>(w, i, n1, n2) h. fst (checkConcurrencyAndUpdateStatus w i TaskStatusInProgress n1 n2 h)) x h)
       \<le> countGlobalInProgress h + 1"
    "maxConcurrentTasks h \<le> countGlobalInProgress h \<Longrightarrow>
     countGlobalInProgress ((\<lambda>(w, i, n1, n2) h. fst (checkConcurrencyAndUpdateStatus w i TaskStatusInProgress n1 n2 h)) x h)
       \<le> countGlobalInProgress h"
    using h ok one by (auto simp: x eq h1_def handler_ok_def counts[of L])
qed

section \<open>Steps that concern one task\<close>

definition touches :: "lib \<Rightarrow> uuid \<Rightarrow> Handler \<Rightarrow> Handler \<Rightarrow> bool" where
  "touches L i h h' \<longleftrightarrow> (handler_ok L h \<longrightarrow> handler_ok L h') \<and> maxConcurrentTasks h' = maxConcurrentTasks h
     \<and> (\<forall>j. j \<noteq> i \<longrightarrow> run_view j (h_store h') = run_view j (h_store h))"

lemma touches_refl [simp]: "touches L i h h"
  by (simp add: touches_def)

lemma touches_trans: "touches L i h h1 \<Longrightarrow> touches L i h1 h2 \<Longrightarrow> touches L i h h2"
  by (simp add: touches_def)

lemma touches_running: "touches L i h h' \<Longrightarrow> running b (h_store h') \<subseteq> insert i (running b (h_store h))"
  by (auto simp: touches_def running_def)

lemma touches_other [simp]:
  "touches L i h (insertEventOrLog ctx i ty data now h)" "touches L i h (closeFeedbackWaitingSpan ctx i now h)"
  "touches L i h (RunBackground i p sid r h)" "touches L i h (on_breaker name f h)" "touches L i h (trip name i reason now h)"
  by (simp_all add: touches_def) (simp add: maxConcurrentTasks_def currentGroupParallelLimit_def closeFeedbackWaitingSpan_def
      on_store_def split: option.split)

lemma touches_try:
  assumes "\<And>s. store_call L s (fst (f s))" "\<And>s j. j \<noteq> i \<Longrightarrow> run_view j (fst (f s)) = run_view j s" "try_store f h = (h', e)"
  shows "touches L i h h'"
  using assms(2) ok_try(1)[OF _ assms(1)] try_storeD[OF assms(3)] by (simp add: touches_def)

lemma touches_try_all:
  assumes "\<forall>f \<in> set fs. \<forall>s. store_call L s (fst (f s)) \<and> (\<forall>j. j \<noteq> i \<longrightarrow> run_view j (fst (f s)) = run_view j s)"
    "try_all fs h = (h', e)"
  shows "touches L i h h'"
  using assms
proof (induction fs arbitrary: h)
  case (Cons f fs)
  obtain h1 e1 where 1: "try_store f h = (h1, e1)" by fastforce
  have "touches L i h h1" using Cons.prems(1) by (intro touches_try[OF _ _ 1]) auto
  then show ?case using Cons 1 by (cases e1) (auto intro: touches_trans)
qed simp

lemma resume_touches:
  assumes "resumeWaitingTaskWithFeedbackLocked ctx t m trigger sys c h = (h', e)"
  shows "touches L (ID t) h h'"
proof -
  obtain h1 e1 where 1: "try_all (resume_calls (ID t) c) h = (h1, e1)" by fastforce
  have t1: "touches L (ID t) h h1"
    by (rule touches_try_all[OF _ 1]) (auto simp: resume_calls_def intro: store_call.intros)
  show ?thesis
    using assms t1 1
    by (auto simp: resumeWaitingTaskWithFeedbackLocked_def Let_def split: option.splits
        intro!: touches_trans[OF _ touches_other(1)] touches_trans[OF _ touches_other(3)])
qed

lemma auto_resume_touches:
  assumes "handler_ok L h"
  shows "touches L i h (auto_resume w c i h)"
proof (cases "map_get (tasks (h_store h)) i")
  case (Some t)
  then have i: "ID t = i" using assms inv_in_tasks(1)[of L "h_store h"] by (simp add: handler_ok_def)
  obtain h1 e where r: "resumeWaitingTaskWithFeedbackLocked background_ctx t (PendingTestFeedback t) TriggerFeedback
      ''Autoimplement: resuming task with failed test feedback.'' c h = (h1, e)" by fastforce
  show ?thesis
    using touches_trans[OF resume_touches[OF r, of L, unfolded i] touches_other(4)]
      touches_trans[OF resume_touches[OF r, of L, unfolded i] touches_other(5)]
    by (auto simp: auto_resume_def GetTask_def Some r split: option.split)
qed (simp add: auto_resume_def GetTask_def)

lemma touches_count:
  assumes "handler_ok L h" "touches L i h h'"
  shows "countGlobalInProgress h' \<le> countGlobalInProgress h + 1" "countGlobalTestsInProgress h' \<le> countGlobalTestsInProgress h + 1"
  using card_running_insert[OF touches_running[OF assms(2)], of False] card_running_insert[OF touches_running[OF assms(2)], of True] assms
  by (simp_all add: counts[of L] handler_ok_def touches_def)

section \<open>Promotion\<close>

lemma promote_loop_bound:
  assumes "handler_ok L h"
  shows "countGlobalInProgress (promote_loop w c cands h)
    \<le> max (maxConcurrentTasks h) (countGlobalInProgress h) + int (length (filter isResume cands))"
  using assms
proof (induction cands arbitrary: h)
  case (Cons cd cds)
  define t where "t = cand_task cd"
  show ?case
  proof (cases "isResume cd")
    case True
    define h1 where "h1 = auto_resume w (c (ID t)) (ID t) h"
    have h1: "touches L (ID t) h h1" unfolding h1_def by (rule auto_resume_touches[OF Cons.prems])
    then have "handler_ok L h1" "maxConcurrentTasks h1 = maxConcurrentTasks h" using Cons.prems by (simp_all add: touches_def)
    then show ?thesis
      using Cons.IH[of h1] touches_count(1)[OF Cons.prems h1] True by (simp add: t_def[symmetric] h1_def[symmetric] Let_def)
  next
    case False
    obtain h1 stop where p: "promote_backlog w (c (ID t)) t h = (h1, stop)" by fastforce
    have "handler_ok L h1" "maxConcurrentTasks h1 = maxConcurrentTasks h"
      "countGlobalInProgress h1 \<le> max (maxConcurrentTasks h) (countGlobalInProgress h)"
      using promotion.admit_inv[OF Cons.prems, of "(w, c (ID t), t)"] promotion.admit_limit[OF Cons.prems, of "(w, c (ID t), t)"]
        promotion.admit_bound[OF Cons.prems, of "(w, c (ID t), t)"] p by simp_all
    then show ?thesis
      using Cons.IH[of h1] p False by (cases stop) (auto simp: t_def[symmetric] Let_def max_def split: if_splits)
  qed
qed simp

text \<open>
  (C17) One pass of the promoter leaves at most as many regular tasks running as the limit allows or
  as were running already, plus one for each waiting task that it resumes with test feedback. It
  holds whatever other goroutines do between the two phases, also when they start tasks, and
  whatever writes to disk fail.
\<close>

theorem promotion_within_limit:
  assumes "promote_phase1 w clk now h = (h1, cands)" "store_inv L (h_store (others h1))"
    "h2 = (if \<not> h_autoimplement h \<or> isOpen now (h_breakers h ''auto-promote'') \<or> cands = [] then h else others h1)"
  shows "countGlobalInProgress (tryAutoPromote w clk now c others h)
    \<le> max (maxConcurrentTasks h2) (countGlobalInProgress h2) + int (length (filter isResume cands))"
proof -
  have "h_store h1 = h_store h"
    using assms(1) by (auto simp: promote_phase1_def Let_def ensureScheduledPromoteTrigger_def split: if_splits option.splits)
  then have "countGlobalInProgress h1 = countGlobalInProgress h" by (simp add: countGlobalInProgress_def)
  moreover have "handler_ok L (others h1)" using assms(2) by (simp add: handler_ok_def)
  ultimately show ?thesis
    using promote_loop_bound[of L "others h1" w c cands] assms(1,3) by (auto simp: tryAutoPromote_def max_def)
qed

section \<open>Test runs\<close>

lemma auto_test_step:
  assumes "handler_ok L h" "auto_test w c i prompt h = (h', started)"
  shows "touches L i h h'" "\<not> started \<Longrightarrow> running True (h_store h') \<subseteq> running True (h_store h)"
proof -
  obtain h1 e1 where 1: "try_store (UpdateTaskTestRun i True [] (c 0)) h = (h1, e1)" by fastforce
  obtain h2 e2 where 2: "try_store (UpdateTaskStatus i TaskStatusInProgress (c 2) (c 3)) h1 = (h2, e2)" by fastforce
  define h3 where "h3 r = fst (try_store (UpdateTaskTestRun i False [] (c 5)) (trip ''auto-test'' i r (c 4) h2))" for r
  have t1: "touches L i h h1" by (rule touches_try[OF _ _ 1]) (auto intro: store_call.intros)
  have t2: "touches L i h1 h2" by (rule touches_try[OF _ _ 2]) (auto intro: store_call.intros)
  have "touches L i (trip ''auto-test'' i r (c 4) h2) (h3 r)" for r
    by (rule touches_try[of L "UpdateTaskTestRun i False [] (c 5)"]) (auto simp: h3_def prod_eq_iff intro: store_call.intros)
  then have t3: "touches L i h (h3 r)" for r by (rule touches_trans[OF touches_trans[OF touches_trans[OF t1 t2] touches_other(5)]])
  show "touches L i h h'"
    using assms(2) t1 touches_trans[OF t1 t2] t3
    by (auto simp: auto_test_def Let_def 1 2 h3_def[symmetric] split: sum.splits if_splits option.splits
        intro: touches_trans[OF _ touches_other(5)] intro!: touches_trans[OF _ touches_other(3)] touches_trans[OF _ touches_other(1)]
          touches_trans[OF _ touches_other(2)])
  show "running True (h_store h') \<subseteq> running True (h_store h)" if "\<not> started"
  proof (cases "map_get (tasks (h_store h)) i")
    case (Some t)
    have v1: "run_view i (h_store h1) = Some (Status t, True)" using try_storeD[OF 1] Some by (simp add: run_view_def[of i "h_store h"])
    have v3: "\<exists>st. run_view i (h_store (h3 r)) = Some (st, False)" for r
      using try_storeD[OF 2] v1 by (auto simp: h3_def try_store_simps)
    have "running True (h_store h1) \<subseteq> running True (h_store h)" if "Status t = TaskStatusWaiting"
      using touches_running[OF t1, of True] v1 that by (auto simp: running_def)
    moreover have "running True (h_store (h3 r)) \<subseteq> running True (h_store h)" for r
      using touches_running[OF t3[of r], of True] v3[of r] by (auto simp: running_def)
    moreover have "h' = h \<or> Status t = TaskStatusWaiting \<and> h_store h' = h_store h1 \<or> (\<exists>r. h' = h3 r)"
      using assms(2) that
      by (auto simp: auto_test_def Let_def GetTask_def Some 1 2 h3_def[symmetric] split: if_splits option.splits)
    ultimately show ?thesis by auto
  qed (use assms(2) in \<open>simp add: auto_test_def GetTask_def\<close>)
qed

lemma test_loop_bound:
  assumes "handler_ok L h" "countGlobalTestsInProgress h \<le> n"
  shows "countGlobalTestsInProgress (test_loop w c maxTests cands n h) \<le> max maxTests n"
  using assms
proof (induction cands arbitrary: n h)
  case (Cons cand cands)
  obtain t prompt where cand: "cand = (t, prompt)" by fastforce
  obtain h1 started where a: "auto_test w (c (ID t)) (ID t) prompt h = (h1, started)" by fastforce
  note step = auto_test_step[OF Cons.prems(1) a]
  have ok: "handler_ok L h1" using step(1) Cons.prems(1) by (simp add: touches_def)
  have "countGlobalTestsInProgress h1 \<le> countGlobalTestsInProgress h" if "\<not> started"
    using card_mono[OF finite_running step(2)[OF that]] ok Cons.prems(1) by (simp add: counts[of L] handler_ok_def)
  then have n: "countGlobalTestsInProgress h1 \<le> (if started then n + 1 else n)"
    using touches_count(2)[OF Cons.prems(1) step(1)] Cons.prems(2) by auto
  show ?case
    using Cons.IH[OF ok n] Cons.prems(2) by (auto simp: cand a max_def split: if_splits)
qed simp

text \<open>
  (C19) One pass of the tester leaves at most as many test runs as the limit for tests allows or
  as were running already, whatever happens between its phases and whatever writes fail.
\<close>

theorem tests_within_limit:
  assumes "store_inv L (h_store (others h))"
  shows "tryAutoTest w now c others h = h
    \<or> countGlobalTestsInProgress (tryAutoTest w now c others h)
        \<le> max (maxTestConcurrentTasks (others h)) (countGlobalTestsInProgress (others h))"
proof -
  have "countGlobalTestsInProgress (settle_breaker name now h) = countGlobalTestsInProgress h" for name h
    by (simp add: settle_breaker_def countGlobalTestsInProgress_def)
  moreover have "handler_ok L (others h)" using assms(1) by (simp add: handler_ok_def)
  ultimately show ?thesis
    using test_loop_bound[OF _ order_refl, of L "others h"]
    by (auto simp: tryAutoTest_def Let_def)
qed

section \<open>Samples\<close>

lemma listed:
  assumes "store_inv L s"
  shows "t \<in> set (ListTasksByStatus st s) \<longleftrightarrow> map_get (tasks s) (ID t) = Some t \<and> Status t = st"
    "t \<in> set (ListTasks False s) \<longleftrightarrow> map_get (tasks s) (ID t) = Some t \<and> \<not> Archived t"
proof -
  have "set (indexed_tasks st s) = set (filter (\<lambda>t. Status t = st) (map snd (tasks s)))"
    using arg_cong[OF indexed_scan[OF assms, of st], of set_mset] by simp
  then show "t \<in> set (ListTasksByStatus st s) \<longleftrightarrow> map_get (tasks s) (ID t) = Some t \<and> Status t = st"
    using task_values(2)[OF assms, of t] by (simp add: ListTasksByStatus_def)
  show "t \<in> set (ListTasks False s) \<longleftrightarrow> map_get (tasks s) (ID t) = Some t \<and> \<not> Archived t"
    using task_values(2)[OF assms, of t] by (simp add: ListTasks_def)
qed

definition two_tasks :: "Task list" where
  "two_tasks = [sample_task, sample_task\<lparr>ID := 2\<rparr>]"

lemma two_tasks_store:
  "store_inv unary_lib (sample_store unary_lib two_tasks)" "running b (sample_store unary_lib two_tasks) = {}"
  "ListTasksByStatus TaskStatusWaiting (sample_store unary_lib two_tasks) = []"
proof -
  have d: "distinct (map ID two_tasks)" by (simp add: two_tasks_def)
  show inv: "store_inv unary_lib (sample_store unary_lib two_tasks)" using sample_store_ok(1)[OF d] .
  have g: "map_get (tasks (sample_store unary_lib two_tasks)) i = Some t \<Longrightarrow> Status t = TaskStatusBacklog" for i t
    unfolding sample_store_ok(4)[OF d] by (auto simp: two_tasks_def split: if_splits)
  then show "running b (sample_store unary_lib two_tasks) = {}" by (auto simp: running_def run_view_def)
  have "t \<notin> set (ListTasksByStatus TaskStatusWaiting (sample_store unary_lib two_tasks))" for t
    using listed(1)[OF inv, of t TaskStatusWaiting] g by auto
  then show "ListTasksByStatus TaskStatusWaiting (sample_store unary_lib two_tasks) = []" by (meson last_in_set)
qed

theorem promotion_within_limit_witness:
  "countGlobalInProgress (tryAutoPromote sample_world (\<lambda>_. 9) 9 (\<lambda>_ _. 9) (\<lambda>h. h) (sample_handler (sample_store unary_lib two_tasks))) \<le> 1"
proof -
  let ?h = "sample_handler (sample_store unary_lib two_tasks)"
  obtain h1 cands where p: "promote_phase1 sample_world (\<lambda>_. 9) 9 ?h = (h1, cands)" by fastforce
  have s: "h_store h1 = h_store ?h" "maxConcurrentTasks h1 = maxConcurrentTasks ?h" "filter isResume cands = []"
    using p by (auto simp: promote_phase1_def Let_def ensureScheduledPromoteTrigger_def two_tasks_store maxConcurrentTasks_def
        currentGroupParallelLimit_def split: if_splits option.splits)
  have c: "countGlobalInProgress ?h = 0" "countGlobalInProgress h1 = 0" "maxConcurrentTasks ?h = 1"
    using counts(1)[of unary_lib ?h] counts(1)[of unary_lib h1] s(1)
    by (simp_all add: two_tasks_store maxConcurrentTasks_def currentGroupParallelLimit_def)
  show ?thesis
    using promotion_within_limit[OF p, of unary_lib "\<lambda>h. h" _ "\<lambda>_ _. 9"] s c by (simp add: two_tasks_store split: if_splits)
qed

theorem tests_within_limit_witness:
  "countGlobalTestsInProgress (tryAutoTest sample_world 9 (\<lambda>_ _. 9) (\<lambda>h. h) (sample_handler (sample_store unary_lib two_tasks))) \<le> 1"
proof -
  let ?h = "sample_handler (sample_store unary_lib two_tasks)"
  have "countGlobalTestsInProgress ?h = 0" "maxTestConcurrentTasks ?h = 1"
    using counts(2)[of unary_lib ?h] by (simp_all add: two_tasks_store maxTestConcurrentTasks_def currentGroupParallelLimit_def)
  then show ?thesis
    using tests_within_limit[of unary_lib "\<lambda>h. h" ?h sample_world 9 "\<lambda>_ _. 9"] by (auto simp: two_tasks_store)
qed

end
