(* ===== verification/Automation_Safety.thy ===== *)
theory Automation_Safety
  imports Automation_Limits
begin

text \<open>
  Which tasks the automation touches: the promoter starts only tasks that are ready, the
  submitter only verified ones; where a check is not repeated under the lock or a counter is
  reset, the theorems show what goes wrong.
\<close>

section \<open>Reachability\<close>

definition adj_edges :: "(uuid, uuid list) gomap \<Rightarrow> (uuid \<times> uuid) set" where
  "adj_edges adj = {(a, b). b \<in> set (map_at [] adj a)}"

lemma leaves_visited:
  assumes "(x, target) \<in> (adj_edges adj)\<^sup>*" "x \<in> V" "target \<notin> V"
    "\<forall>v \<in> V. set (map_at [] adj v) \<subseteq> V \<union> S"
  shows "\<exists>b \<in> S. (b, target) \<in> (adj_edges adj)\<^sup>*"
  using assms(1,2)
proof (induction rule: converse_rtrancl_induct)
  case base
  then show ?case using assms(3) by simp
next
  case (step y z)
  then show ?case using assms(4) by (cases "z \<in> V") (auto simp: adj_edges_def)
qed

lemma reach_dfs_iff:
  assumes "target \<notin> set visited" "\<forall>v \<in> set visited. set (map_at [] adj v) \<subseteq> set visited \<union> set stack"
  shows "reach_dfs adj target stack visited \<longleftrightarrow> (\<exists>x \<in> set stack. (x, target) \<in> (adj_edges adj)\<^sup>*)"
  using assms
proof (induction adj target stack visited rule: reach_dfs.induct)
  case (2 adj target cur stack visited)
  let ?R = "(adj_edges adj)\<^sup>*"
  consider "cur = target" | "cur \<noteq> target" "cur \<in> set visited" | "cur \<noteq> target" "cur \<notin> set visited" by blast
  then show ?case
  proof cases
    case 2
    then have "(cur, target) \<in> ?R \<Longrightarrow> \<exists>b \<in> set stack. (b, target) \<in> ?R"
      using leaves_visited[of cur target adj "set visited" "set stack"] \<open>target \<notin> set visited\<close> 2 "2.prems"(2) by fastforce
    moreover have "\<forall>v \<in> set visited. set (map_at [] adj v) \<subseteq> set visited \<union> set stack" using 2 "2.prems"(2) by fastforce
    ultimately show ?thesis using "2.IH"(1)[OF 2 "2.prems"(1)] 2 by auto
  next
    case 3
    have "(cur, target) \<in> ?R \<longleftrightarrow> (\<exists>b \<in> set (map_at [] adj cur). (b, target) \<in> ?R)"
      using 3(1) by (auto simp: adj_edges_def elim: converse_rtranclE intro: converse_rtrancl_into_rtrancl)
    moreover have "\<forall>v \<in> set (cur # visited). set (map_at [] adj v) \<subseteq> set (cur # visited) \<union> set (map_at [] adj cur @ stack)"
      using "2.prems"(2) by fastforce
    ultimately show ?thesis using "2.IH"(2)[OF 3] "2.prems"(1) 3 by auto
  qed simp
qed simp

lemma depends_adj_edges:
  "b \<in> set (map_at [] (depends_adj L ts) a) \<longleftrightarrow>
    (\<exists>t \<in> set ts. ID t = a \<and> (\<exists>dep \<in> set (DependsOn t). uuid_Parse L dep = Some b))"
proof -
  let ?add = "\<lambda>t adj. fold (\<lambda>dep adj. case uuid_Parse L dep of
      Some i \<Rightarrow> map_put (ID t) (map_at [] adj (ID t) @ [i]) adj | None \<Rightarrow> adj) (DependsOn t) adj"
  have one: "b \<in> set (map_at [] (fold (\<lambda>dep adj. case uuid_Parse L dep of
      Some i \<Rightarrow> map_put k (map_at [] adj k @ [i]) adj | None \<Rightarrow> adj) ds adj) a) \<longleftrightarrow>
      b \<in> set (map_at [] adj a) \<or> a = k \<and> (\<exists>dep \<in> set ds. uuid_Parse L dep = Some b)" for k adj ds
    by (induction ds arbitrary: adj) (auto simp: map_at_def split: option.split)
  have "b \<in> set (map_at [] (fold ?add ts adj) a) \<longleftrightarrow> b \<in> set (map_at [] adj a)
      \<or> (\<exists>t \<in> set ts. ID t = a \<and> (\<exists>dep \<in> set (DependsOn t). uuid_Parse L dep = Some b))" for adj
    by (induction ts arbitrary: adj) (auto simp: one)
  then show ?thesis by (simp add: depends_adj_def)
qed

text \<open>
  The cycle check before a new dependency is complete: a task is reported as reachable exactly
  when a chain of dependencies leads to it, and the search ends on every graph, also a cyclic one.
\<close>

theorem taskReachable_correct:
  "taskReachable L ts start target \<longleftrightarrow>
    (start, target) \<in> {(a, b). \<exists>t \<in> set ts. ID t = a \<and> (\<exists>dep \<in> set (DependsOn t). uuid_Parse L dep = Some b)}\<^sup>*"
  using reach_dfs_iff[of target "[]" "depends_adj L ts" "[start]"]
  by (simp add: taskReachable_def taskReachableInAdj_def adj_edges_def depends_adj_edges)

section \<open>Promotion\<close>

lemma runs_same [simp]:
  "h_runs (h\<lparr>h_store := s\<rparr>) = h_runs h" "h_runs (on_breaker name f h) = h_runs h" "h_runs (trip name i reason now h) = h_runs h"
  "h_runs (cascadeArchiveThreadsForTask i h) = h_runs h" "h_runs (fst (ContainerCircuitAllow now h)) = h_runs h"
  "h_runs (RunBackground i p sid r h) = h_runs h @ [\<lparr>run_ID = i, run_prompt = p, run_session = sid, run_resumed = r\<rparr>]"
  by (simp_all add: on_breaker_def trip_def cascadeArchiveThreadsForTask_def ContainerCircuitAllow_def RunBackground_def split: prod.split)

lemma try_all_runs: "try_all fs h = (h', e) \<Longrightarrow> h_runs h' = h_runs h"
  by (induction fs arbitrary: h) (auto simp: try_store_def split: prod.splits option.splits sum.splits)

definition started :: "autoPromoteCandidate \<Rightarrow> launched_run \<Rightarrow> bool" where
  "started cd r \<longleftrightarrow> run_ID r = ID (cand_task cd) \<and> run_resumed r = isResume cd
     \<and> (\<not> isResume cd \<longrightarrow> run_prompt r = Prompt (cand_task cd)
          \<and> run_session r = (if FreshStart (cand_task cd) then [] else session_of (cand_task cd)))"

lemma promote_backlog_runs:
  "\<exists>rs. h_runs (fst (promote_backlog w c t h)) = h_runs h @ rs \<and> length rs \<le> 1
     \<and> (\<forall>r \<in> set rs. started \<lparr>cand_task = t, isResume = False\<rparr> r)"
proof -
  obtain h1 ok where a: "ContainerCircuitAllow (c 0) h = (h1, ok)" by fastforce
  have h1: "h_runs h1 = h_runs h" using runs_same(5)[of "c 0" h] a by simp
  obtain h2 e where t: "try_store (UpdateTaskStatus (ID t) TaskStatusInProgress (c 1) (c 2)) h1 = (h2, e)" by fastforce
  have h2: "h_runs h2 = h_runs h" using try_storeD[OF t] h1 by simp
  show ?thesis
    by (auto simp: promote_backlog_def Let_def a t[unfolded One_nat_def] h1 h2 started_def split: bool.split option.split)
qed

lemma auto_resume_runs:
  assumes "handler_ok L h"
  shows "\<exists>rs. h_runs (auto_resume w c i h) = h_runs h @ rs \<and> length rs \<le> 1 \<and> (\<forall>r \<in> set rs. run_ID r = i \<and> run_resumed r)"
proof (cases "map_get (tasks (h_store h)) i")
  case (Some t)
  then have i: "ID t = i" using assms inv_in_tasks(1)[of L "h_store h"] by (simp add: handler_ok_def)
  obtain h1 e where r: "try_all (resume_calls i c) h = (h1, e)" by fastforce
  show ?thesis
    by (auto simp: auto_resume_def GetTask_def Some resumeWaitingTaskWithFeedbackLocked_def Let_def i r try_all_runs[OF r]
        split: option.split)
qed (simp add: auto_resume_def GetTask_def)

lemma promote_loop_runs:
  assumes "handler_ok L h"
  shows "\<exists>rs cds. h_runs (promote_loop w c cands h) = h_runs h @ rs \<and> subseq cds cands \<and> list_all2 started cds rs"
  using assms
proof (induction cands arbitrary: h)
  case (Cons cd cands)
  define t where "t = cand_task cd"
  obtain h1 stop where h1: "(h1, stop) = (if isResume cd then (auto_resume w (c (ID t)) (ID t) h, False) else promote_backlog w (c (ID t)) t h)"
    by (metis prod.collapse)
  have ok: "handler_ok L h1"
    using h1 auto_resume_touches[OF Cons.prems, of "ID t" w "c (ID t)"] promote_backlog_step(1)[OF Cons.prems, of w "c (ID t)" t] Cons.prems
    by (auto simp: touches_def split: if_splits dest: arg_cong[of _ _ fst])
  obtain rs where rs: "h_runs h1 = h_runs h @ rs" "length rs \<le> 1" "\<forall>r \<in> set rs. started cd r"
    using h1 auto_resume_runs[OF Cons.prems, of w "c (ID t)" "ID t"] promote_backlog_runs[of w "c (ID t)" t h]
    by (cases "isResume cd") (auto simp: started_def t_def dest: arg_cong[of _ _ fst])
  obtain rs' cds where ih: "h_runs (promote_loop w c cands h1) = h_runs h1 @ rs'" "subseq cds cands" "list_all2 started cds rs'"
    using Cons.IH[OF ok] by blast
  have loop: "promote_loop w c (cd # cands) h = (if stop then h1 else promote_loop w c cands h1)"
    using h1 by (cases "isResume cd") (auto simp: t_def Let_def split: prod.split dest: arg_cong[of _ _ fst])
  have one: "list_all2 started (replicate (length rs) cd) rs" "subseq (replicate (length rs) cd) [cd]"
    using rs(2,3) by (cases rs; cases "tl rs"; simp)+
  show ?case
  proof (cases stop)
    case True
    have "subseq (replicate (length rs) cd) (cd # cands)" using list_emb_append2 one(2) subseq_order.order_trans[OF one(2)] by fastforce
    then show ?thesis using loop True rs(1) one(1) by auto
  next
    case False
    have "subseq (replicate (length rs) cd @ cds) ([cd] @ cands)" using one(2) ih(2) by (rule list_emb_append_mono)
    moreover have "list_all2 started (replicate (length rs) cd @ cds) (rs @ rs')" using one(1) ih(3) by (rule list_all2_appendI)
    ultimately show ?thesis using loop False rs(1) ih(1) by (metis append.assoc append_Cons append_Nil)
  qed
qed (auto intro: exI[of _ "[]"])

lemma subseq_distinct: "subseq xs ys \<Longrightarrow> distinct ys \<Longrightarrow> distinct xs"
  by (induction rule: list_emb.induct) (auto dest: list_emb_set)

lemma listed_distinct:
  assumes "store_inv L s"
  shows "distinct (map ID (ListTasksByStatus st s))"
proof -
  have "distinct (ListTasksByStatus st s)"
    using mset_eq_imp_distinct_iff[OF indexed_scan[OF assms, of st]] distinct_filter[OF task_values(1)[OF assms]]
    by (simp add: ListTasksByStatus_def)
  moreover have "inj_on ID (set (ListTasksByStatus st s))"
  proof (rule inj_onI)
    fix t u assume "t \<in> set (ListTasksByStatus st s)" "u \<in> set (ListTasksByStatus st s)" "ID t = ID u"
    then have "map_get (tasks s) (ID u) = Some t" "map_get (tasks s) (ID u) = Some u"
      using listed(1)[OF assms, of t st] listed(1)[OF assms, of u st] by simp_all
    then show "t = u" by simp
  qed
  ultimately show ?thesis by (simp add: distinct_map)
qed

lemma backlog_order_set:
  "set (backlog_order w clk h) = {t \<in> set (ListTasksByStatus TaskStatusBacklog (h_store h)). promotable w clk h t}"
  "store_inv L (h_store h) \<Longrightarrow> distinct (map ID (backlog_order w clk h))"
proof -
  define ts where "ts = filter (promotable w clk h) (ListTasksByStatus TaskStatusBacklog (h_store h))"
  define sc where "sc = map (\<lambda>t. (map_at 0 (CriticalPathScores (w_lib w) (map ID ts) (h_store h)) (ID t), t)) ts"
  have b: "backlog_order w clk h = map snd (SortFunc cmpScored sc)"
    by (simp add: backlog_order_def Let_def ts_def[symmetric] sc_def[symmetric])
  show "set (backlog_order w clk h) = {t \<in> set (ListTasksByStatus TaskStatusBacklog (h_store h)). promotable w clk h t}"
    by (auto simp: b sc_def ts_def image_image)
  assume inv: "store_inv L (h_store h)"
  have "mset (map ID (backlog_order w clk h)) = mset (map ID ts)"
    by (simp add: b sc_def image_mset.compositionality comp_def)
  moreover have "distinct (map ID ts)" unfolding ts_def by (rule distinct_map_filter[OF listed_distinct[OF inv]])
  ultimately show "distinct (map ID (backlog_order w clk h))" by (metis mset_eq_imp_distinct_iff)
qed

lemma promote_phase1_cands:
  assumes "store_inv L (h_store h)" "promote_phase1 w clk now h = (h1, cands)"
  shows "h_store h1 = h_store h" "h_runs h1 = h_runs h" "distinct (map (\<lambda>cd. ID (cand_task cd)) cands)"
    "cd \<in> set cands \<Longrightarrow> map_get (tasks (h_store h)) (ID (cand_task cd)) = Some (cand_task cd)
       \<and> (if isResume cd then Status (cand_task cd) = TaskStatusWaiting \<and> resume_ready (cand_task cd) \<and> TestFailCount (cand_task cd) < 3
          else Status (cand_task cd) = TaskStatusBacklog \<and> promotable w clk h (cand_task cd))"
proof -
  define rs where "rs = filter (\<lambda>t. resume_ready t \<and> TestFailCount t < 3) (ListTasksByStatus TaskStatusWaiting (h_store h))"
  obtain n where c: "cands = map (\<lambda>t. \<lparr>cand_task = t, isResume = True\<rparr>) rs
      @ map (\<lambda>t. \<lparr>cand_task = t, isResume = False\<rparr>) (take n (backlog_order w clk h))"
    using assms(2) by (cases "maxConcurrentTasks h - countGlobalInProgress h \<le> 0") (force simp: promote_phase1_def Let_def rs_def)+
  show "h_store h1 = h_store h" "h_runs h1 = h_runs h"
    using assms(2) by (auto simp: promote_phase1_def Let_def ensureScheduledPromoteTrigger_def split: if_splits option.splits)
  have r: "t \<in> set rs \<Longrightarrow> map_get (tasks (h_store h)) (ID t) = Some t \<and> Status t = TaskStatusWaiting \<and> resume_ready t \<and> TestFailCount t < 3" for t
    using listed(1)[OF assms(1), of t] by (simp add: rs_def)
  have b: "t \<in> set (take n (backlog_order w clk h)) \<Longrightarrow>
      map_get (tasks (h_store h)) (ID t) = Some t \<and> Status t = TaskStatusBacklog \<and> promotable w clk h t" for t
    using listed(1)[OF assms(1), of t] set_take_subset[of n "backlog_order w clk h"] by (auto simp: backlog_order_set(1))
  show "map_get (tasks (h_store h)) (ID (cand_task cd)) = Some (cand_task cd)
       \<and> (if isResume cd then Status (cand_task cd) = TaskStatusWaiting \<and> resume_ready (cand_task cd) \<and> TestFailCount (cand_task cd) < 3
          else Status (cand_task cd) = TaskStatusBacklog \<and> promotable w clk h (cand_task cd))" if "cd \<in> set cands"
    using that r b unfolding c by auto
  have "ID t \<noteq> ID u" if "t \<in> set rs" "u \<in> set (take n (backlog_order w clk h))" for t u
  proof
    assume "ID t = ID u"
    then have "t = u" using r[OF that(1)] b[OF that(2)] by (metis option.inject)
    then show False using r[OF that(1)] b[OF that(2)] by simp
  qed
  moreover have "distinct (map ID rs)" unfolding rs_def by (rule distinct_map_filter[OF listed_distinct[OF assms(1)]])
  moreover have "distinct (map ID (take n (backlog_order w clk h)))"
    using backlog_order_set(2)[OF assms(1), of w clk] by (simp add: take_map[symmetric] del: take_map)
  ultimately show "distinct (map (\<lambda>cd. ID (cand_task cd)) cands)" unfolding c by (auto simp: comp_def)
qed

lemma promoted_candidates:
  assumes "store_inv L (h_store h)"
  shows "\<exists>rs. h_runs (tryAutoPromote w clk now c (\<lambda>h. h) h) = h_runs h @ rs \<and> distinct (map run_ID rs)
    \<and> (\<forall>r \<in> set rs. \<exists>t. map_get (tasks (h_store h)) (run_ID r) = Some t
         \<and> (if run_resumed r then Status t = TaskStatusWaiting \<and> resume_ready t \<and> TestFailCount t < 3
            else Status t = TaskStatusBacklog \<and> promotable w clk h t \<and> run_prompt r = Prompt t))"
proof -
  obtain h1 cands where p: "promote_phase1 w clk now h = (h1, cands)" by fastforce
  note p1 = promote_phase1_cands[OF assms p]
  have "handler_ok L h1" using assms p1(1) by (simp add: handler_ok_def)
  then obtain rs cds where rs: "h_runs (promote_loop w c cands h1) = h_runs h @ rs" "subseq cds cands" "list_all2 started cds rs"
    using promote_loop_runs[of L h1 w c cands] p1(2) by auto
  have "map run_ID rs = map (\<lambda>cd. ID (cand_task cd)) cds"
    using rs(3) by (induction rule: list_all2_induct) (simp_all add: started_def)
  moreover have "distinct (map (\<lambda>cd. ID (cand_task cd)) cds)"
    using p1(3) subseq_map[OF rs(2), of "\<lambda>cd. ID (cand_task cd)"] by (metis subseq_distinct)
  moreover have "\<exists>cd \<in> set cands. started cd r" if "r \<in> set rs" for r
    using that rs(3) list_emb_set[OF rs(2)] by (metis list_all2_conv_all_nth in_set_conv_nth)
  then have "\<exists>t. map_get (tasks (h_store h)) (run_ID r) = Some t
      \<and> (if run_resumed r then Status t = TaskStatusWaiting \<and> resume_ready t \<and> TestFailCount t < 3
         else Status t = TaskStatusBacklog \<and> promotable w clk h t \<and> run_prompt r = Prompt t)" if "r \<in> set rs" for r
    using that p1(4) unfolding started_def by metis
  ultimately show ?thesis
    using rs(1) p1(2) p by (auto simp: tryAutoPromote_def intro: exI[of _ "[]"] exI[of _ rs])
qed



text \<open>
  When the write of a promoted task fails, the promoter reports an error and starts no agent,
  but the task stays in progress in memory: nothing runs it, and it takes up one of the slots.
\<close>

theorem promotion_write_failure_strands:
  assumes "store_inv L (h_store h)" "map_get (tasks (h_store h)) (ID t) = Some t" "Status t = TaskStatusBacklog" "\<not> IsTestRun t"
    "countGlobalInProgress h < maxConcurrentTasks h" "snd (ContainerCircuitAllow (c 0) h)" "\<not> taskLocked h (ID t)"
    "io_fails (backend (h_store h)) (IOSaveTask (ID t))" "h' = fst (promote_backlog w c t h)"
  shows "status_at (ID t) (h_store h') = Some TaskStatusInProgress \<and> h_runs h' = h_runs h
    \<and> countGlobalInProgress h' = countGlobalInProgress h + 1"
proof -
  let ?s = "h_store h"
  define s1 where "s1 = fst (UpdateTaskStatus (ID t) TaskStatusInProgress (c 1) (c 2) ?s)"
  obtain h1 where a: "ContainerCircuitAllow (c 0) h = (h1, True)" using assms(6) by (cases "ContainerCircuitAllow (c 0) h") simp
  have h1: "h_store h1 = ?s" "h_runs h1 = h_runs h" "taskLocked h1 = taskLocked h"
    using a by (auto simp: ContainerCircuitAllow_def split: prod.splits)
  obtain e where e: "snd (UpdateTaskStatus (ID t) TaskStatusInProgress (c 1) (c 2) ?s) = Inl e"
  proof -
    let ?t = "with_status TaskStatusInProgress (c 1) (c 2) t" and ?m = "move_status TaskStatusBacklog TaskStatusInProgress (ID t) ?s"
    have "\<not> save_ok (ID ?t) ?m" using assms(8) by (simp add: save_ok_def with_status_def Let_def)
    then have "\<exists>e. snd (store_task (ID t) ?t ?m) = Inl e" using store_task_eq[of "ID t" ?t ?m] by auto
    then obtain e' where "snd (store_task (ID t) ?t ?m) = Inl e'" by blast
    then have "\<exists>e. snd (UpdateTaskStatus (ID t) TaskStatusInProgress (c 1) (c 2) ?s) = Inl e"
      using assms(2,3) by (cases "store_task (ID t) ?t ?m")
        (simp add: UpdateTaskStatus_def Validate_cases AllowedTransitions_def[symmetric] set_status_def write_and_notify_def)
    then show thesis using that by blast
  qed
  have "try_store (UpdateTaskStatus (ID t) TaskStatusInProgress (c 1) (c 2)) h1 = (h1\<lparr>h_store := s1\<rparr>, Some e)"
    using e h1(1) by (cases "UpdateTaskStatus (ID t) TaskStatusInProgress (c 1) (c 2) ?s") (simp add: try_store_def s1_def)
  then have h': "h' = trip ''auto-promote'' (ID t) (w_text w e) (c 3) (h1\<lparr>h_store := s1\<rparr>)"
    using assms(5,7) h1(3) unfolding assms(9) by (simp add: promote_backlog_def Let_def a)
  have v: "run_view j s1 = (if j = ID t then Some (TaskStatusInProgress, False) else run_view j ?s)" for j
    using assms(2-4) by (simp add: s1_def run_view_def[of "ID t" ?s])
  have "running False s1 = insert (ID t) (running False ?s)" "ID t \<notin> running False ?s"
    using v assms(2,3) by (auto simp: running_def run_view_def[of "ID t" ?s])
  moreover have "store_inv L s1" unfolding s1_def using good_step_inv[OF transition_good(1)[OF assms(1)]] .
  ultimately have "countGlobalInProgress h' = countGlobalInProgress h + 1"
    using counts(1)[of L h] counts(1)[of L h'] assms(1) finite_running[of False ?s] by (simp add: h')
  moreover have "status_at (ID t) s1 = Some TaskStatusInProgress" using v[of "ID t"] by (auto simp: run_view_def status_at_def)
  ultimately show ?thesis using h1(2) by (simp add: h')
qed

section \<open>Submission\<close>

lemma commits_same [simp]:
  "h_commits (h\<lparr>h_store := s\<rparr>) = h_commits h" "h_commits (trip name i reason now h) = h_commits h"
  "h_commits (on_breaker name f h) = h_commits h" "h_commits (StopTaskWorker i h) = h_commits h"
  "h_commits (runCommitTransition i sid tr p h) = h_commits h @ [\<lparr>com_ID = i, com_session = sid, com_trigger = tr, com_prefix = p\<rparr>]"
  by (simp_all add: trip_def on_breaker_def StopTaskWorker_def runCommitTransition_def)

lemma submit_step:
  fixes i natural h w c
  defines "h' \<equiv> submitAutoSubmitCandidate w c (i, natural) h"
  shows "j \<noteq> i \<Longrightarrow> status_at j (h_store h') = status_at j (h_store h)"
    "\<exists>cs. h_commits h' = h_commits h @ cs \<and> length cs \<le> 1 \<and> (\<forall>lc \<in> set cs. com_ID lc = i)"
proof -
  define msg where "msg = (if natural then ''Auto-submit: task naturally completed, up to date, and no conflicts.''
      else ''Auto-submit: task verified with passing tests, up to date, and no conflicts.'')"
  define h1 where "h1 = closeFeedbackWaitingSpan background_ctx i (c 1) (insertEventOrLog background_ctx i EventTypeSystem (note_result msg) (c 0) h)"
  obtain h2 e2 where 2: "try_store (UpdateTaskStatus i TaskStatusCommitting (c 2) (c 3)) h1 = (h2, e2)" by fastforce
  obtain h3 e3 where 3: "try_store (ForceUpdateTaskStatus i TaskStatusDone (c 2) (c 3)) (StopTaskWorker i h1) = (h3, e3)" by fastforce
  have s: "j \<noteq> i \<Longrightarrow> status_at j (h_store h1) = status_at j (h_store h)" "h_commits h1 = h_commits h" by (simp_all add: h1_def)
  then have s2: "j \<noteq> i \<Longrightarrow> status_at j (h_store h2) = status_at j (h_store h)" "h_commits h2 = h_commits h"
    "j \<noteq> i \<Longrightarrow> status_at j (h_store h3) = status_at j (h_store h)" "h_commits h3 = h_commits h"
    using try_storeD[OF 2] try_storeD[OF 3] by (simp_all add: status_at_def effects)
  show "j \<noteq> i \<Longrightarrow> status_at j (h_store h') = status_at j (h_store h)"
    "\<exists>cs. h_commits h' = h_commits h @ cs \<and> length cs \<le> 1 \<and> (\<forall>lc \<in> set cs. com_ID lc = i)"
    using s s2 unfolding h'_def submitAutoSubmitCandidate_def Let_def prod.case msg_def[symmetric] h1_def[symmetric] 2 3
    by (auto split: sum.split option.split)
qed

lemma submit_fold:
  fixes cands :: "(uuid \<times> bool) list"
  shows "(\<forall>j. j \<notin> fst ` set cands \<longrightarrow>
      status_at j (h_store (fold (\<lambda>cand h. submitAutoSubmitCandidate w (c (fst cand)) cand h) cands h)) = status_at j (h_store h))
    \<and> (\<exists>cs. h_commits (fold (\<lambda>cand h. submitAutoSubmitCandidate w (c (fst cand)) cand h) cands h) = h_commits h @ cs
         \<and> subseq (map com_ID cs) (map fst cands))"
proof (induction cands arbitrary: h)
  case (Cons cand cands)
  obtain i n where cand: "cand = (i, n)" by fastforce
  define h1 where "h1 = submitAutoSubmitCandidate w (c i) (i, n) h"
  obtain cs where cs: "h_commits h1 = h_commits h @ cs" "length cs \<le> 1" "\<forall>lc \<in> set cs. com_ID lc = i"
    using submit_step(2)[of w "c i" i n h] unfolding h1_def by blast
  obtain cs' where cs': "h_commits (fold (\<lambda>cand h. submitAutoSubmitCandidate w (c (fst cand)) cand h) cands h1) = h_commits h1 @ cs'"
    "subseq (map com_ID cs') (map fst cands)" using Cons.IH[of h1] by blast
  have "subseq (map com_ID cs) [i]" using cs(2,3) by (cases cs; cases "tl cs"; simp)
  then have "subseq (map com_ID (cs @ cs')) (map fst (cand # cands))"
    using list_emb_append_mono[OF _ cs'(2)] by (fastforce simp: cand)
  then have "\<exists>cs. h_commits (fold (\<lambda>cand h. submitAutoSubmitCandidate w (c (fst cand)) cand h) (cand # cands) h) = h_commits h @ cs
      \<and> subseq (map com_ID cs) (map fst (cand # cands))"
    using cs(1) cs'(1) by (intro exI[of _ "cs @ cs'"]) (simp add: cand h1_def)
  moreover have "j \<notin> fst ` set (cand # cands) \<Longrightarrow>
      status_at j (h_store (fold (\<lambda>cand h. submitAutoSubmitCandidate w (c (fst cand)) cand h) (cand # cands) h)) = status_at j (h_store h)" for j
    using Cons.IH[of h1] submit_step(1)[of j i w "c i" n h] by (simp add: cand h1_def)
  ultimately show ?case by blast
qed (auto intro: exI[of _ "[]"])

lemma settle_same [simp]:
  "h_store (settle_breaker name now h) = h_store h" "h_commits (settle_breaker name now h) = h_commits h"
  by (simp_all add: settle_breaker_def)

lemma submitted_candidates:
  assumes "store_inv L (h_store h)" "h' = tryAutoSubmit w clk now c (\<lambda>h. h) h"
  shows "(\<forall>j. status_at j (h_store h') \<noteq> status_at j (h_store h) \<longrightarrow> (\<exists>t. map_get (tasks (h_store h)) j = Some t \<and> submittable w clk h t))
    \<and> (\<exists>cs. h_commits h' = h_commits h @ cs \<and> distinct (map com_ID cs)
         \<and> (\<forall>lc \<in> set cs. \<exists>t. map_get (tasks (h_store h)) (com_ID lc) = Some t \<and> submittable w clk h t))"
proof -
  define cands where "cands = submit_candidates w clk h"
  define h2 where "h2 = fold (\<lambda>cand h. submitAutoSubmitCandidate w (c (fst cand)) cand h) cands h"
  have h': "h' = h \<or> h' = settle_breaker ''auto-submit'' now h2"
    using assms(2) by (auto simp: tryAutoSubmit_def Let_def cands_def[symmetric] h2_def)
  have sub: "\<exists>t. map_get (tasks (h_store h)) j = Some t \<and> submittable w clk h t" if "j \<in> fst ` set cands" for j
    using that listed(2)[OF assms(1)] by (auto simp: cands_def submit_candidates_def)
  have d: "distinct (map fst cands)"
  proof -
    have "map fst cands = map ID (filter (submittable w clk h) (ListTasks False (h_store h)))"
      by (simp add: cands_def submit_candidates_def comp_def)
    moreover have "distinct (ListTasks False (h_store h))"
      using distinct_filter[OF task_values(1)[OF assms(1)]] by (simp add: ListTasks_def)
    moreover have "inj_on ID (set (ListTasks False (h_store h)))"
    proof (rule inj_onI)
      fix t u assume "t \<in> set (ListTasks False (h_store h))" "u \<in> set (ListTasks False (h_store h))" "ID t = ID u"
      then have "map_get (tasks (h_store h)) (ID u) = Some t" "map_get (tasks (h_store h)) (ID u) = Some u"
        using listed(2)[OF assms(1), of t] listed(2)[OF assms(1), of u] by simp_all
      then show "t = u" by simp
    qed
    ultimately show ?thesis by (simp add: distinct_map inj_on_def)
  qed
  obtain cs where cs: "h_commits h2 = h_commits h @ cs" "subseq (map com_ID cs) (map fst cands)"
    and st: "\<And>j. j \<notin> fst ` set cands \<Longrightarrow> status_at j (h_store h2) = status_at j (h_store h)"
    using submit_fold[of cands w c h] unfolding h2_def by blast
  have "\<exists>t. map_get (tasks (h_store h)) (com_ID lc) = Some t \<and> submittable w clk h t" if "lc \<in> set cs" for lc
    using sub[of "com_ID lc"] list_emb_set[OF cs(2), of "com_ID lc"] that by auto
  then have "\<exists>cs. h_commits h' = h_commits h @ cs \<and> distinct (map com_ID cs)
      \<and> (\<forall>lc \<in> set cs. \<exists>t. map_get (tasks (h_store h)) (com_ID lc) = Some t \<and> submittable w clk h t)"
    using h' cs(1) subseq_distinct[OF cs(2) d] by (auto intro: exI[of _ "[]"] exI[of _ cs])
  moreover have "\<forall>j. status_at j (h_store h') \<noteq> status_at j (h_store h) \<longrightarrow> (\<exists>t. map_get (tasks (h_store h)) j = Some t \<and> submittable w clk h t)"
    using h' st sub by (metis settle_same(1))
  ultimately show ?thesis by blast
qed


text \<open>
  (C23) The submitter does not repeat its check of the verdict under the lock: a candidate whose test
  fails between the phases and that waits again is committed.
\<close>

theorem submit_ignores_new_verdict:
  assumes "h_autosubmit h" "\<not> isOpen now (h_breakers h ''auto-submit'')" "submit_candidates w clk h = [(i, natural)]"
    "quiet L (h_store (others h))" "map_get (tasks (h_store (others h))) i = Some t" "Status t = TaskStatusWaiting" "\<not> IsTestRun t"
    "LastTestResult t = ''fail''" "worktrees_present w t" "session_of t \<noteq> []"
  shows "\<exists>lc. h_commits (tryAutoSubmit w clk now c others h) = h_commits (others h) @ [lc] \<and> com_ID lc = i
    \<and> status_at i (h_store (tryAutoSubmit w clk now c others h)) = Some TaskStatusCommitting"
proof -
  define msg where "msg = (if natural then ''Auto-submit: task naturally completed, up to date, and no conflicts.''
      else ''Auto-submit: task verified with passing tests, up to date, and no conflicts.'')"
  define h1 where "h1 = closeFeedbackWaitingSpan background_ctx i (c i 1)
      (insertEventOrLog background_ctx i EventTypeSystem (note_result msg) (c i 0) (others h))"
  have q: "quiet L (h_store h1)" "map_get (tasks (h_store h1)) i = Some t" using assms(4,5) by (simp_all add: h1_def)
  have ok: "try_store (UpdateTaskStatus i TaskStatusCommitting (c i 2) (c i 3)) h1 =
      (h1\<lparr>h_store := fst (UpdateTaskStatus i TaskStatusCommitting (c i 2) (c i 3) (h_store h1))\<rparr>, None)"
    by (rule try_store_ok, rule status_ok(2)[OF q]) (simp add: assms(6))
  have "h_commits h1 = h_commits (others h)" by (simp add: h1_def)
  moreover have "status_at i (fst (UpdateTaskStatus i TaskStatusCommitting (c i 2) (c i 3) (h_store h1))) = Some TaskStatusCommitting"
    using q(2) assms(6) by (simp add: status_at_def effects)
  moreover have "submitAutoSubmitCandidate w (c i) (i, natural) (others h) =
      runCommitTransition i (session_of t) TriggerAutoSubmit ''auto-submit: commit failed: ''
        (insertEventOrLog background_ctx i EventTypeStateChange
          (state_change_by TaskStatusWaiting TaskStatusCommitting TriggerAutoSubmit) (c i 5)
          (h1\<lparr>h_store := fst (UpdateTaskStatus i TaskStatusCommitting (c i 2) (c i 3) (h_store h1))\<rparr>))"
    using assms(5-7,9,10)
    unfolding submitAutoSubmitCandidate_def Let_def prod.case msg_def[symmetric] h1_def[symmetric] ok by (simp add: GetTask_def)
  ultimately show ?thesis using assms(1-3) by (simp add: tryAutoSubmit_def)
qed

section \<open>Witnesses\<close>

lemma distinct_single: "distinct xs \<Longrightarrow> set xs = {x} \<Longrightarrow> xs = [x]"
  by (cases xs; cases "tl xs") auto

definition faulty_store :: Store where
  "faulty_store = (sample_store unary_lib two_tasks)\<lparr>backend := (backend (sample_store unary_lib two_tasks))\<lparr>io_fails := \<lambda>_. True\<rparr>\<rparr>"

theorem promotion_write_failure_strands_witness:
  "let h' = fst (promote_backlog sample_world (\<lambda>_. 9) sample_task (sample_handler faulty_store))
   in status_at 1 (h_store h') = Some TaskStatusInProgress \<and> h_runs h' = [] \<and> countGlobalInProgress h' = 1"
proof -
  have inv: "store_inv unary_lib (h_store (sample_handler faulty_store))"
    using faults_inv[OF two_tasks_store(1)] by (simp add: faulty_store_def)
  have t: "map_get (tasks (h_store (sample_handler faulty_store))) (ID sample_task) = Some sample_task"
    using sample_store_ok(4)[of two_tasks unary_lib] by (simp add: faulty_store_def two_tasks_def)
  have "running False faulty_store = {}"
    using two_tasks_store(2)[of False] by (simp add: faulty_store_def running_def run_view_def)
  then have "countGlobalInProgress (sample_handler faulty_store) = 0" using counts(1)[OF inv] by simp
  moreover have "snd (ContainerCircuitAllow 9 (sample_handler faulty_store))"
    by (simp add: ContainerCircuitAllow_def Allow_def NewBreaker_def)
  moreover have "\<not> IsTestRun sample_task" by (simp add: sample_task_def zero_task_def)
  ultimately show ?thesis
    using promotion_write_failure_strands[OF inv t, of "\<lambda>_. 9" _ sample_world]
    by (simp add: maxConcurrentTasks_def currentGroupParallelLimit_def) (simp add: faulty_store_def)
qed

definition passed_task :: Task where
  "passed_task = waiting_task\<lparr>LastTestResult := ''pass''\<rparr>"

lemma passed_sample:
  "map_get (tasks (sample_store unary_lib [passed_task])) 1 = Some passed_task" "ID passed_task = 1"
  "quiet unary_lib (sample_store unary_lib [passed_task])"
  "submit_candidates sample_world (\<lambda>_. 9) (sample_handler (sample_store unary_lib [passed_task])) = [(1, False)]"
proof -
  have d: "distinct (map ID [passed_task])" by simp
  show "ID passed_task = 1" by (simp add: passed_task_def waiting_task_def)
  then show g: "map_get (tasks (sample_store unary_lib [passed_task])) 1 = Some passed_task"
    using sample_store_ok(4)[OF d, of unary_lib 1] by simp
  show "quiet unary_lib (sample_store unary_lib [passed_task])" by (rule sample_quiet[OF d])
  have a: "\<not> Archived passed_task" by (simp add: passed_task_def waiting_task_def)
  have "set (ListTasks False (sample_store unary_lib [passed_task])) = {passed_task}"
    using listed(2)[OF sample_store_ok(1)[OF d], of _ unary_lib] sample_store_ok(4)[OF d, of unary_lib] g a
    by (auto simp: \<open>ID passed_task = 1\<close> split: if_splits)
  moreover have "distinct (ListTasks False (sample_store unary_lib [passed_task]))"
    using distinct_filter[OF task_values(1)[OF sample_store_ok(1)[OF d]]] by (simp add: ListTasks_def)
  ultimately have "ListTasks False (sample_store unary_lib [passed_task]) = [passed_task]"
    by (rule distinct_single[rotated])
  moreover have "submittable sample_world (\<lambda>_. 9) (sample_handler s) passed_task" "\<not> naturallyComplete (sample_handler s) passed_task" for s
    by (simp_all add: submittable_def verified_def naturallyComplete_def reviewSupersedesTest_def worktrees_present_def stale_fetch_def
        tracks_remote_def passed_task_def waiting_task_def missingTaskWorktrees_def sample_task_def zero_task_def)
  ultimately show "submit_candidates sample_world (\<lambda>_. 9) (sample_handler (sample_store unary_lib [passed_task])) = [(1, False)]"
    by (simp add: submit_candidates_def \<open>ID passed_task = 1\<close>)
qed


theorem submit_ignores_new_verdict_witness:
  "let others = on_store (\<lambda>s. fst (UpdateTaskTestRun 1 False ''fail'' 8 s));
       h = tryAutoSubmit sample_world (\<lambda>_. 9) 9 (\<lambda>_ _. 9) others (sample_handler (sample_store unary_lib [passed_task]))
   in map com_ID (h_commits h) = [1] \<and> status_at 1 (h_store h) = Some TaskStatusCommitting"
proof -
  let ?others = "on_store (\<lambda>s. fst (UpdateTaskTestRun 1 False ''fail'' 8 s))" and ?h = "sample_handler (sample_store unary_lib [passed_task])"
  define t where "t = stamped ((set_test_run False ''fail'' passed_task)\<lparr>UpdatedAt := 8\<rparr>)"
  have g: "map_get (tasks (h_store (?others ?h))) 1 = Some t"
    using passed_sample(1) by (simp add: on_store_def effects t_def)
  have q: "quiet unary_lib (h_store (?others ?h))"
    using quiet_step[OF passed_sample(3) store_call_good[OF op_UpdateTaskTestRun]] passed_sample(3) by (simp add: on_store_def quiet_inv)
  have f: "Status t = TaskStatusWaiting" "\<not> IsTestRun t" "LastTestResult t = ''fail''" "worktrees_present sample_world t" "session_of t \<noteq> []"
    by (simp_all add: t_def set_test_run_def passed_task_def waiting_task_def worktrees_present_def missingTaskWorktrees_def session_of_def Let_def)
  have o: "\<not> isOpen 9 (h_breakers ?h ''auto-submit'')" by (simp add: isOpen_def IsOpen_def newWatcherBreaker_def NewBackoff_def)
  show ?thesis
    using submit_ignores_new_verdict[where others = ?others and c = "\<lambda>_ _. 9", OF _ o passed_sample(4) q g f]
    by (auto simp: Let_def on_store_def)
qed

end
