(* ===== verification/Automation_Loops.thy ===== *)
theory Automation_Loops
  imports Automation_Safety
begin

text \<open>
  The watchers and the runner together, over many rounds. A task can fail, be reset, be promoted
  and fail again, and a task can fail its test, be resumed with the feedback and be tested again.
  Both loops have a cap; the theorems show that the counters they compare are reset in every round.
\<close>

section \<open>Quiet runs\<close>

lemma quiet_call: "quiet L s \<Longrightarrow> store_call L s s' \<Longrightarrow> quiet L s'"
  using quiet_step store_call_good quiet_inv by blast

lemma quiet_do_all:
  assumes "\<forall>f \<in> set fs. \<forall>s. store_call L s (f s)" "quiet L s"
  shows "quiet L (do_all fs s)"
  using assms by (induction fs arbitrary: s) (auto intro: quiet_call)

lemma retry_ok:
  assumes "quiet L s" "map_get (tasks s) i = Some t"
  shows "snd (ResetTaskForRetry L i p f n1 n2 s) = Inr ()"
  using quiet_save_ok[OF assms]
  by (simp add: ResetTaskForRetry_def assms(2) reset_for_retry_def updateIndexEntry_def
      write_and_notify_ok save_ok_def split: option.split)

section \<open>Set-up failures\<close>

definition retry_view :: "uuid \<Rightarrow> Store \<Rightarrow> (TaskStatus \<times> bool \<times> FailureCategory \<times> (FailureCategory, int) gomap option \<times> int) option" where
  "retry_view i s = map_option (\<lambda>t. (Status t, IsTestRun t, FailureCategory t, AutoRetryBudget t, AutoRetryCount t)) (map_get (tasks s) i)"

lemma retry_view_effects [simp]:
  "retry_view j (bg_event i ty data now s) = retry_view j s"
  "retry_view j (fst (UpdateTaskEnvironment i env now s)) = retry_view j s"
  "retry_view j (fst (UpdateTaskResult i r sid sr turns now s)) = retry_view j s"
  "retry_view j (fst (SetTaskFailureCategory i cat now s)) =
     (if j = i then map_option (\<lambda>(st, b, _, rest). (st, b, cat, rest)) (retry_view j s) else retry_view j s)"
  "retry_view j (fst (UpdateTaskStatus i st n1 n2 s)) =
     (if j = i then map_option (\<lambda>(old, rest). (if st \<in> set (AllowedTransitions old) then st else old, rest)) (retry_view j s)
      else retry_view j s)"
  "retry_view j (fst (ResetTaskForRetry L i p f n1 n2 s)) =
     (if j = i then map_option (\<lambda>_. (TaskStatusBacklog, False, FailureCategoryNone, freshAutoRetryBudget, 0)) (retry_view j s)
      else retry_view j s)"
  by (cases "map_get (tasks s) i"; auto simp: retry_view_def effects reset_for_retry_def)+

definition setup_fails :: "run_env \<Rightarrow> bool" where
  "setup_fails E \<longleftrightarrow> re_agentic E = None \<and> (\<forall>t. re_flowSlug E t = ''implement'')
     \<and> (\<forall>p. \<not> re_worktreeValid E p) \<and> (\<forall>t. \<exists>e. re_setupWorktrees E t = Inl e)"

lemma Run_setup_fails:
  assumes "setup_fails E" "retry_view i s = Some (TaskStatusInProgress, False, cat, b, n)" "quiet L s"
  obtains s' where "Run i p sid False E reps s = Some s'" "quiet L s'"
    "retry_view i s' = Some (TaskStatusFailed, False, FailureCategoryWorktree, b, n)"
    "\<And>j. j \<noteq> i \<Longrightarrow> retry_view j s' = retry_view j s"
proof -
  obtain t where t: "map_get (tasks s) i = Some t" using assms(2) by (auto simp: retry_view_def)
  let ?c = "re_clock E"
  obtain e where e: "re_setupWorktrees E t = Inl e" using assms(1) unfolding setup_fails_def by blast
  have v: "\<not> (WorktreePaths t \<noteq> [] \<and> list_all (\<lambda>(repo, wt). re_worktreeValid E wt) (WorktreePaths t))"
    using assms(1) by (cases "WorktreePaths t") (auto simp: setup_fails_def)
  define fs where "fs = [\<lambda>s. fst (UpdateTaskEnvironment i (re_execEnv E t) (?c 111) s),
      bg_event i EventTypeSpanStart (span ''worktree_setup'' ''worktree_setup'') (?c 100),
      bg_event i EventTypeSpanEnd (span ''worktree_setup'' ''worktree_setup'') (?c 101),
      \<lambda>s. fst (UpdateTaskStatus i TaskStatusFailed (?c 102) (?c 103) s),
      \<lambda>s. fst (SetTaskFailureCategory i FailureCategoryWorktree (?c 104) s),
      \<lambda>s. fst (UpdateTaskResult i (err_msg e) sid [] (Turns t) (?c 105) s),
      bg_event i EventTypeError (DataStrings [(''error'', err_msg e)]) (?c 106),
      bg_event i EventTypeStateChange (state_change TaskStatusInProgress TaskStatusFailed) (?c 107)]"
  have "Run i p sid False E reps s = Some (do_all fs s)"
    using assms(1) v by (auto simp: Run_def Let_def GetTask_def t setup_fails_def ensure_worktrees_def e fs_def)
  moreover have "quiet L (do_all fs s)"
    by (rule quiet_do_all[OF _ assms(3)]) (auto simp: fs_def intro: store_call.intros)
  moreover have "retry_view i (do_all fs s) = Some (TaskStatusFailed, False, FailureCategoryWorktree, b, n)"
    using assms(2) by (simp add: fs_def)
  moreover have "j \<noteq> i \<Longrightarrow> retry_view j (do_all fs s) = retry_view j s" for j by (simp add: fs_def)
  ultimately show thesis by (rule that)
qed

text \<open>
  One round of the loop for a task that has failed: the retrier resets it, the promoter starts it, and
  the runner runs it.
\<close>

definition retry_round :: "world \<Rightarrow> uuid \<Rightarrow> (nat \<Rightarrow> time) \<times> run_env \<Rightarrow> Handler \<Rightarrow> Handler" where
  "retry_round w i r h =
     (case r of (c, E) \<Rightarrow>
      case GetTask i (h_store h) of
        Inl _ \<Rightarrow> h
      | Inr t \<Rightarrow>
          let h1 = tryAutoRetry_handler w c t h in
          (case GetTask i (h_store h1) of
             Inl _ \<Rightarrow> h1
           | Inr t1 \<Rightarrow>
               let h2 = fst (promote_backlog w c t1 h1) in
               if length (h_runs h2) = length (h_runs h1) then h2
               else let lr = last (h_runs h2) in
                 (case Run (run_ID lr) (run_prompt lr) (run_session lr) (run_resumed lr) E [] (h_store h2) of
                    Some s \<Rightarrow> h2\<lparr>h_store := s\<rparr>
                  | None \<Rightarrow> h2)))"

text \<open>The state between two rounds: the task has failed in set-up, may be retried, and nothing else runs.\<close>

definition stuck_setup :: "lib \<Rightarrow> uuid \<Rightarrow> Handler \<Rightarrow> bool" where
  "stuck_setup L i h \<longleftrightarrow> quiet L (h_store h) \<and> 0 < maxConcurrentTasks h \<and> br_state (h_circuit h) = Closed
     \<and> \<not> taskLocked h i \<and> openUntil (wb_breaker (h_breakers h ''auto-retry'')) = 0
     \<and> (\<exists>b n. retry_view i (h_store h) = Some (TaskStatusFailed, False, FailureCategoryWorktree, b, n)
          \<and> 0 < budget_at b FailureCategoryWorktree \<and> n < MaxAutoRetries)
     \<and> (\<forall>j. j \<noteq> i \<longrightarrow> (case retry_view j (h_store h) of Some (st, rest) \<Rightarrow> st \<noteq> TaskStatusInProgress | None \<Rightarrow> True))"

lemma none_running:
  assumes "quiet L (h_store h)" "\<forall>j. case retry_view j (h_store h) of Some (st, rest) \<Rightarrow> st \<noteq> TaskStatusInProgress | None \<Rightarrow> True"
  shows "countGlobalInProgress h = 0"
proof -
  have "running False (h_store h) = {}"
    using assms(2) by (auto simp: running_def run_view_def retry_view_def split: option.splits)
  then show ?thesis using counts(1)[OF quiet_inv[OF assms(1)]] by simp
qed

lemma retry_resets:
  assumes "stuck_setup (w_lib w) i h" "map_get (tasks (h_store h)) i = Some t" "h1 = tryAutoRetry_handler w c t h"
  shows "quiet (w_lib w) (h_store h1)" "maxConcurrentTasks h1 = maxConcurrentTasks h" "h_circuit h1 = h_circuit h" "taskLocked h1 = taskLocked h"
    "openUntil (wb_breaker (h_breakers h1 ''auto-retry'')) = 0" "h_runs h1 = h_runs h"
    "retry_view j (h_store h1) = (if j = i then Some (TaskStatusBacklog, False, FailureCategoryNone, freshAutoRetryBudget, 0) else retry_view j (h_store h))"
proof -
  have q: "quiet (w_lib w) (h_store h)" using assms(1) by (simp add: stuck_setup_def)
  have i: "ID t = i" using inv_in_tasks(1)[OF quiet_inv[OF q] assms(2)] .
  let ?f = "ResetTaskForRetry (w_lib w) i (Prompt t) False (c 2) (c 3)"
  have ok: "try_store ?f h = (h\<lparr>h_store := fst (?f (h_store h))\<rparr>, None)"
    by (rule try_store_ok, rule retry_ok[OF q assms(2)])
  define h2 where "h2 = on_breaker ''auto-retry'' recordSuccess (h\<lparr>h_store := fst (?f (h_store h))\<rparr>)"
  obtain d where h1: "h1 = insertEventOrLog background_ctx i EventTypeStateChange d (c 5) h2"
    using assms i by (auto simp: tryAutoRetry_handler_def Let_def stuck_setup_def retry_view_def retryableCategories_def
        isOpen_def IsOpen_def ok h2_def)
  have "quiet (w_lib w) (h_store h2)" using quiet_call[OF q] by (simp add: h2_def store_call.intros)
  then show "quiet (w_lib w) (h_store h1)" by (simp add: h1)
  show "maxConcurrentTasks h1 = maxConcurrentTasks h" by (simp add: h1 h2_def)
  show "h_circuit h1 = h_circuit h" "taskLocked h1 = taskLocked h" "h_runs h1 = h_runs h"
    "openUntil (wb_breaker (h_breakers h1 ''auto-retry'')) = 0"
    by (simp_all add: h1 h2_def insertEventOrLog_def on_store_def on_breaker_def recordSuccess_def bb_RecordSuccess_def)
  have "retry_view j (h_store h1) = retry_view j (h_store h2)"
    by (simp add: h1 retry_view_def)
  then show "retry_view j (h_store h1) = (if j = i then Some (TaskStatusBacklog, False, FailureCategoryNone, freshAutoRetryBudget, 0) else retry_view j (h_store h))"
    using assms(2) by (simp add: h2_def) (simp add: retry_view_def)
qed

lemma promote_starts:
  assumes "quiet L (h_store h)" "0 < maxConcurrentTasks h" "br_state (h_circuit h) = Closed" "\<not> taskLocked h i"
    "map_get (tasks (h_store h)) i = Some t" "Status t = TaskStatusBacklog" "countGlobalInProgress h = 0" "h1 = fst (promote_backlog w c t h)"
  shows "quiet L (h_store h1)" "maxConcurrentTasks h1 = maxConcurrentTasks h" "h_circuit h1 = h_circuit h" "taskLocked h1 = taskLocked h"
    "openUntil (wb_breaker (h_breakers h1 ''auto-retry'')) = openUntil (wb_breaker (h_breakers h ''auto-retry''))"
    "\<exists>p sid. h_runs h1 = h_runs h @ [\<lparr>run_ID = i, run_prompt = p, run_session = sid, run_resumed = False\<rparr>]"
    "retry_view j (h_store h1) = (if j = i then map_option (\<lambda>(st, rest). (TaskStatusInProgress, rest)) (retry_view j (h_store h)) else retry_view j (h_store h))"
proof -
  have i: "ID t = i" using inv_in_tasks(1)[OF quiet_inv[OF assms(1)] assms(5)] .
  let ?f = "UpdateTaskStatus i TaskStatusInProgress (c 1) (c 2)"
  have a: "TaskStatusInProgress \<in> set (AllowedTransitions (Status t))" using assms(6) by simp
  have ok: "try_store ?f h = (h\<lparr>h_store := fst (?f (h_store h))\<rparr>, None)"
    by (rule try_store_ok, rule status_ok(2)[OF assms(1,5) a])
  define h2 where "h2 = h\<lparr>h_store := fst (?f (h_store h))\<rparr>"
  have allow: "ContainerCircuitAllow (c 0) h = (h, True)" using assms(3) by (simp add: ContainerCircuitAllow_def Allow_def)
  obtain d p sid where h1: "h1 = on_breaker ''auto-promote'' recordSuccess
      (RunBackground i p sid False (cascadeArchiveThreadsForTask i (insertEventOrLog background_ctx i EventTypeStateChange d (c 4) h2)))"
    using assms(2,4,7) unfolding assms(8) by (simp add: promote_backlog_def Let_def i allow ok[unfolded One_nat_def] h2_def)
  have "quiet L (h_store h2)" using quiet_call[OF assms(1)] by (simp add: h2_def store_call.intros)
  then show "quiet L (h_store h1)" by (simp add: h1)
  show "maxConcurrentTasks h1 = maxConcurrentTasks h" by (simp add: h1 h2_def)
  show "h_circuit h1 = h_circuit h" "taskLocked h1 = taskLocked h"
    "openUntil (wb_breaker (h_breakers h1 ''auto-retry'')) = openUntil (wb_breaker (h_breakers h ''auto-retry''))"
    "\<exists>p sid. h_runs h1 = h_runs h @ [\<lparr>run_ID = i, run_prompt = p, run_session = sid, run_resumed = False\<rparr>]"
    by (simp_all add: h1 h2_def insertEventOrLog_def on_store_def on_breaker_def RunBackground_def cascadeArchiveThreadsForTask_def)
  have "retry_view j (h_store h1) = retry_view j (h_store h2)"
    by (simp add: h1 retry_view_def)
  then show "retry_view j (h_store h1) = (if j = i then map_option (\<lambda>(st, rest). (TaskStatusInProgress, rest)) (retry_view j (h_store h)) else retry_view j (h_store h))"
    using assms(5) a by (simp add: h2_def) (simp add: retry_view_def)
qed

lemma fresh_worktree_budget: "0 < budget_at freshAutoRetryBudget FailureCategoryWorktree"
  by (simp add: freshAutoRetryBudget_def defaultAutoRetryBudget_def budget_at_def map_at_def)

lemma retry_round_step:
  assumes "stuck_setup (w_lib w) i h" "setup_fails E"
  shows "stuck_setup (w_lib w) i (retry_round w i (c, E) h)" "length (h_runs (retry_round w i (c, E) h)) = length (h_runs h) + 1"
    "retry_view i (h_store (retry_round w i (c, E) h)) =
       Some (TaskStatusFailed, False, FailureCategoryWorktree, freshAutoRetryBudget, 0)"
proof -
  obtain t where t: "map_get (tasks (h_store h)) i = Some t"
    using assms(1) by (auto simp: stuck_setup_def retry_view_def)
  define h1 where "h1 = tryAutoRetry_handler w c t h"
  note r1 = retry_resets[OF assms(1) t h1_def]
  obtain t1 where t1: "map_get (tasks (h_store h1)) i = Some t1" "Status t1 = TaskStatusBacklog"
    using r1(7)[of i] by (auto simp: retry_view_def)
  have z: "countGlobalInProgress h1 = 0"
    by (rule none_running[OF r1(1)]) (use assms(1) r1(7) in \<open>auto simp: stuck_setup_def\<close>)
  have p0: "0 < maxConcurrentTasks h1" "br_state (h_circuit h1) = Closed" "\<not> taskLocked h1 i"
    using assms(1) r1(2-4) by (simp_all add: stuck_setup_def)
  define h2 where "h2 = fst (promote_backlog w c t1 h1)"
  note r2 = promote_starts[OF r1(1) p0 t1 z h2_def]
  obtain p sid where p: "h_runs h2 = h_runs h1 @ [\<lparr>run_ID = i, run_prompt = p, run_session = sid, run_resumed = False\<rparr>]"
    using r2(6) by blast
  have v2: "retry_view i (h_store h2) = Some (TaskStatusInProgress, False, FailureCategoryNone, freshAutoRetryBudget, 0)"
    using r1(7)[of i] r2(7)[of i] by simp
  obtain s where s: "Run i p sid False E [] (h_store h2) = Some s" "quiet (w_lib w) s"
    "retry_view i s = Some (TaskStatusFailed, False, FailureCategoryWorktree, freshAutoRetryBudget, 0)"
    "\<And>j. j \<noteq> i \<Longrightarrow> retry_view j s = retry_view j (h_store h2)"
    using Run_setup_fails[OF assms(2) v2 r2(1), of p sid "[]"] by blast
  have e: "retry_round w i (c, E) h = h2\<lparr>h_store := s\<rparr>"
    by (simp add: retry_round_def GetTask_def t h1_def[symmetric] t1(1) h2_def[symmetric] Let_def p s(1))
  show "length (h_runs (retry_round w i (c, E) h)) = length (h_runs h) + 1" by (simp add: e p r1(6))
  show "retry_view i (h_store (retry_round w i (c, E) h)) =
      Some (TaskStatusFailed, False, FailureCategoryWorktree, freshAutoRetryBudget, 0)" by (simp add: e s(3))
  have "maxConcurrentTasks (h2\<lparr>h_store := s\<rparr>) = maxConcurrentTasks h2"
    by simp
  then show "stuck_setup (w_lib w) i (retry_round w i (c, E) h)"
    using assms(1) s(2-4) r1(2-5,7) r2(2-5,7) fresh_worktree_budget by (simp add: e stuck_setup_def)
qed

text \<open>
  (C24) The cap on automatic retries does not stop a task whose worktrees cannot be set up. Whatever
  the number of rounds of retrier, promoter and runner, every round starts the task once more, and
  afterwards it has failed with a retry count of zero: the reset of the retry clears the counter and
  the budget that it is checked against.
\<close>

theorem retry_cap_ineffective:
  assumes "stuck_setup (w_lib w) i h" "\<forall>(c, E) \<in> set rounds. setup_fails E" "rounds \<noteq> []" "h' = fold (retry_round w i) rounds h"
  shows "length (h_runs h') = length (h_runs h) + length rounds
    \<and> (\<exists>t. map_get (tasks (h_store h')) i = Some t \<and> Status t = TaskStatusFailed \<and> AutoRetryCount t = 0
         \<and> 0 < budget_at (AutoRetryBudget t) (FailureCategory t))"
proof -
  have all: "stuck_setup (w_lib w) i (fold (retry_round w i) rs h)
      \<and> length (h_runs (fold (retry_round w i) rs h)) = length (h_runs h) + length rs"
    if "\<forall>(c, E) \<in> set rs. setup_fails E" for rs
    using that
  proof (induction rs rule: rev_induct)
    case (snoc r rs)
    then show ?case using retry_round_step(1,2)[of w i "fold (retry_round w i) rs h" "snd r" "fst r"] by auto
  qed (simp add: assms(1))
  obtain rs c E where rs: "rounds = rs @ [(c, E)]" using assms(3) by (metis rev_exhaust surj_pair)
  have "retry_view i (h_store h') = Some (TaskStatusFailed, False, FailureCategoryWorktree, freshAutoRetryBudget, 0)"
    using retry_round_step(3)[of w i "fold (retry_round w i) rs h" E c] all[of rs] assms(2,4) by (simp add: rs)
  then show ?thesis
    using all[OF assms(2)] fresh_worktree_budget by (auto simp: assms(4) retry_view_def)
qed

section \<open>Samples\<close>

definition failed_task :: Task where
  "failed_task = sample_task\<lparr>Status := TaskStatusFailed, FailureCategory := FailureCategoryWorktree, AutoRetryBudget := freshAutoRetryBudget\<rparr>"

definition broken_env :: run_env where
  "broken_env = sample_env\<lparr>re_worktreeValid := (\<lambda>_. False), re_setupWorktrees := (\<lambda>_. Inl \<lparr>err_msg = ''no space left'', err_deadline = False\<rparr>)\<rparr>"

lemma failed_sample: "stuck_setup unary_lib 1 (sample_handler (sample_store unary_lib [failed_task]))"
proof -
  have d: "distinct (map ID [failed_task])" by simp
  have i: "ID failed_task = 1" by (simp add: failed_task_def)
  have v: "retry_view j (sample_store unary_lib [failed_task]) =
      (if j = 1 then Some (TaskStatusFailed, False, FailureCategoryWorktree, freshAutoRetryBudget, 0) else None)" for j
    using sample_store_ok(4)[OF d, of unary_lib j] i by (simp add: retry_view_def) (simp add: failed_task_def sample_task_def zero_task_def)
  show ?thesis
    using sample_quiet[OF d] fresh_worktree_budget
    by (simp add: stuck_setup_def v newWatcherBreaker_def NewBackoff_def NewBreaker_def maxConcurrentTasks_def currentGroupParallelLimit_def)
qed

theorem retry_cap_ineffective_witness:
  "length (h_runs (fold (retry_round sample_world 1) (replicate 10 (\<lambda>n. int n, broken_env))
     (sample_handler (sample_store unary_lib [failed_task])))) = 10"
proof -
  have "setup_fails broken_env" by (simp add: setup_fails_def broken_env_def sample_env_def)
  then show ?thesis
    using retry_cap_ineffective[of sample_world 1 "sample_handler (sample_store unary_lib [failed_task])" "replicate 10 (\<lambda>n. int n, broken_env)" _]
      failed_sample by (simp add: sample_world_def)
qed

end
