(* ===== verification/Spec2Isabelle.thy ===== *)
theory Spec2Isabelle
  imports Store_Startup Text_Util Ttl_Cache Work_Graph Cancel_Cascade Automation_Loops
begin

text \<open>
  \<^bold>\<open>The program.\<close> The server under \<open>src/internal\<close> keeps a board of tasks. A task moves from the
  backlog through \<open>in_progress\<close>, \<open>waiting\<close> and \<open>committing\<close> to \<open>done\<close>, \<open>failed\<close> or \<open>cancelled\<close>. The
  store keeps the tasks in memory, in indexes and on disk, and publishes every change to
  subscribers. The runner drives an agent for a task, turn by turn. The HTTP handlers change
  tasks for the user, and watchers promote, retry, test, sync, review and submit tasks on their
  own. Routines create tasks at intervals, and the Map shows specs and tasks as one graph.

  \<^bold>\<open>Shared vocabulary.\<close> \<open>Prelude\<close> has Go maps as association lists (the order stands for the open
  iteration order), times and identifiers. \<open>Go_Strings\<close>, \<open>Go_Slices\<close> and \<open>Go_Format\<close> model what the
  code uses of the standard library on byte strings, stable sorting and number formats.

  \<^bold>\<open>Small packages\<close> (\<open>internal/pkg\<close>, \<open>internal/routine\<close>).
  \<^item> \<open>Pubsub\<close>: \<open>pubsub/hub.go\<close> with its channel heap and replay buffer; publishing is split at its lock.
    Replay is complete, delivery is ordered, and two overlapping publishes can hide an entry.
  \<^item> \<open>Statemachine\<close>, \<open>Pagination\<close>, \<open>Dag\<close>, \<open>Text_Util\<close>: transition tables, pages, reachability, cycles and
    longest chains, truncation and slugs.
  \<^item> \<open>Circuit_Breaker\<close>: the back-off breaker at 64 bits and the lock-free breaker with three states.
  \<^item> \<open>Ttl_Cache\<close>: timed entries with a bounded LRU list.
  \<^item> \<open>Routine_Engine\<close>: \<open>routine/engine.go\<close>, with the timers of the clock as state and the callbacks split
    where they take the lock.

  \<^bold>\<open>Store\<close> (\<open>internal/store\<close>). The record \<open>Store\<close> has the task maps, the status and search indexes,
  the hub, the event trails and the files. A method maps a store to a store and a result; an I/O
  fault is a set of operations that fail, and memory changes also when the write fails, as in the code.
  \<^item> \<open>Task_Model\<close> (\<open>models.go\<close>), \<open>Task_Normalize\<close> (\<open>migrate.go\<close>), \<open>Store_Backend\<close> (\<open>backend_fs.go\<close>),
    \<open>Store_State\<close> (\<open>store.go\<close>): the data, its migration, the files, and persistence with notification.
  \<^item> \<open>Store_Update\<close>, \<open>Store_Lifecycle\<close>, \<open>Store_Create_Delete\<close>, \<open>Store_Query\<close>, \<open>Store_Events\<close>: the methods, by the
    source file that has them.
  \<^item> \<open>Store_Invariant\<close> has the invariant and the contracts of methods as locales, interpreted on each
    field update. \<open>Store_System\<close> has the relation of all methods and the theorems on every history;
    \<open>Store_Startup\<close> the round trip through a restart; \<open>Task_Effects\<close> what each method does to a task,
    and that it succeeds without faults; \<open>Store_Samples\<close> the sample stores of the witnesses.

  \<^bold>\<open>Work graph.\<close> \<open>Work_Graph\<close> models \<open>graph/graph.go\<close> and \<open>handler/graph.go\<close>: readiness agrees with the
  store, and the critical path is a longest chain on acyclic graphs.

  \<^bold>\<open>Runner.\<close> \<open>Runner_Turns\<close> models \<open>Run\<close> of \<open>runner/execute.go\<close> and \<open>execute_testrun.go\<close>: a run settles the
  task, usage adds up, budgets stop it, and a test keeps the result of the implementation.

  \<^bold>\<open>Handlers and automation\<close> (\<open>internal/handler\<close>). The record \<open>Handler\<close> has the store of the viewed
  workspace group, the toggles, breakers and limits, and in order the goroutines that were started.
  \<^item> \<open>Handler_State\<close>: \<open>handler.go\<close>, \<open>event_helpers.go\<close>: breakers, limits, event attribution, worktree checks.
  \<^item> \<open>Handler_Execute\<close>: \<open>execute.go\<close>: feedback, completion with its commit goroutine, cancellation, archive,
    resume, test and sync. A commit settles its task and is started once; a late sync reopens it.
  \<^item> \<open>Cancel_Cascade\<close>: cancelling a routine stops its tasks and its timer.
  \<^item> \<open>Automation\<close>: \<open>tasks_autoimplement.go\<close>. A watcher reads candidates in one phase and acts under the lock in
    a second; what other goroutines do between is an arbitrary function on the state.
  \<^item> \<open>Automation_Limits\<close>: the limits on running tasks and tests, with one contract for all admissions.
    \<open>Automation_Safety\<close>: which tasks are started and submitted. \<open>Automation_Loops\<close>: retrier, promoter and runner
    together over many rounds.

  \<^bold>\<open>Parameters.\<close> Code outside the repository and effects that the code only calls are arguments:
  \<open>lib\<close> (lower-casing of runes, parsing and printing of UUIDs, with \<open>lib_ok\<close> for the round trip),
  \<open>run_env\<close> (flow engine, in-process agents, worktree set-up, verdict expressions), \<open>world\<close> (files, git,
  prompt templates, error texts), the replies of agent containers, the commit pipeline, and every
  reading of the clock. Samples instantiate them.

  \<^bold>\<open>Termination and bounds.\<close> Loops are recursive functions with termination proofs. \<open>DetectCycles\<close> has
  fuel of the number of nodes plus two, which a path of distinct nodes cannot exceed. \<open>reach_dfs\<close>
  ends because unvisited nodes decrease. \<open>path_from\<close> is a partial function, since the loop it models
  does not end on cyclic specs; its result is proved to exist on acyclic ones. \<open>Run\<close> consumes a
  list of replies and returns nothing when they run out; a final reply is enough. 64-bit durations
  are words where the shift can overflow; other integers are unbounded.

  \<^bold>\<open>Not modelled.\<close> The remaining HTTP handlers (decoding and encoding of JSON around store calls);
  \<open>SyncWorktrees\<close> and the commit pipeline of the runner, worktrees and git (behaviour of external
  processes); agent executors and harnesses; spec documents (markdown parsing); planning chat,
  coordinator, OAuth and GitHub clients (network services); workspace switching, configuration and
  the command line; metrics and logging; the user interface, which is another program.
\<close>

end
